(* ===== verification/Prelude.thy ===== *)
theory Prelude
  imports Main "HOL-Library.Word" "HOL-Library.Monad_Syntax"
    "HOL-Library.Code_Target_Numeral"
begin

text \<open>
  Shared vocabulary of the development: the machine types of the C code, memory as a list
  with checked copies, and the generic facts on lists and words the components use.

  A C object that code copies into or out of with \<open>memcpy\<close> is a list; a copy that would
  touch a position outside the object has the value \<open>None\<close> (undefined behaviour in C), so a
  theorem that a function returns \<open>Some\<close> is a memory-safety theorem.
\<close>

type_synonym byte = "8 word"
type_synonym u16 = "16 word"
type_synonym u32 = "32 word"
type_synonym u64 = "64 word"

named_theorems mem_simps \<open>checked memory accesses\<close>
named_theorems calls_simps \<open>what the byte emitters write\<close>

section \<open>Checked memory accesses\<close>

definition mem_put :: "'a list \<Rightarrow> nat \<Rightarrow> 'a list \<Rightarrow> 'a list" where
  "mem_put buf off xs = take off buf @ xs @ drop (off + length xs) buf"

definition mem_write :: "'a list \<Rightarrow> nat \<Rightarrow> 'a list \<Rightarrow> 'a list option" where
  "mem_write buf off xs =
     (if off + length xs \<le> length buf then Some (mem_put buf off xs) else None)"

definition mem_read :: "'a list \<Rightarrow> nat \<Rightarrow> nat \<Rightarrow> 'a list option" where
  "mem_read buf off n =
     (if off + n \<le> length buf then Some (take n (drop off buf)) else None)"

lemma mem_put_Nil [simp]: "mem_put buf off [] = buf"
  by (simp add: mem_put_def)

lemma length_mem_put [simp]:
  "off + length xs \<le> length buf \<Longrightarrow> length (mem_put buf off xs) = length buf"
  by (simp add: mem_put_def)

lemma nth_mem_put:
  assumes "off + length xs \<le> length buf" "i < length buf"
  shows "mem_put buf off xs ! i =
    (if off \<le> i \<and> i < off + length xs then xs ! (i - off) else buf ! i)"
  using assms by (auto simp: mem_put_def nth_append min_def)

lemma mem_write_Some [mem_simps]:
  "off + length xs \<le> length buf \<Longrightarrow> mem_write buf off xs = Some (mem_put buf off xs)"
  by (simp add: mem_write_def)

lemma mem_write_eq_Some [simp]:
  "mem_write buf off xs = Some buf' \<longleftrightarrow>
    off + length xs \<le> length buf \<and> buf' = mem_put buf off xs"
  by (auto simp: mem_write_def)

lemma mem_read_Some [mem_simps]:
  "off + n \<le> length buf \<Longrightarrow> mem_read buf off n = Some (take n (drop off buf))"
  by (simp add: mem_read_def)

lemma mem_read_eq_Some [simp]:
  "mem_read buf off n = Some xs \<longleftrightarrow>
    off + n \<le> length buf \<and> xs = take n (drop off buf)"
  by (auto simp: mem_read_def)

lemma mem_put_at_end: "mem_put buf (length buf) xs = buf @ xs"
  by (simp add: mem_put_def)

section \<open>Words\<close>

lemma unat_plus_no_overflow:
  fixes x y :: "'a::len word"
  assumes "unat x + unat y < 2 ^ LENGTH('a)"
  shows "unat (x + y) = unat x + unat y"
  using assms by (simp add: unat_word_ariths)

lemma unat_minus_le:
  fixes x y :: "'a::len word"
  assumes "unat y \<le> unat x"
  shows "unat (x - y) = unat x - unat y"
  using assms by (simp add: unat_sub_if')

lemma unat_mult_no_overflow:
  fixes x y :: "'a::len word"
  assumes "unat x * unat y < 2 ^ LENGTH('a)"
  shows "unat (x * y) = unat x * unat y"
  using assms by (simp add: unat_word_ariths)

lemma u32_less: "unat (x :: u32) < 2 ^ 32"
  using unsigned_less [of x] by simp

lemma unat_min: "unat (min x y) = min (unat x) (unat (y :: 'a::len word))"
  by (simp add: min_def word_le_nat_alt)

lemma u32_0xff: "(0xff :: u32) = mask 8"
  by (simp add: mask_eq_exp_minus_1)

text \<open>Storing a wider word in a byte keeps its low eight bits.\<close>

lemma ucast_and_0xff: "ucast (and y 0xff) = (ucast (y :: u32) :: byte)"
  unfolding u32_0xff by (rule bit_word_eqI) (auto simp: bit_simps)

end
