(* ===== verification/Ring.thy ===== *)
theory Ring
  imports Prelude
begin

text \<open>
  Circular buffers, as the C code uses them in several places: an array, a start index, and
  copies in at most two pieces (up to the end of the array, then from its start). The
  abstraction \<open>ring_read buf p n\<close> is the sequence of the \<open>n\<close> items from index \<open>p\<close> on; the
  lemmas say what the two-piece copies do to it. The locale \<open>bounded_fifo\<close> is the contract
  of a component that offers such a buffer as a queue.
\<close>

section \<open>Reading and writing around the end of the array\<close>

definition ring_read :: "'a list \<Rightarrow> nat \<Rightarrow> nat \<Rightarrow> 'a list" where
  "ring_read buf p n = map (\<lambda>i. buf ! ((p + i) mod length buf)) [0..<n]"

definition ring_write :: "'a list \<Rightarrow> nat \<Rightarrow> 'a list \<Rightarrow> 'a list" where
  "ring_write buf p xs =
     (let s = min (length xs) (length buf - p)
      in mem_put (mem_put buf p (take s xs)) 0 (drop s xs))"

lemma length_ring_read [simp]: "length (ring_read buf p n) = n"
  by (simp add: ring_read_def)

lemma nth_ring_read [simp]: "i < n \<Longrightarrow> ring_read buf p n ! i = buf ! ((p + i) mod length buf)"
  by (simp add: ring_read_def)

lemma ring_read_0 [simp]: "ring_read buf p 0 = []"
  by (simp add: ring_read_def)

lemma ring_read_mod: "ring_read buf (p mod length buf) n = ring_read buf p n"
  by (rule nth_equalityI) (simp_all add: mod_simps)

lemma ring_read_add:
  "ring_read buf p (m + n) = ring_read buf p m @ ring_read buf (p + m) n"
  by (rule nth_equalityI) (auto simp: nth_append add.assoc)

lemma length_ring_write [simp]:
  assumes "p \<le> length buf" "length xs \<le> length buf"
  shows "length (ring_write buf p xs) = length buf"
  using assms by (simp add: ring_write_def Let_def)

lemma nth_ring_write:
  assumes "p < length buf" "length xs \<le> length buf" "i < length buf"
  shows "ring_write buf p xs ! i =
    (if p \<le> i \<and> i < p + length xs then xs ! (i - p)
     else if i + length buf < p + length xs then xs ! (i + length buf - p)
     else buf ! i)"
  using assms by (auto simp: ring_write_def Let_def nth_mem_put min_def add.commute)

lemma ring_write_new:
  assumes "p < length buf" "length xs \<le> length buf" "j < length xs"
  shows "ring_write buf p xs ! ((p + j) mod length buf) = xs ! j"
proof (cases "p + j < length buf")
  case True
  with assms show ?thesis by (simp add: nth_ring_write)
next
  case False
  with assms have "(p + j) mod length buf = p + j - length buf"
    by (simp add: mod_if)
  with False assms show ?thesis by (simp add: nth_ring_write) (auto simp: algebra_simps)
qed

lemma ring_write_old:
  assumes "p < length buf" "n + length xs \<le> length buf" "j < n" "p = (q + n) mod length buf"
  shows "ring_write buf p xs ! ((q + j) mod length buf) = buf ! ((q + j) mod length buf)"
proof -
  let ?N = "length buf"
  have N: "0 < ?N" using assms by auto
  define d where "d = n - j"
  have d: "0 < d" "d \<le> n" "n = j + d" using assms by (auto simp: d_def)
  let ?i = "(q + j) mod ?N"
  have i: "?i < ?N" using N by simp
  have p: "p = (?i + d) mod ?N"
    using assms(4) d(3) mod_add_left_eq [of "q + j" ?N d] by (simp add: add.assoc)
  have dN: "d + length xs \<le> ?N" using d assms by simp
  show ?thesis
  proof (cases "?i + d < ?N")
    case True
    then have pi: "p = ?i + d" using p by simp
    then have "\<not> p \<le> ?i" "\<not> ?i + ?N < p + length xs" using d dN by linarith+
    then show ?thesis using nth_ring_write [OF assms(1) _ i, of xs] assms(2) by simp
  next
    case False
    have "?i + d - ?N < ?N" using i dN d by simp
    then have "(?i + d) mod ?N = ?i + d - ?N"
      using False by (subst le_mod_geq) simp_all
    then have pi: "p = ?i + d - ?N" using p by simp
    then have "\<not> ?i < p + length xs \<or> \<not> p \<le> ?i" "\<not> ?i + ?N < p + length xs"
      using False dN by linarith+
    then show ?thesis using nth_ring_write [OF assms(1) _ i, of xs] assms(2) by auto
  qed
qed

lemma ring_read_write_append:
  assumes "q < length buf" "n + length xs \<le> length buf"
  shows "ring_read (ring_write buf ((q + n) mod length buf) xs) q (n + length xs) =
    ring_read buf q n @ xs"
proof -
  let ?N = "length buf" and ?p = "(q + n) mod length buf"
  have p: "?p < ?N" by (rule mod_less_divisor) (use assms in linarith)
  have len: "length (ring_write buf ?p xs) = ?N" using p assms by simp
  show ?thesis
  proof (rule nth_equalityI)
    fix i assume "i < length (ring_read (ring_write buf ?p xs) q (n + length xs))"
    then have i: "i < n + length xs" by simp
    show "ring_read (ring_write buf ?p xs) q (n + length xs) ! i = (ring_read buf q n @ xs) ! i"
    proof (cases "i < n")
      case True
      then show ?thesis
        using i len ring_write_old [OF p assms(2) True refl] by (simp add: nth_append)
    next
      case False
      have "(?p + (i - n)) mod ?N = (q + i) mod ?N"
        using False mod_add_left_eq [of "q + n" ?N "i - n"] by (simp add: add.assoc)
      moreover have "ring_write buf ?p xs ! ((?p + (i - n)) mod ?N) = xs ! (i - n)"
        by (rule ring_write_new [OF p]) (use assms i False in linarith)+
      ultimately show ?thesis
        using False i len by (simp add: nth_append)
    qed
  qed simp
qed

lemma ring_read_two_pieces:
  assumes "p < length buf" "n \<le> length buf"
  shows "ring_read buf p n =
    (let s = min n (length buf - p) in take s (drop p buf) @ take (n - s) buf)"
proof (rule nth_equalityI)
  let ?s = "min n (length buf - p)"
  fix i assume "i < length (ring_read buf p n)"
  then have i: "i < n" by simp
  show "ring_read buf p n ! i =
      (let s = ?s in take s (drop p buf) @ take (n - s) buf) ! i"
  proof (cases "p + i < length buf")
    case True
    then have "i < ?s" using i by simp
    then show ?thesis using True i assms by (simp add: Let_def nth_append)
  next
    case False
    moreover have "(p + i) mod length buf = p + i - length buf"
      using False i assms by (subst le_mod_geq) simp_all
    moreover have "?s = length buf - p" "\<not> i < length buf - p" using False i by simp_all
    ultimately show ?thesis
      using i assms by (simp add: Let_def nth_append add.commute)
  qed
qed (use assms in \<open>auto simp: Let_def min_def\<close>)

text \<open>One element at a time.\<close>

lemma ring_write_single: "p < length buf \<Longrightarrow> ring_write buf p [x] = buf[p := x]"
  by (simp add: ring_write_def Let_def min_def mem_put_def upd_conv_take_nth_drop)

lemma ring_read_push:
  assumes "p < length buf" "n < length buf"
  shows "ring_read (buf[(p + n) mod length buf := x]) p (Suc n) = ring_read buf p n @ [x]"
proof -
  have "(p + n) mod length buf < length buf" by (rule mod_less_divisor) (use assms in linarith)
  then show ?thesis
    using ring_read_write_append [of p buf n "[x]"] assms ring_write_single by fastforce
qed

lemma ring_read_outside:
  assumes "p < length buf" "n < length buf"
  shows "ring_read (buf[(p + n) mod length buf := x]) p n = ring_read buf p n"
  using ring_read_push [OF assms, of x] ring_read_add [of "buf[(p + n) mod length buf := x]" p n 1] by simp

lemma ring_read_Suc: "ring_read buf p (Suc n) = buf ! (p mod length buf) # ring_read buf ((p + 1) mod length buf) n"
  using ring_read_add [of buf p 1 n] ring_read_mod [of buf "p + 1" n] by (simp add: ring_read_def)

text \<open>Element indices scaled to byte offsets.\<close>

lemma scaled_mod: "(a mod c) * (s :: nat) = (a * s) mod (c * s)"
  by (simp add: mult_mod_left)

lemma scaled_mod_add: "((a + b) mod c) * (s :: nat) = ((a mod c) * s + b * s) mod (c * s)"
  by (metis add_mult_distrib mod_add_left_eq scaled_mod)

section \<open>The contract of a bounded queue\<close>

text \<open>
  \<open>push s xs\<close> offers the items \<open>xs\<close>; the queue takes the first \<open>accepts s xs\<close> of them.
  \<open>pop s n\<close> asks for \<open>n\<close> items and gets what is there, at most \<open>n\<close>.
\<close>

datatype 'a fifo_op = Push "'a list" | Pop nat

text \<open>Running a list of operations: the accepted inputs and the outputs, in order.\<close>

fun fifo_run ::
  "('s \<Rightarrow> 'a list \<Rightarrow> 's) \<Rightarrow> ('s \<Rightarrow> 'a list \<Rightarrow> nat) \<Rightarrow> ('s \<Rightarrow> nat \<Rightarrow> 'a list \<times> 's) \<Rightarrow>
    's \<Rightarrow> 'a fifo_op list \<Rightarrow> 'a list \<times> 'a list \<times> 's" where
  "fifo_run push acc pop s [] = ([], [], s)"
| "fifo_run push acc pop s (Push xs # ops) =
     (case fifo_run push acc pop (push s xs) ops of
        (i, out, s') \<Rightarrow> (take (acc s xs) xs @ i, out, s'))"
| "fifo_run push acc pop s (Pop n # ops) =
     (case pop s n of (ys, s1) \<Rightarrow>
        (case fifo_run push acc pop s1 ops of (i, out, s') \<Rightarrow> (i, ys @ out, s')))"

text \<open>Every operation of the list is allowed in the state where it is called.\<close>

fun fifo_run_ok ::
  "('s \<Rightarrow> 'a fifo_op \<Rightarrow> bool) \<Rightarrow> ('s \<Rightarrow> 'a list \<Rightarrow> 's) \<Rightarrow> ('s \<Rightarrow> nat \<Rightarrow> 'a list \<times> 's) \<Rightarrow>
    's \<Rightarrow> 'a fifo_op list \<Rightarrow> bool" where
  "fifo_run_ok ok push pop s [] = True"
| "fifo_run_ok ok push pop s (Push xs # ops) =
     (ok s (Push xs) \<and> fifo_run_ok ok push pop (push s xs) ops)"
| "fifo_run_ok ok push pop s (Pop n # ops) =
     (ok s (Pop n) \<and> fifo_run_ok ok push pop (snd (pop s n)) ops)"

locale bounded_fifo =
  fixes inv :: "'s \<Rightarrow> bool"
    and contents :: "'s \<Rightarrow> 'a list"
    and ok :: "'s \<Rightarrow> 'a fifo_op \<Rightarrow> bool"
    and push :: "'s \<Rightarrow> 'a list \<Rightarrow> 's"
    and accepts :: "'s \<Rightarrow> 'a list \<Rightarrow> nat"
    and pop :: "'s \<Rightarrow> nat \<Rightarrow> 'a list \<times> 's"
  assumes push_inv: "inv s \<Longrightarrow> ok s (Push xs) \<Longrightarrow> inv (push s xs)"
    and push_contents:
      "inv s \<Longrightarrow> ok s (Push xs) \<Longrightarrow> contents (push s xs) = contents s @ take (accepts s xs) xs"
    and pop_inv: "inv s \<Longrightarrow> ok s (Pop n) \<Longrightarrow> inv (snd (pop s n))"
    and pop_contents:
      "inv s \<Longrightarrow> ok s (Pop n) \<Longrightarrow> contents s = fst (pop s n) @ contents (snd (pop s n))"
begin

lemma run_fifo:
  "inv s \<Longrightarrow> fifo_run_ok ok push pop s ops \<Longrightarrow> fifo_run push accepts pop s ops = (i, out, s') \<Longrightarrow>
    inv s' \<and> contents s @ i = out @ contents s'"
proof (induction ops arbitrary: s i out s')
  case Nil
  then show ?case by simp
next
  case (Cons x ops)
  show ?case
  proof (cases x)
    case (Push xs)
    obtain i1 out1 s2 where r: "fifo_run push accepts pop (push s xs) ops = (i1, out1, s2)"
      by (metis prod_cases3)
    have ok: "ok s (Push xs)" and ok1: "fifo_run_ok ok push pop (push s xs) ops"
      using Cons(3) Push by simp_all
    have "inv s2 \<and> contents (push s xs) @ i1 = out1 @ contents s2"
      by (rule Cons(1) [OF push_inv [OF Cons(2) ok] ok1 r])
    moreover have "i = take (accepts s xs) xs @ i1" "out = out1" "s' = s2"
      using Cons(4) r Push by simp_all
    ultimately show ?thesis using push_contents [OF Cons(2) ok] by (metis append.assoc)
  next
    case (Pop n)
    obtain ys s1 where p: "pop s n = (ys, s1)" by fastforce
    obtain i1 out1 s2 where r: "fifo_run push accepts pop s1 ops = (i1, out1, s2)"
      by (metis prod_cases3)
    have ok: "ok s (Pop n)" and ok1: "fifo_run_ok ok push pop s1 ops"
      using Cons(3) p Pop by simp_all
    have inv1: "inv s1" using pop_inv [OF Cons(2) ok] p by simp
    have c1: "contents s = ys @ contents s1" using pop_contents [OF Cons(2) ok] p by simp
    have "inv s2 \<and> contents s1 @ i1 = out1 @ contents s2"
      by (rule Cons(1) [OF inv1 ok1 r])
    moreover have "i = i1" "out = ys @ out1" "s' = s2" using Cons(4) p r Pop by simp_all
    ultimately show ?thesis using c1 by (metis append.assoc)
  qed
qed

end

end
