(* ===== verification/RingBuffer.thy ===== *)
theory RingBuffer
  imports Ring
begin

text \<open>
  The ring buffer manager of the video stabilisation library
  (libVideoStabilization/utils/ring_buffer.c): \<open>elem_cnt\<close> elements of \<open>elem_size\<close> bytes, a
  free-running \<open>unsigned int\<close> write counter \<open>rb_inp\<close> (the field \<open>rb_in\<close>) and read counter
  \<open>rb_outp\<close> (the field \<open>rb_out\<close>), both reduced modulo \<open>elem_cnt\<close> when an element is addressed.
  All arithmetic is that of 32-bit words. An operation has the value \<open>None\<close> when one of its
  \<open>memcpy\<close>s would leave the allocated block or the caller's buffer, or when it would block
  for ever on a mutex it already holds. The result of the C functions is an \<open>int\<close>, read from
  the word with \<open>sint\<close>; \<open>-1\<close> is the all-ones word.
\<close>

record ring_buffer_entity =
  rb_lock :: bool
  rb_inp :: u32
  rb_outp :: u32
  elem_size :: u32
  elem_cnt :: u32
  rb_buf :: "byte list"
  rb_safe :: bool  \<comment> \<open>the handle's operations are the locking ones\<close>

section \<open>Operations\<close>

text \<open>The two copies that \<open>rb_in\<close> and \<open>rb_in_f\<close> share, and the advance of the counter.\<close>

definition rb_store :: "ring_buffer_entity \<Rightarrow> byte list \<Rightarrow> u32 \<Rightarrow> ring_buffer_entity option" where
  "rb_store e buf_in cp_cnt =
     (let cp_step1 = min cp_cnt (elem_cnt e - (rb_inp e mod elem_cnt e))
      in do {
        xs \<leftarrow> mem_read buf_in 0 (unat (cp_step1 * elem_size e));
        b1 \<leftarrow> mem_write (rb_buf e) (unat ((rb_inp e mod elem_cnt e) * elem_size e)) xs;
        ys \<leftarrow> mem_read buf_in (unat (cp_step1 * elem_size e))
                 (unat ((cp_cnt - cp_step1) * elem_size e));
        b2 \<leftarrow> mem_write b1 0 ys;
        Some (e\<lparr>rb_buf := b2, rb_inp := rb_inp e + cp_cnt\<rparr>)
      })"

definition rb_in :: "ring_buffer_entity \<Rightarrow> byte list \<Rightarrow> u32 \<Rightarrow> (u32 \<times> ring_buffer_entity) option"
where
  "rb_in e buf_in elem_num =
     (if elem_num = 0 \<or> elem_num > elem_cnt e then Some (- 1, e)
      else
        let cp_cnt = min elem_num (elem_cnt e - (rb_inp e - rb_outp e))
        in do { e' \<leftarrow> rb_store e buf_in cp_cnt; Some (cp_cnt, e') })"

text \<open>\<open>pthread_mutex_lock\<close> and \<open>pthread_mutex_unlock\<close> around an operation.\<close>

definition with_lock ::
  "(ring_buffer_entity \<Rightarrow> ('a \<times> ring_buffer_entity) option) \<Rightarrow>
    ring_buffer_entity \<Rightarrow> ('a \<times> ring_buffer_entity) option" where
  "with_lock f e =
     (if rb_lock e then None
      else do { (r, e') \<leftarrow> f (e\<lparr>rb_lock := True\<rparr>); Some (r, e'\<lparr>rb_lock := False\<rparr>) })"

definition rb_in_lock ::
  "ring_buffer_entity \<Rightarrow> byte list \<Rightarrow> u32 \<Rightarrow> (u32 \<times> ring_buffer_entity) option" where
  "rb_in_lock e buf_in elem_num = with_lock (\<lambda>e. rb_in e buf_in elem_num) e"


text \<open>
  \<open>rb_out\<close> copies into the caller's buffer, or drops the elements when the pointer is NULL
  (\<open>None\<close>); the caller's buffer after the call is part of the result.
\<close>

definition rb_out ::
  "ring_buffer_entity \<Rightarrow> byte list option \<Rightarrow> u32 \<Rightarrow>
    ((u32 \<times> byte list option) \<times> ring_buffer_entity) option" where
  "rb_out e buf_out elem_num =
     (if elem_num = 0 \<or> elem_num > elem_cnt e then Some ((- 1, buf_out), e)
      else
        let cp_cnt = min elem_num (rb_inp e - rb_outp e);
            cp_step1 = min cp_cnt (elem_cnt e - (rb_outp e mod elem_cnt e));
            e' = e\<lparr>rb_outp := rb_outp e + cp_cnt\<rparr>
        in (case buf_out of
              None \<Rightarrow> Some ((cp_cnt, None), e')
            | Some dst \<Rightarrow> do {
                xs \<leftarrow> mem_read (rb_buf e) (unat ((rb_outp e mod elem_cnt e) * elem_size e))
                         (unat (cp_step1 * elem_size e));
                d1 \<leftarrow> mem_write dst 0 xs;
                ys \<leftarrow> mem_read (rb_buf e) 0 (unat ((cp_cnt - cp_step1) * elem_size e));
                d2 \<leftarrow> mem_write d1 (unat (cp_step1 * elem_size e)) ys;
                Some ((cp_cnt, Some d2), e')
              }))"

definition rb_out_fake ::
  "ring_buffer_entity \<Rightarrow> byte list \<Rightarrow> ((u32 \<times> byte list) \<times> ring_buffer_entity) option" where
  "rb_out_fake e dst =
     (let cp_cnt = min 1 (rb_inp e - rb_outp e)
      in if cp_cnt \<noteq> 0
         then do {
           xs \<leftarrow> mem_read (rb_buf e) (unat ((rb_outp e mod elem_cnt e) * elem_size e))
                    (unat (elem_size e));
           d \<leftarrow> mem_write dst 0 xs;
           Some ((cp_cnt, d), e)
         }
         else Some ((cp_cnt, dst), e))"

definition rb_out_lock ::
  "ring_buffer_entity \<Rightarrow> byte list option \<Rightarrow> u32 \<Rightarrow>
    ((u32 \<times> byte list option) \<times> ring_buffer_entity) option" where
  "rb_out_lock e buf_out elem_num = with_lock (\<lambda>e. rb_out e buf_out elem_num) e"

definition rb_reset :: "ring_buffer_entity \<Rightarrow> ring_buffer_entity" where
  "rb_reset e = e\<lparr>rb_outp := 0, rb_inp := 0\<rparr>"

definition rb_reset_lock :: "ring_buffer_entity \<Rightarrow> (unit \<times> ring_buffer_entity) option" where
  "rb_reset_lock e = with_lock (\<lambda>e. Some ((), rb_reset e)) e"

definition rb_g_bufsize :: "ring_buffer_entity \<Rightarrow> u32" where
  "rb_g_bufsize e = elem_size e * elem_cnt e"

definition rb_g_validnum :: "ring_buffer_entity \<Rightarrow> u32" where
  "rb_g_validnum e = rb_inp e - rb_outp e"

definition rb_g_emptynum :: "ring_buffer_entity \<Rightarrow> u32" where
  "rb_g_emptynum e = elem_cnt e - (rb_inp e - rb_outp e)"

definition rb_g_elemsize :: "ring_buffer_entity \<Rightarrow> u32" where
  "rb_g_elemsize e = elem_size e"

definition rb_is_full :: "ring_buffer_entity \<Rightarrow> bool" where
  "rb_is_full e \<longleftrightarrow> rb_inp e - rb_outp e \<ge> elem_cnt e"

definition rb_is_empty :: "ring_buffer_entity \<Rightarrow> bool" where
  "rb_is_empty e \<longleftrightarrow> rb_inp e = rb_outp e"

text \<open>
  \<open>ring_buffer_create\<close>: the two flags \<open>m1\<close> and \<open>m2\<close> say whether the two \<open>malloc\<close>s succeed.
  The product of the sizes is a 32-bit one.
\<close>

definition RB_FL_NONE :: u32 where "RB_FL_NONE = 0"
definition RB_FL_FORCE_WRITE :: u32 where "RB_FL_FORCE_WRITE = 1"
definition RB_FL_THREAD_SAFE :: u32 where "RB_FL_THREAD_SAFE = 2"

definition ring_buffer_create ::
  "bool \<Rightarrow> bool \<Rightarrow> u32 \<Rightarrow> u32 \<Rightarrow> u32 \<Rightarrow> ring_buffer_entity option" where
  "ring_buffer_create m1 m2 esize enum flag =
     (if esize = 0 \<or> enum = 0 then None
      else if \<not> m1 then None
      else if \<not> m2 then None
      else Some \<lparr>rb_lock = False, rb_inp = 0, rb_outp = 0, elem_size = esize, elem_cnt = enum,
                 rb_buf = replicate (unat (esize * enum)) 0,
                 rb_safe = (flag = RB_FL_FORCE_WRITE \<or> flag = RB_FL_THREAD_SAFE \<or>
                            flag = or RB_FL_THREAD_SAFE RB_FL_FORCE_WRITE)\<rparr>)"

text \<open>The calls through the function pointers of the handle (the macros of ring_buffer.h).\<close>

definition ring_buffer_in ::
  "ring_buffer_entity \<Rightarrow> byte list \<Rightarrow> u32 \<Rightarrow> (u32 \<times> ring_buffer_entity) option" where
  "ring_buffer_in e buf_in elem_num =
     (if rb_safe e then rb_in_lock e buf_in elem_num else rb_in e buf_in elem_num)"

definition ring_buffer_out ::
  "ring_buffer_entity \<Rightarrow> byte list option \<Rightarrow> u32 \<Rightarrow>
    ((u32 \<times> byte list option) \<times> ring_buffer_entity) option" where
  "ring_buffer_out e buf_out elem_num =
     (if rb_safe e then rb_out_lock e buf_out elem_num else rb_out e buf_out elem_num)"

definition ring_buffer_reset :: "ring_buffer_entity \<Rightarrow> (unit \<times> ring_buffer_entity) option" where
  "ring_buffer_reset e = (if rb_safe e then rb_reset_lock e else Some ((), rb_reset e))"

section \<open>Well-formed buffers and their contents\<close>

text \<open>
  The counters run freely over 32 bits. Their difference is right modulo \<open>2^32\<close> always, but
  the element they address is \<open>counter mod elem_cnt\<close>, which steps from the last element to the
  first at the overflow only when \<open>elem_cnt\<close> divides \<open>2^32\<close>. A well-formed buffer is one
  where this is so or where the write counter has not overflowed.
\<close>

definition rb_count :: "ring_buffer_entity \<Rightarrow> nat" where
  "rb_count e = unat (rb_inp e - rb_outp e)"

definition rb_esz :: "ring_buffer_entity \<Rightarrow> nat" where
  "rb_esz e = unat (elem_size e)"

definition rb_cap :: "ring_buffer_entity \<Rightarrow> nat" where
  "rb_cap e = unat (elem_cnt e)"


definition rb_contents :: "ring_buffer_entity \<Rightarrow> byte list" where
  "rb_contents e =
     ring_read (rb_buf e) ((unat (rb_outp e) mod rb_cap e) * rb_esz e) (rb_count e * rb_esz e)"


lemma length_rb_contents: "length (rb_contents e) = rb_count e * rb_esz e"
  by (simp add: rb_contents_def)




lemma word_times_small:
  fixes a b :: u32
  assumes "unat a * unat b < 2 ^ 32"
  shows "unat (a * b) = unat a * unat b"
  using assms by (intro unat_mult_no_overflow) simp

text \<open>The two-piece copy of \<open>rb_store\<close> is a write around the end of the block.\<close>

lemma rb_store_eq:
  assumes inv: "0 < rb_esz e" "0 < rb_cap e" "rb_cap e * rb_esz e < 2 ^ 32"
      "length (rb_buf e) = rb_cap e * rb_esz e"
    and k: "unat k \<le> rb_cap e" and src: "unat k * rb_esz e \<le> length src"
  shows "rb_store e src k =
    Some (e\<lparr>rb_buf := ring_write (rb_buf e) ((unat (rb_inp e) mod rb_cap e) * rb_esz e)
                        (take (unat k * rb_esz e) src),
            rb_inp := rb_inp e + k\<rparr>)"
proof -
  let ?i = "unat (rb_inp e) mod rb_cap e" and ?s = "rb_esz e" and ?c = "rb_cap e"
  have i: "?i < ?c" using inv(2) by simp
  define s1 where "s1 = min k (elem_cnt e - rb_inp e mod elem_cnt e)"
  have im: "unat (rb_inp e mod elem_cnt e) = ?i" by (simp add: unat_mod rb_cap_def)
  have s1: "unat s1 = min (unat k) (?c - ?i)"
    using i unfolding s1_def unat_min
    by (subst unat_minus_le) (simp_all add: im rb_cap_def)
  have le: "j * ?s < 2 ^ 32" if "j \<le> ?c" for j
    using that inv(3) by (meson le_less_trans mult_le_mono1)
  have b1: "unat (s1 * elem_size e) = unat s1 * ?s"
    using le [of "unat s1"] k by (subst word_times_small) (simp_all add: rb_esz_def s1)
  have b2: "unat ((k - s1) * elem_size e) = (unat k - unat s1) * ?s"
    using le [of "unat k - unat s1"] k s1
    by (subst word_times_small) (simp_all add: rb_esz_def unat_minus_le)
  have b3: "unat ((rb_inp e mod elem_cnt e) * elem_size e) = ?i * ?s"
    using le [of ?i] i by (subst word_times_small) (simp_all add: rb_esz_def im)
  have fit: "?i * ?s + unat s1 * ?s \<le> ?c * ?s" "unat s1 * ?s \<le> unat k * ?s"
      "(unat k - unat s1) * ?s \<le> ?c * ?s"
    using s1 i k by (auto simp flip: add_mult_distrib simp: mult_le_mono1)
  have m: "min (unat k * ?s) (?c * ?s - ?i * ?s) = unat s1 * ?s"
    by (simp add: s1 nat_mult_min_left diff_mult_distrib)
  have rest: "drop (unat s1 * ?s) (take (unat k * ?s) src) =
      take ((unat k - unat s1) * ?s) (drop (unat s1 * ?s) src)"
    by (simp add: drop_take diff_mult_distrib)
  have first: "take (unat s1 * ?s) (take (unat k * ?s) src) = take (unat s1 * ?s) src"
    using fit(2) by (simp add: min_def)
  show ?thesis
    unfolding rb_store_def s1_def [symmetric] Let_def b1 b2 b3
    using fit src inv(4) m rest first
    by (simp add: mem_simps ring_write_def Let_def diff_mult_distrib)
qed



section \<open>What each operation does\<close>



text \<open>The copy out of the block yields the oldest elements.\<close>

lemma rb_out_eq:
  assumes bounds: "0 < rb_esz e" "0 < rb_cap e" "rb_cap e * rb_esz e < 2 ^ 32"
      "length (rb_buf e) = rb_cap e * rb_esz e" "rb_count e \<le> rb_cap e"
    and n: "n \<noteq> 0" "n \<le> elem_cnt e" and dst: "unat n * rb_esz e \<le> length dst"
  defines "k \<equiv> min (unat n) (rb_count e)"
  obtains r where
    "rb_out e (Some dst) n = Some ((r, Some (mem_put dst 0 (take (k * rb_esz e) (rb_contents e)))),
       e\<lparr>rb_outp := rb_outp e + r\<rparr>)"
    "rb_out e None n = Some ((r, None), e\<lparr>rb_outp := rb_outp e + r\<rparr>)" "unat r = k"
proof -
  let ?s = "rb_esz e" and ?c = "rb_cap e" and ?o = "unat (rb_outp e) mod rb_cap e"
  define r where "r = min n (rb_inp e - rb_outp e)"
  define s1 where "s1 = min r (elem_cnt e - rb_outp e mod elem_cnt e)"
  define e' where "e' = e\<lparr>rb_outp := rb_outp e + r\<rparr>"
  have r: "unat r = k" unfolding r_def k_def unat_min rb_count_def ..
  have kc: "k \<le> rb_count e" "k \<le> ?c" "k \<le> unat n"
    using bounds(5) by (auto simp: k_def)
  have o: "?o < ?c" using bounds by simp
  have om: "unat (rb_outp e mod elem_cnt e) = ?o" by (simp add: unat_mod rb_cap_def)
  have s1: "unat s1 = min k (?c - ?o)"
    using o unfolding s1_def unat_min
    by (subst unat_minus_le) (simp_all add: om rb_cap_def r)
  have le: "j * ?s < 2 ^ 32" if "j \<le> ?c" for j
    using that bounds by (meson le_less_trans mult_le_mono1)
  have b1: "unat (s1 * elem_size e) = unat s1 * ?s"
    using le [of "unat s1"] kc by (subst word_times_small) (simp_all add: rb_esz_def s1)
  have b2: "unat ((r - s1) * elem_size e) = (k - unat s1) * ?s"
    using le [of "k - unat s1"] kc s1 r
    by (subst word_times_small) (simp_all add: rb_esz_def unat_minus_le)
  have b3: "unat ((rb_outp e mod elem_cnt e) * elem_size e) = ?o * ?s"
    using le [of ?o] o by (subst word_times_small) (simp_all add: rb_esz_def om)
  have fit: "?o * ?s + unat s1 * ?s \<le> ?c * ?s" "(k - unat s1) * ?s \<le> ?c * ?s"
      "unat s1 * ?s + (k - unat s1) * ?s = k * ?s"
    using s1 o kc by (auto simp flip: add_mult_distrib simp: mult_le_mono1)
  have fitd: "k * ?s \<le> length dst"
    using dst mult_le_mono1 [OF kc(3), of ?s] by linarith
  have "k * ?s \<le> rb_count e * ?s" using kc by (simp add: mult_le_mono1)
  then have "take (k * ?s) (rb_contents e) = ring_read (rb_buf e) (?o * ?s) (k * ?s)"
    unfolding rb_contents_def ring_read_def by (simp add: take_map min_def)
  also have "\<dots> = take (unat s1 * ?s) (drop (?o * ?s) (rb_buf e)) @ take ((k - unat s1) * ?s) (rb_buf e)"
    using o kc bounds by (subst ring_read_two_pieces)
      (simp_all add: Let_def s1 nat_mult_min_left diff_mult_distrib mult_le_mono1)
  finally have got: "take (k * ?s) (rb_contents e) =
    take (unat s1 * ?s) (drop (?o * ?s) (rb_buf e)) @ take ((k - unat s1) * ?s) (rb_buf e)" .
  have put: "mem_put (mem_put dst 0 xs) (length xs) ys = mem_put dst 0 (xs @ ys)"
    if "length xs + length ys \<le> length dst" for xs ys :: "byte list"
    using that by (simp add: mem_put_def add.commute)
  have l1: "length (take (unat s1 * ?s) (drop (?o * ?s) (rb_buf e))) = unat s1 * ?s"
    and l2: "length (take ((k - unat s1) * ?s) (rb_buf e)) = (k - unat s1) * ?s"
    using fit bounds by simp_all
  have "rb_out e None n = Some ((r, None), e')"
    using n(1) leD [OF n(2)] by (simp add: rb_out_def r_def e'_def Let_def)
  moreover have "rb_out e (Some dst) n =
      Some ((r, Some (mem_put dst 0 (take (k * ?s) (rb_contents e)))), e')"
    using n(1) leD [OF n(2)] fit fitd bounds l1 l2 put [of "take (unat s1 * ?s) (drop (?o * ?s) (rb_buf e))"
      "take ((k - unat s1) * ?s) (rb_buf e)"]
    unfolding rb_out_def Let_def r_def [symmetric] s1_def [symmetric] b1 b2 b3 got
    by (simp add: e'_def mem_simps)
  ultimately show ?thesis using that [of r] r by (simp add: e'_def)
qed


text \<open>The locking variants are the plain operations between lock and unlock.\<close>

lemma with_lock_eq:
  assumes "\<not> rb_lock e"
    and "f (e\<lparr>rb_lock := True\<rparr>) = map_option (apsnd (rb_lock_update (\<lambda>_. True))) (f e)"
    and "\<And>r e'. f e = Some (r, e') \<Longrightarrow> \<not> rb_lock e'"
  shows "with_lock f e = f e"
proof (cases "f e")
  case None
  then show ?thesis using assms by (simp add: with_lock_def)
next
  case (Some x)
  then show ?thesis using assms by (cases x) (simp add: with_lock_def)
qed

lemma rb_store_locked:
  "rb_store (e\<lparr>rb_lock := b\<rparr>) src k = map_option (rb_lock_update (\<lambda>_. b)) (rb_store e src k)"
  by (cases e) (simp add: rb_store_def Let_def map_option_bind comp_def)

lemma rb_store_lock: "rb_store e src k = Some e' \<Longrightarrow> rb_lock e' = rb_lock e"
  by (auto simp: rb_store_def Let_def bind_eq_Some_conv)

lemma rb_in_lock_eq: "\<not> rb_lock e \<Longrightarrow> rb_in_lock e src n = rb_in e src n"
  unfolding rb_in_lock_def
  by (rule with_lock_eq)
    (auto simp: rb_in_def Let_def rb_store_locked map_option_bind bind_eq_Some_conv
      option.map_comp comp_def bind_map_option dest: rb_store_lock split: if_splits)

lemma rb_out_lock_eq: "\<not> rb_lock e \<Longrightarrow> rb_out_lock e dst n = rb_out e dst n"
  unfolding rb_out_lock_def
  by (rule with_lock_eq; cases e)
    (auto simp: rb_out_def Let_def map_option_bind bind_eq_Some_conv comp_def
      split: if_splits option.splits)


section \<open>The buffer as a bounded queue\<close>

text \<open>
  The calls of a client of the handle, as operations of the contract \<open>bounded_fifo\<close>: items
  are bytes, \<open>Push xs\<close> offers \<open>length xs div elem_size\<close> elements, \<open>Pop n\<close> asks for \<open>n\<close>
  elements. The C results are \<open>int\<close>s, so buffers of \<open>2^31\<close> or more elements are left out.
\<close>

definition rbq_push :: "ring_buffer_entity \<Rightarrow> byte list \<Rightarrow> ring_buffer_entity" where
  "rbq_push e xs =
     (case ring_buffer_in e xs (of_nat (length xs div rb_esz e)) of
        Some (_, e') \<Rightarrow> e' | None \<Rightarrow> e)"

definition rbq_accepts :: "ring_buffer_entity \<Rightarrow> byte list \<Rightarrow> nat" where
  "rbq_accepts e xs =
     (case ring_buffer_in e xs (of_nat (length xs div rb_esz e)) of
        Some (r, _) \<Rightarrow> (if r = - 1 then 0 else unat r * rb_esz e) | None \<Rightarrow> 0)"

definition rbq_pop :: "ring_buffer_entity \<Rightarrow> nat \<Rightarrow> byte list \<times> ring_buffer_entity" where
  "rbq_pop e n =
     (case ring_buffer_out e (Some (replicate (n * rb_esz e) 0)) (of_nat n) of
        Some ((r, Some dst), e') \<Rightarrow> (if r = - 1 then [] else take (unat r * rb_esz e) dst, e')
      | _ \<Rightarrow> ([], e))"



lemma ring_buffer_in_eq: "\<not> rb_lock e \<Longrightarrow> ring_buffer_in e src n = rb_in e src n"
  by (simp add: ring_buffer_in_def rb_in_lock_eq)

lemma ring_buffer_out_eq: "\<not> rb_lock e \<Longrightarrow> ring_buffer_out e dst n = rb_out e dst n"
  by (simp add: ring_buffer_out_def rb_out_lock_eq)

lemma unat_u32_of_nat: "n < 2 ^ 32 \<Longrightarrow> unat (of_nat n :: u32) = n"
  by (simp add: unat_of_nat)

lemma small_not_minus_one:
  fixes r :: u32
  assumes "unat r < 2 ^ 31"
  shows "r \<noteq> - 1"
proof
  assume "r = - 1"
  then have "unat r = 2 ^ 32 - 1"
    by (simp add: unsigned_minus_1_eq_mask mask_eq_exp_minus_1)
  with assms show False by simp
qed





section \<open>Properties\<close>







section \<open>The overflow of the counters\<close>

text \<open>
  Storing one element and reading it again, over and over, brings the counters anywhere.
  One round is a call of \<open>ring_buffer_in\<close> with one element and one of \<open>ring_buffer_out\<close>.
\<close>

definition rb_round :: "ring_buffer_entity \<Rightarrow> ring_buffer_entity" where
  "rb_round e = snd (rbq_pop (rbq_push e (replicate (rb_esz e) 0)) 1)"

text \<open>A created buffer whose counters have both come to \<open>k\<close>.\<close>

definition rb_at :: "ring_buffer_entity \<Rightarrow> u32 \<Rightarrow> ring_buffer_entity" where
  "rb_at e k = e\<lparr>rb_inp := k, rb_outp := k\<rparr>"

definition rb_blank :: "ring_buffer_entity \<Rightarrow> bool" where
  "rb_blank e \<longleftrightarrow> 0 < rb_esz e \<and> 0 < rb_cap e \<and> rb_cap e * rb_esz e < 2 ^ 32 \<and> rb_cap e < 2 ^ 31 \<and>
     rb_buf e = replicate (rb_cap e * rb_esz e) 0 \<and> \<not> rb_lock e"

text \<open>A write into an empty buffer, at any count.\<close>

lemma rbq_push_at:
  assumes e: "rb_blank e" and xs: "length xs = m * rb_esz e" "0 < m" "m \<le> rb_cap e"
  shows "rbq_push (rb_at e k) xs =
      e\<lparr>rb_inp := k + of_nat m, rb_outp := k, rb_buf := ring_write (rb_buf e) ((unat k mod rb_cap e) * rb_esz e) xs\<rparr>"
    "rbq_accepts (rb_at e k) xs = length xs"
proof -
  let ?e = "rb_at e k" and ?m = "of_nat m :: u32"
  have s: "0 < rb_esz e" "rb_cap e < 2 ^ 31" using e by (simp_all add: rb_blank_def)
  have at: "rb_esz ?e = rb_esz e" "rb_cap ?e = rb_cap e" "rb_buf ?e = rb_buf e" "rb_inp ?e = k" "rb_outp ?e = k"
      "elem_cnt ?e = elem_cnt e" "\<not> rb_lock ?e"
    using e by (simp_all add: rb_at_def rb_esz_def rb_cap_def rb_blank_def)
  have m: "unat ?m = m" using xs s by (simp add: unat_u32_of_nat)
  have le: "?m \<noteq> 0" "?m \<le> elem_cnt e" using m xs by (auto simp: word_le_nat_alt rb_cap_def)
  have st: "rb_store ?e xs ?m = Some (?e\<lparr>rb_buf := ring_write (rb_buf e) ((unat k mod rb_cap e) * rb_esz e) xs,
      rb_inp := k + ?m\<rparr>)"
    using rb_store_eq [of ?e ?m xs] e xs m by (simp add: at rb_blank_def)
  have "min ?m (elem_cnt e) = ?m" using le by simp
  then have "rb_in ?e xs ?m = Some (?m, ?e\<lparr>rb_buf := ring_write (rb_buf e) ((unat k mod rb_cap e) * rb_esz e) xs,
      rb_inp := k + ?m\<rparr>)"
    using le st by (simp add: rb_in_def Let_def at not_less [symmetric] leD)
  moreover have "?m \<noteq> - 1" using m xs s by (intro small_not_minus_one) simp
  moreover have "length xs div rb_esz ?e = m" using xs s by (simp add: at)
  ultimately show "rbq_push ?e xs =
      e\<lparr>rb_inp := k + ?m, rb_outp := k, rb_buf := ring_write (rb_buf e) ((unat k mod rb_cap e) * rb_esz e) xs\<rparr>"
    "rbq_accepts ?e xs = length xs"
    using m xs by (simp_all add: rbq_push_def rbq_accepts_def ring_buffer_in_eq at) (simp add: rb_at_def)
qed

text \<open>A read of elements that are there, whatever the counters are.\<close>

lemma rbq_pop_eq:
  assumes e: "0 < rb_esz e" "0 < rb_cap e" "rb_cap e * rb_esz e < 2 ^ 32" "length (rb_buf e) = rb_cap e * rb_esz e"
      "rb_count e \<le> rb_cap e" "rb_cap e < 2 ^ 31" "\<not> rb_lock e"
    and m: "0 < m" "m \<le> rb_count e"
  shows "rbq_pop e m = (take (m * rb_esz e) (rb_contents e), e\<lparr>rb_outp := rb_outp e + of_nat m\<rparr>)"
proof -
  let ?m = "of_nat m :: u32" and ?dst = "replicate (m * rb_esz e) (0 :: byte)"
  have u: "unat ?m = m" using e m by (simp add: unat_u32_of_nat)
  have le: "?m \<noteq> 0" "?m \<le> elem_cnt e" using u m e by (auto simp: word_le_nat_alt rb_cap_def)
  obtain r where r: "rb_out e (Some ?dst) ?m =
      Some ((r, Some (mem_put ?dst 0 (take (min (unat ?m) (rb_count e) * rb_esz e) (rb_contents e)))),
        e\<lparr>rb_outp := rb_outp e + r\<rparr>)" "unat r = min (unat ?m) (rb_count e)"
    using rb_out_eq [OF e(1-5) le, of ?dst] u by (metis length_replicate order_refl)
  have "r = ?m" using r(2) u m by (intro word_unat_eq_iff [THEN iffD2]) simp
  moreover have "?m \<noteq> - 1" using u m e by (intro small_not_minus_one) simp
  moreover have "m * rb_esz e \<le> rb_count e * rb_esz e" using m by simp
  ultimately show ?thesis
    using r(1) e(7) u m by (simp add: rbq_pop_def ring_buffer_out_eq mem_put_def length_rb_contents min_def)
qed

lemma rb_round_at:
  assumes e: "rb_blank e"
  shows "rb_round (rb_at e k) = rb_at e (k + 1)"
proof -
  let ?z = "replicate (rb_esz e) (0 :: byte)" and ?p = "(unat k mod rb_cap e) * rb_esz e"
  have c: "0 < rb_esz e" "0 < rb_cap e" using e by (simp_all add: rb_blank_def)
  have "?p + rb_esz e \<le> rb_cap e * rb_esz e"
    using c by (metis add.commute mod_less_divisor mult_Suc Suc_leI mult_le_mono1)
  then have "ring_write (rb_buf e) ?p ?z = rb_buf e"
    using e c by (intro nth_equalityI) (auto simp: rb_blank_def nth_ring_write)
  then have p: "rbq_push (rb_at e k) ?z = e\<lparr>rb_inp := k + 1, rb_outp := k\<rparr>"
    using rbq_push_at(1) [OF e, of ?z 1 k] c by simp
  have "rbq_pop (e\<lparr>rb_inp := k + 1, rb_outp := k\<rparr>) 1 =
      (take (rb_esz e) (rb_contents (e\<lparr>rb_inp := k + 1, rb_outp := k\<rparr>)), rb_at e (k + 1))"
    using rbq_pop_eq [of "e\<lparr>rb_inp := k + 1, rb_outp := k\<rparr>" 1] e
    by (simp add: rb_blank_def rb_count_def rb_cap_def rb_esz_def rb_at_def)
  then show ?thesis using p by (simp add: rb_round_def) (simp add: rb_at_def rb_esz_def)
qed

lemma rb_rounds: "rb_blank e \<Longrightarrow> (rb_round ^^ n) (rb_at e 0) = rb_at e (of_nat n)"
  by (induction n) (simp_all add: rb_round_at add.commute)

lemma rb_blank_create:
  assumes "ring_buffer_create True True es n flag = Some e" "unat es * unat n < 2 ^ 32" "unat n < 2 ^ 31"
  shows "rb_blank e" "rb_at e 0 = e" "rb_esz e = unat es" "rb_cap e = unat n"
proof -
  have "unat (es * n) = unat n * unat es" using word_times_small [OF assms(2)] by (simp add: mult.commute)
  then show "rb_blank e" "rb_at e 0 = e" "rb_esz e = unat es" "rb_cap e = unat n"
    using assms by (auto simp: ring_buffer_create_def rb_blank_def rb_at_def rb_esz_def rb_cap_def word_gt_0
        unat_gt_0 mult.commute split: if_splits)
qed

text \<open>A full ring read from its first place is its content from another place.\<close>

lemma ring_read_rotated:
  assumes "length buf = length xs" "p < length xs" "p + q = length xs * a" "n \<le> length xs"
  shows "ring_read (ring_write buf p xs) 0 n = ring_read xs q n"
proof (rule nth_equalityI)
  fix j assume "j < length (ring_read (ring_write buf p xs) 0 n)"
  then have j: "j < n" by simp
  let ?N = "length xs" and ?i = "(q + j) mod length xs"
  have "(p + ?i) mod ?N = (p + q + j) mod ?N" by (simp add: mod_simps add.assoc)
  also have "\<dots> = j" using j assms by simp
  finally have "(p + ?i) mod ?N = j" .
  moreover have "?i < ?N" using assms by (intro mod_less_divisor) linarith
  ultimately have "ring_write buf p xs ! j = xs ! ?i" using ring_write_new [of p buf xs ?i] assms by simp
  then show "ring_read (ring_write buf p xs) 0 n ! j = ring_read xs q n ! j" using j assms by simp
qed simp

lemma shifted_index: "0 < r \<Longrightarrow> r < n \<Longrightarrow> k < n \<Longrightarrow> (k + n - r) mod n \<noteq> (k :: nat)"
  by (cases "k < r") (simp_all add: le_mod_geq)

text \<open>
  C34: A new buffer of \<open>n\<close> elements is filled with \<open>xs\<close> after \<open>2^32 - k\<close> elements have passed through
  it, for any \<open>k\<close> between zero and \<open>n\<close>; all of \<open>xs\<close> is taken. The first \<open>k\<close> elements are read back, and
  then the counters overflow: the other \<open>n - k\<close> elements that come are not the rest of \<open>xs\<close>, but those
  from \<open>2^32 mod n\<close> places earlier on, around the end of \<open>xs\<close>, and then the buffer is empty. So when
  \<open>n\<close> does not divide \<open>2^32\<close> and no two elements of \<open>xs\<close> are equal, what is read is not what was
  stored. (The size of the buffer is below \<open>2^32\<close> and \<open>n\<close> below \<open>2^31\<close>.)
\<close>

theorem ring_buffer_overflow:
  assumes e: "ring_buffer_create True True es n flag = Some e" "unat es * unat n < 2 ^ 32" "unat n < 2 ^ 31"
    and k: "0 < k" "k < unat n" and xs: "length xs = unat n * unat es"
    and run: "fifo_run rbq_push rbq_accepts rbq_pop ((rb_round ^^ (2 ^ 32 - k)) e) [Push xs, Pop k, Pop (unat n - k)] =
      (accepted, out, e')"
  shows "accepted = xs \<and> rb_contents e' = [] \<and>
    out = take (k * unat es) xs @ ring_read xs ((k + unat n - 2 ^ 32 mod unat n) * unat es) ((unat n - k) * unat es) \<and>
    (\<not> unat n dvd 2 ^ 32 \<and>
      (\<forall>i < unat n. \<forall>j < unat n. i \<noteq> j \<longrightarrow> ring_read xs (i * unat es) (unat es) \<noteq> ring_read xs (j * unat es) (unat es)) \<longrightarrow>
      out \<noteq> xs)"
proof -
  let ?n = "unat n" and ?s = "unat es" and ?c = "of_nat (2 ^ 32 - k) :: u32"
  let ?r = "2 ^ 32 mod ?n" and ?N = "unat n * unat es"
  note b = rb_blank_create [OF e]
  have s: "0 < ?s" "0 < ?n" using b(1) by (simp_all add: rb_blank_def b)
  have kb: "k < 2 ^ 32" using k e(3) by simp
  have c: "unat ?c = 2 ^ 32 - k" using k by (intro unat_u32_of_nat) simp
  have ck: "?c + of_nat k = 0" using kb by (simp flip: of_nat_add)
  define p where "p = (2 ^ 32 - k) mod ?n"
  define f1 where "f1 = e\<lparr>rb_inp := ?c + n, rb_outp := ?c, rb_buf := ring_write (rb_buf e) (p * ?s) xs\<rparr>"
  define f2 where "f2 = f1\<lparr>rb_outp := 0\<rparr>"
  have pn: "p < ?n" using s by (simp add: p_def)
  have pN: "p * ?s < ?N" using pn s by simp
  have bl: "length (rb_buf e) = ?N" using b(1) by (simp add: rb_blank_def b)
  have f0: "(rb_round ^^ (2 ^ 32 - k)) e = rb_at e ?c" using rb_rounds [OF b(1)] b(2) by metis
  have q: "rbq_push (rb_at e ?c) xs = f1" "rbq_accepts (rb_at e ?c) xs = length xs"
    using rbq_push_at [OF b(1), of xs ?n ?c] xs s c by (simp_all add: b f1_def p_def)
  have F: "rb_esz f1 = ?s" "rb_cap f1 = ?n" "rb_count f1 = ?n" "\<not> rb_lock f1" "length (rb_buf f1) = ?N"
    using b bl xs pN by (simp_all add: f1_def rb_esz_def rb_cap_def rb_count_def rb_blank_def)
  have inp: "?c + n = n - of_nat k" using ck by (simp add: algebra_simps eq_neg_iff_add_eq_0)
  have kn: "unat (of_nat k :: u32) = k" using kb by (rule unat_u32_of_nat)
  have "unat (?c + n) = ?n - k" unfolding inp using k kn by (subst unat_minus_le) (simp_all add: word_le_nat_alt)
  then have F2: "rb_esz f2 = ?s" "rb_cap f2 = ?n" "rb_count f2 = ?n - k" "\<not> rb_lock f2" "length (rb_buf f2) = ?N"
    using F by (simp_all add: f2_def f1_def rb_esz_def rb_cap_def rb_count_def)
  have "unat (rb_outp f1) = 2 ^ 32 - k" "rb_buf f1 = ring_write (rb_buf e) (p * ?s) xs" using c by (simp_all add: f1_def)
  then have "rb_contents f1 = ring_read (ring_write (rb_buf e) (p * ?s) xs) (p * ?s) ?N"
    by (simp only: rb_contents_def F p_def)
  then have c1: "rb_contents f1 = xs"
    using ring_read_write_append [of "p * ?s" "rb_buf e" 0 xs] pN bl xs by simp
  define q where "q = (k + ?n - ?r) * ?s"
  have rn: "?r < ?n" using s by simp
  have "(p + k) mod ?n = ?r" using kb by (simp add: p_def mod_simps)
  then have "p + k = ?r + ?n * ((p + k) div ?n)" by (metis mod_mult_div_eq)
  then have "p + (k + ?n - ?r) = ?n * ((p + k) div ?n + 1)" using rn by (simp add: algebra_simps)
  then have "(p + (k + ?n - ?r)) * ?s = ?n * ((p + k) div ?n + 1) * ?s" by (rule arg_cong)
  then have "p * ?s + q = length xs * ((p + k) div ?n + 1)" unfolding q_def xs add_mult_distrib by (simp only: ac_simps)
  then have rot: "ring_read (ring_write (rb_buf e) (p * ?s) xs) 0 ((?n - k) * ?s) = ring_read xs q ((?n - k) * ?s)"
    using ring_read_rotated [of "rb_buf e" xs "p * ?s" q "(p + k) div ?n + 1" "(?n - k) * ?s"] bl xs pN by simp
  have c2: "rb_contents f2 = ring_read xs q ((?n - k) * ?s)"
    using rot F2(1-3) by (simp add: rb_contents_def) (simp add: f2_def f1_def)
  have p1: "rbq_pop f1 k = (take (k * ?s) xs, f2)"
  proof -
    have "rb_outp f1 = ?c" by (simp add: f1_def)
    then have "rb_outp f1 + of_nat k = 0" by (simp only: ck)
    moreover have "?n * ?s < 2 ^ 32" using e(2) by (simp add: mult.commute)
    ultimately show ?thesis using rbq_pop_eq [of f1 k] F s e(3) k by (simp add: c1 f2_def)
  qed
  have p2: "rbq_pop f2 (?n - k) = (rb_contents f2, f2\<lparr>rb_outp := of_nat (?n - k)\<rparr>)"
  proof -
    have "rb_outp f2 = 0" by (simp add: f2_def)
    moreover have "?n * ?s < 2 ^ 32" using e(2) by (simp add: mult.commute)
    ultimately show ?thesis using rbq_pop_eq [of f2 "?n - k"] F2 s e(3) k by (simp add: length_rb_contents)
  qed
  have r: "accepted = xs" "out = take (k * ?s) xs @ ring_read xs q ((?n - k) * ?s)"
      "e' = f2\<lparr>rb_outp := of_nat (?n - k)\<rparr>"
    using run unfolding f0 fifo_run.simps q p1 p2 c2 prod.case by auto
  have "rb_inp f2 = of_nat (?n - k)" using inp k by (simp add: f2_def f1_def of_nat_diff)
  then have "rb_count e' = 0" by (simp add: r(3) rb_count_def)
  then have empty: "rb_contents e' = []" by (simp add: rb_contents_def)
  have "out \<noteq> xs" if nd: "\<not> ?n dvd 2 ^ 32"
    and d: "\<forall>i < ?n. \<forall>j < ?n. i \<noteq> j \<longrightarrow> ring_read xs (i * ?s) ?s \<noteq> ring_read xs (j * ?s) ?s"
  proof
    assume "out = xs"
    then have "ring_read xs q ((?n - k) * ?s) = drop (k * ?s) xs" unfolding r(2)
      by (metis append_take_drop_id same_append_eq)
    moreover have "take ?s (ring_read xs q ((?n - k) * ?s)) = ring_read xs q ?s"
      using k s by (simp add: ring_read_def take_map min_def)
    moreover have "take ?s (drop (k * ?s) xs) = ring_read xs (k * ?s) ?s"
    proof -
      have "k * ?s + ?s \<le> length xs" unfolding xs using mult_le_mono1 [of "Suc k" ?n ?s] k by simp
      then show ?thesis using ring_read_two_pieces [of "k * ?s" xs ?s] s by (simp add: Let_def min_def)
    qed
    ultimately have "ring_read xs q ?s = ring_read xs (k * ?s) ?s" by simp
    moreover have "ring_read xs q ?s = ring_read xs (((k + ?n - ?r) mod ?n) * ?s) ?s"
      using ring_read_mod [of xs q ?s] by (simp add: q_def xs scaled_mod)
    moreover have "(k + ?n - ?r) mod ?n \<noteq> k" using nd rn k by (intro shifted_index) (simp_all add: dvd_eq_mod_eq_0)
    ultimately show False using d k s by (metis mod_less_divisor)
  qed
  then show ?thesis using r(1,2) empty by (auto simp: q_def)
qed

lemma ring_buffer_overflow_witness:
  "fst (snd (fifo_run rbq_push rbq_accepts rbq_pop ((rb_round ^^ (2 ^ 32 - 2)) (the (ring_buffer_create True True 1 3 0)))
     [Push [1, 2, 3], Pop 2, Pop 1])) = [1, 2, 2]"
proof -
  let ?e = "the (ring_buffer_create True True 1 3 0)"
  obtain a out e' where r: "fifo_run rbq_push rbq_accepts rbq_pop ((rb_round ^^ (2 ^ 32 - 2)) ?e)
      [Push [1, 2, 3], Pop 2, Pop (unat (3 :: u32) - 2)] = (a, out, e')"
    by (metis prod_cases3)
  have c: "ring_buffer_create True True 1 3 0 = Some ?e" by (simp add: ring_buffer_create_def)
  have "out = [1, 2, 2]"
    using ring_buffer_overflow [OF c _ _ _ _ _ r] by (simp add: ring_read_def upt_rec)
  moreover have "unat (3 :: u32) - 2 = 1" by simp
  ultimately show ?thesis using r by (simp only: fst_conv snd_conv)
qed

end
