(* ===== verification/StreamFile.thy ===== *)
theory StreamFile
  imports Prelude
begin

text \<open>
  The file streams of libstream (libstream/cedarx_stream_file.c, the file descriptor variant
  built without direct I/O): a stream keeps the offset \<open>cur_offset\<close> of its next access and
  positions the descriptor before each of them. The operating system's file is its bytes, its
  position, \<open>errno\<close>, and the outcomes of its \<open>read\<close> and \<open>write\<close> calls, an infinite sequence
  of which \<open>p_calls\<close> have been used: a call moves all bytes, or at most some number of them, or
  fails with an error. A write that is interrupted over and over for ever does not return, which
  is \<open>None\<close>. \<open>size_t\<close> and \<open>int\<close> have 32 bits, \<open>cdx_off_t\<close> is an integer.
\<close>

section \<open>Files of the operating system\<close>

text \<open>Overwriting from a position on; a gap behind the end is filled with zeros.\<close>

definition file_put :: "byte list \<Rightarrow> nat \<Rightarrow> byte list \<Rightarrow> byte list" where
  "file_put d p xs =
     (if xs = [] then d
      else take p (d @ replicate (p - length d) 0) @ xs @ drop (p + length xs) d)"

lemma file_put_Nil [simp]: "file_put d p [] = d"
  by (simp add: file_put_def)

lemma length_file_put:
  "xs \<noteq> [] \<Longrightarrow> length (file_put d p xs) = max (length d) (p + length xs)"
  by (simp add: file_put_def)

text \<open>Two writes in sequence are one write.\<close>

lemma file_put_append:
  "file_put (file_put d p xs) (p + length xs) ys = file_put d p (xs @ ys)"
  by (auto simp: file_put_def take_append drop_append algebra_simps min_def)

lemma file_put_at_end [simp]: "file_put d (length d) xs = d @ xs"
  by (simp add: file_put_def)

lemma file_put_patch: "length a = p \<Longrightarrow> length xs = length ys \<Longrightarrow> file_put (a @ ys @ b) p xs = a @ xs @ b"
  by (cases "xs = []") (simp_all add: file_put_def)

lemma file_put_hole: "length a \<le> p \<Longrightarrow> xs \<noteq> [] \<Longrightarrow> file_put a p xs = a @ replicate (p - length a) 0 @ xs"
  by (simp add: file_put_def)

lemma take_file_put: "p \<le> length d \<Longrightarrow> take p (file_put d p xs) = take p d"
  by (simp add: file_put_def)

definition EIO :: int where "EIO = 5"
definition EINTR :: int where "EINTR = 4"
definition EAGAIN :: int where "EAGAIN = 11"
definition EINVAL :: int where "EINVAL = 22"

datatype io_outcome = Complete | Moved nat | Failed int

record posix_file =
  p_data :: "byte list"
  p_pos :: nat
  p_errno :: int
  p_calls :: nat
  p_outcomes :: "nat \<Rightarrow> io_outcome"

datatype whence = SEEK_SET | SEEK_CUR | SEEK_END

definition lseek64 :: "posix_file \<Rightarrow> int \<Rightarrow> whence \<Rightarrow> int \<times> posix_file" where
  "lseek64 f off w =
     (let r = off + (case w of SEEK_SET \<Rightarrow> 0 | SEEK_CUR \<Rightarrow> int (p_pos f)
                             | SEEK_END \<Rightarrow> int (length (p_data f)))
      in if r < 0 then (- 1, f\<lparr>p_errno := EINVAL\<rparr>) else (r, f\<lparr>p_pos := nat r\<rparr>))"

definition posix_write :: "posix_file \<Rightarrow> byte list \<Rightarrow> int \<times> posix_file" where
  "posix_write f buf =
     (let f1 = f\<lparr>p_calls := p_calls f + 1\<rparr>;
          put = (\<lambda>n. (int n, f1\<lparr>p_data := file_put (p_data f) (p_pos f) (take n buf),
                               p_pos := p_pos f + n\<rparr>))
      in case p_outcomes f (p_calls f) of
           Complete \<Rightarrow> put (length buf)
         | Moved n \<Rightarrow> put (min n (length buf))
         | Failed e \<Rightarrow> (- 1, f1\<lparr>p_errno := e\<rparr>))"

definition posix_read :: "posix_file \<Rightarrow> nat \<Rightarrow> int \<times> byte list \<times> posix_file" where
  "posix_read f n =
     (let f1 = f\<lparr>p_calls := p_calls f + 1\<rparr>;
          get = (\<lambda>k. (let xs = take k (drop (p_pos f) (p_data f))
                      in (int (length xs), xs, f1\<lparr>p_pos := p_pos f + length xs\<rparr>)))
      in case p_outcomes f (p_calls f) of
           Complete \<Rightarrow> get n
         | Moved k \<Rightarrow> get (min k n)
         | Failed e \<Rightarrow> (- 1, [], f1\<lparr>p_errno := e\<rparr>))"

definition posix_ftruncate :: "posix_file \<Rightarrow> int \<Rightarrow> int \<times> posix_file" where
  "posix_ftruncate f n =
     (if n < 0 then (- 1, f\<lparr>p_errno := EINVAL\<rparr>)
      else (0, f\<lparr>p_data := take (nat n) (p_data f @ replicate (nat n - length (p_data f)) 0)\<rparr>))"

section \<open>Streams\<close>

text \<open>
  \<open>struct cdx_stream_info\<close>, as far as a descriptor stream and the writers use it. The callback
  is the two tests on its pointers and the number of times it has been called.
\<close>

record cdx_stream_info =
  s_file :: posix_file
  fd_open :: bool
  fd_offset :: int
  cur_offset :: int
  fd_length :: int
  mIODirectionFlag :: bool
  mFileSize :: int
  mFileEndOffset :: int
  writeError :: int
  writeErrcnt :: int
  cb_set :: bool
  cb_calls :: nat

text \<open>Storing a wider integer in a C \<open>int\<close>.\<close>

definition to_int32 :: "int \<Rightarrow> int" where
  "to_int32 x = signed_take_bit 31 x"

definition cdx_seek_fd_file :: "cdx_stream_info \<Rightarrow> int \<Rightarrow> whence \<Rightarrow> int \<times> cdx_stream_info" where
  "cdx_seek_fd_file s off w =
     (let off' = (if w = SEEK_SET then off + fd_offset s else off);
          (r0, f0) = (if w = SEEK_CUR then lseek64 (s_file s) (cur_offset s) SEEK_SET
                      else (0, s_file s))
      in if w = SEEK_CUR \<and> r0 = - 1 then (- 1, s\<lparr>s_file := f0\<rparr>)
         else
           let (r, f1) = lseek64 f0 off' w
           in if r = - 1 then (- 1, s\<lparr>s_file := f1\<rparr>)
              else (0, s\<lparr>s_file := f1, cur_offset := (if r < fd_offset s then fd_offset s else r)\<rparr>))"

definition cdx_tell_fd_file :: "cdx_stream_info \<Rightarrow> int" where
  "cdx_tell_fd_file s = cur_offset s - fd_offset s"

text \<open>The failed \<open>assert\<close> and the division by zero are \<open>None\<close>.\<close>

definition cdx_read_fd_file ::
  "cdx_stream_info \<Rightarrow> u32 \<Rightarrow> u32 \<Rightarrow> (int \<times> byte list \<times> cdx_stream_info) option" where
  "cdx_read_fd_file s sz nmemb =
     (let (r, f) = lseek64 (s_file s) (cur_offset s) SEEK_SET
      in if to_int32 r = - 1 then Some (- 1, [], s\<lparr>s_file := f\<rparr>)
         else
           let (n, xs, f1) = posix_read f (unat (sz * nmemb));
               (c, f2) = lseek64 f1 0 SEEK_CUR;
               s' = s\<lparr>s_file := f2, cur_offset := c\<rparr>
           in if c < fd_offset s then None
              else if n \<noteq> - 1
                   then (if sz = 0 then None else Some (n div int (unat sz), xs, s'))
                   else Some (n, xs, s'))"

text \<open>
  The loop of \<open>cdx_write_fd_file\<close>: the bytes that are left, and the file; \<open>None\<close> when it never
  ends.
\<close>

partial_function (option) write_loop ::
  "posix_file \<Rightarrow> byte list \<Rightarrow> (byte list \<times> posix_file) option" where
  "write_loop f buf =
     (if buf = [] then Some ([], f)
      else
        let (n, f') = posix_write f buf
        in if n \<noteq> int (length buf) then
             (if n > 0 then write_loop f' (drop (nat n) buf)
              else if p_errno f' = EAGAIN \<or> p_errno f' = EINTR then write_loop f' buf
              else Some (buf, f'))
           else Some ([], f'))"

definition cdx_write_fd_file ::
  "cdx_stream_info \<Rightarrow> byte list \<Rightarrow> u32 \<Rightarrow> u32 \<Rightarrow> (int \<times> cdx_stream_info) option" where
  "cdx_write_fd_file s ptr sz nmemb =
     (let (r, f) = lseek64 (s_file s) (cur_offset s) SEEK_SET
      in if to_int32 r = - 1 then Some (- 1, s\<lparr>s_file := f\<rparr>)
         else do {
           buf \<leftarrow> mem_read ptr 0 (unat (sz * nmemb));
           (left, f1) \<leftarrow> write_loop f buf;
           let written = length buf - length left;
           let (c, f2) = lseek64 f1 0 SEEK_CUR;
           if c = - 1 then Some (- 1, s\<lparr>s_file := f2\<rparr>)
           else if sz = 0 then None
           else Some (int (written div unat sz),
                      s\<lparr>s_file := f2, cur_offset := (if c < fd_offset s then fd_offset s else c)\<rparr>)
         })"

definition cdx_get_fd_size_file :: "cdx_stream_info \<Rightarrow> int \<times> cdx_stream_info" where
  "cdx_get_fd_size_file s =
     (let (e, f1) = lseek64 (s_file s) 0 SEEK_END;
          (_, f2) = lseek64 f1 (cur_offset s) SEEK_SET
      in (e - fd_offset s, s\<lparr>s_file := f2\<rparr>))"

definition cdx_truncate_fd_file :: "cdx_stream_info \<Rightarrow> int \<Rightarrow> int \<times> cdx_stream_info" where
  "cdx_truncate_fd_file s len =
     (let (r, f) = posix_ftruncate (s_file s) len
      in (r, s\<lparr>s_file := f, mFileSize := len, mFileEndOffset := len\<rparr>))"

text \<open>
  The streams made by \<open>create_outstream_handle_file\<close> and \<open>file_create_instream_handle\<close> from a
  descriptor: the duplicate shares the file; \<open>s0\<close> is the zeroed structure the caller passes.
\<close>

definition create_outstream_handle_fd ::
  "cdx_stream_info \<Rightarrow> posix_file \<Rightarrow> int \<Rightarrow> int \<Rightarrow> int \<times> cdx_stream_info" where
  "create_outstream_handle_fd s0 f off len =
     (let (e, f1) = lseek64 f 0 SEEK_END;
          s1 = s0\<lparr>s_file := f1, fd_open := True, mIODirectionFlag := True, fd_offset := off,
                  cur_offset := off, fd_length := len, mFileEndOffset := e, mFileSize := e\<rparr>
      in (0, snd (cdx_seek_fd_file s1 0 SEEK_SET)))"

definition create_instream_handle_fd ::
  "cdx_stream_info \<Rightarrow> posix_file \<Rightarrow> int \<Rightarrow> int \<Rightarrow> int \<times> cdx_stream_info" where
  "create_instream_handle_fd s0 f off len =
     (let s1 = s0\<lparr>s_file := f, fd_open := True, mIODirectionFlag := False, fd_offset := off,
                  cur_offset := off, fd_length := len\<rparr>
      in (0, snd (cdx_seek_fd_file s1 0 SEEK_SET)))"

definition destroy_handle_fd :: "cdx_stream_info \<Rightarrow> cdx_stream_info" where
  "destroy_handle_fd s = s\<lparr>fd_open := False\<rparr>"

section \<open>What a write does\<close>

lemma posix_write_cases:
  assumes "posix_write f buf = (n, f')"
  obtains (moved) "n = int (nat n)" "nat n \<le> length buf"
      "f' = f\<lparr>p_calls := p_calls f + 1, p_data := file_put (p_data f) (p_pos f) (take (nat n) buf),
              p_pos := p_pos f + nat n\<rparr>"
    | (failed) e where "n = - 1" "p_outcomes f (p_calls f) = Failed e"
      "f' = f\<lparr>p_calls := p_calls f + 1, p_errno := e\<rparr>"
  using assms
  by (auto simp: posix_write_def Let_def split: io_outcome.splits)

lemma posix_write_frame:
  "posix_write f buf = (n, f') \<Longrightarrow> p_outcomes f' = p_outcomes f \<and> p_calls f' = p_calls f + 1"
  by (auto elim: posix_write_cases)

lemma write_loop_Nil [simp]: "write_loop f [] = Some ([], f)"
  by (simp add: write_loop.simps)

text \<open>The turns of the loop, as an induction rule.\<close>

lemma write_loop_induct [consumes 1, case_names Nil Moved Again Finished Failed]:
  assumes w: "write_loop f buf = Some r"
    and "\<And>f. P f [] ([], f)"
    and "\<And>f buf n f' r. buf \<noteq> [] \<Longrightarrow> posix_write f buf = (n, f') \<Longrightarrow> n \<noteq> int (length buf) \<Longrightarrow> 0 < n \<Longrightarrow>
      P f' (drop (nat n) buf) r \<Longrightarrow> P f buf r"
    and "\<And>f buf n f' r. buf \<noteq> [] \<Longrightarrow> posix_write f buf = (n, f') \<Longrightarrow> n \<noteq> int (length buf) \<Longrightarrow> \<not> 0 < n \<Longrightarrow>
      p_errno f' = EAGAIN \<or> p_errno f' = EINTR \<Longrightarrow> P f' buf r \<Longrightarrow> P f buf r"
    and "\<And>f buf f'. buf \<noteq> [] \<Longrightarrow> posix_write f buf = (int (length buf), f') \<Longrightarrow> P f buf ([], f')"
    and "\<And>f buf n f'. buf \<noteq> [] \<Longrightarrow> posix_write f buf = (n, f') \<Longrightarrow> n \<noteq> int (length buf) \<Longrightarrow> \<not> 0 < n \<Longrightarrow>
      \<not> (p_errno f' = EAGAIN \<or> p_errno f' = EINTR) \<Longrightarrow> P f buf (buf, f')"
  shows "P f buf r"
proof (rule write_loop.raw_induct [OF _ w])
  fix rec f buf r
  assume IH: "\<And>f buf r. rec f buf = Some r \<Longrightarrow> P f buf r"
    and body: "(if buf = [] then Some ([], f)
      else
        let (n, f') = posix_write f buf
        in if n \<noteq> int (length buf) then
             (if n > 0 then rec f' (drop (nat n) buf)
              else if p_errno f' = EAGAIN \<or> p_errno f' = EINTR then rec f' buf
              else Some (buf, f'))
           else Some ([], f')) = Some r"
  obtain n f' where n: "posix_write f buf = (n, f')" by (cases "posix_write f buf")
  show "P f buf r"
  proof (cases "buf = []")
    case True
    then show ?thesis using body assms(2) [of f] by auto
  next
    case False
    note cs = assms(3-) [OF False, where f = f]
    show ?thesis
      using body False n IH cs(1,2) [OF n] cs(3) [of f'] cs(4) [OF n]
      by (auto split: if_splits)
  qed
qed

text \<open>Whatever the outcomes are, the bytes gone from the buffer are in the file, in order.\<close>

lemma write_loop_file:
  "write_loop f buf = Some r \<Longrightarrow>
    \<exists>pre. buf = pre @ fst r \<and> p_data (snd r) = file_put (p_data f) (p_pos f) pre \<and>
      p_pos (snd r) = p_pos f + length pre \<and> p_outcomes (snd r) = p_outcomes f"
proof (induction f buf r rule: write_loop_induct)
  case (Moved f buf n f1 r)
  then obtain rest where r: "drop (nat n) buf = rest @ fst r"
      "p_data (snd r) = file_put (p_data f1) (p_pos f1) rest" "p_pos (snd r) = p_pos f1 + length rest"
      "p_outcomes (snd r) = p_outcomes f1"
    by blast
  from Moved(2,4) have m: "nat n \<le> length buf"
      "p_data f1 = file_put (p_data f) (p_pos f) (take (nat n) buf)" "p_pos f1 = p_pos f + nat n"
      "p_outcomes f1 = p_outcomes f"
    by (auto elim: posix_write_cases)
  have "p_data (snd r) = file_put (p_data f) (p_pos f) (take (nat n) buf @ rest)"
    using r(2) m file_put_append [of "p_data f" "p_pos f" "take (nat n) buf" rest] by simp
  moreover have "buf = (take (nat n) buf @ rest) @ fst r"
    using r(1) by (metis append.assoc append_take_drop_id)
  ultimately show ?case
    using r m by (intro exI [of _ "take (nat n) buf @ rest"]) simp
next
  case (Again f buf n f1 r)
  from Again(2,4) have "p_data f1 = p_data f" "p_pos f1 = p_pos f" "p_outcomes f1 = p_outcomes f"
    by (auto elim: posix_write_cases)
  then show ?case using Again(6) by simp
qed (auto elim: posix_write_cases)

text \<open>
  A call that has moved nothing and may be repeated; the loop ends unless all calls from some
  moment on are like this.
\<close>

fun retried :: "io_outcome \<Rightarrow> bool" where
  "retried Complete = False"
| "retried (Moved n) = (n = 0)"
| "retried (Failed e) = (e = EAGAIN \<or> e = EINTR)"

definition not_stalled :: "posix_file \<Rightarrow> bool" where
  "not_stalled f \<longleftrightarrow> (\<forall>i. \<exists>j \<ge> i. \<not> retried (p_outcomes f j))"

lemma write_loop_returns:
  assumes "not_stalled f"
  shows "write_loop f buf \<noteq> None"
  using assms
proof (induction "length buf" arbitrary: f buf rule: less_induct)
  case less
  obtain j where "j \<ge> p_calls f" "\<not> retried (p_outcomes f j)"
    using less.prems by (auto simp: not_stalled_def)
  then obtain d where "\<not> retried (p_outcomes f (p_calls f + d))"
    by (auto simp: le_iff_add)
  then show ?case
    using less.prems
  proof (induction d arbitrary: f)
    case (0 f)
    show ?case
    proof (cases "buf = []")
      case False
      obtain n f1 where w: "posix_write f buf = (n, f1)" by (cases "posix_write f buf")
      have go: "n = int (length buf) \<or> 0 < n \<or> p_errno f1 \<notin> {EAGAIN, EINTR}"
        using w 0(1) False
        by (auto simp: posix_write_def Let_def split: io_outcome.splits)
      have "not_stalled f1" using posix_write_frame [OF w] 0(2) by (simp add: not_stalled_def)
      moreover have "length (drop (nat n) buf) < length buf" if "0 < n" using that False by simp
      ultimately have "write_loop f1 (drop (nat n) buf) \<noteq> None" if "0 < n"
        using less.hyps that by blast
      then show ?thesis using go w by (subst write_loop.simps) auto
    qed simp
  next
    case (Suc d f)
    show ?case
    proof (cases "buf = []")
      case False
      obtain n f1 where w: "posix_write f buf = (n, f1)" by (cases "posix_write f buf")
      have f1: "not_stalled f1" "\<not> retried (p_outcomes f1 (p_calls f1 + d))"
        using posix_write_frame [OF w] Suc.prems by (simp_all add: not_stalled_def)
      have "write_loop f1 buf \<noteq> None" by (rule Suc.IH [OF f1(2,1)])
      moreover have "length (drop (nat n) buf) < length buf" if "0 < n" using that False by simp
      then have "write_loop f1 (drop (nat n) buf) \<noteq> None" if "0 < n"
        using less.hyps f1(1) that by blast
      ultimately show ?thesis using w by (subst write_loop.simps) auto
    qed simp
  qed
qed

text \<open>A descriptor that is never ready keeps the loop from returning.\<close>

lemma write_loop_never:
  assumes "\<And>i. i \<ge> p_calls f \<Longrightarrow> p_outcomes f i = Failed EAGAIN" and "buf \<noteq> []"
  shows "write_loop f buf = None"
proof -
  have "buf \<noteq> [] \<longrightarrow> (\<exists>i \<ge> p_calls f. p_outcomes f i \<noteq> Failed EAGAIN)" if "write_loop f buf = Some r" for r
    using that
  proof (induction f buf r rule: write_loop_induct)
    case (Again f buf n f1 r)
    then show ?case using posix_write_frame [OF Again(2)] by (auto dest: Suc_leD)
  qed (auto simp: posix_write_def Let_def)
  then show ?thesis using assms by (cases "write_loop f buf") auto
qed

text \<open>Short writes and interrupted calls do not lose anything.\<close>

fun transient :: "io_outcome \<Rightarrow> bool" where
  "transient Complete = True"
| "transient (Moved n) = (0 < n)"
| "transient (Failed e) = (e = EAGAIN \<or> e = EINTR)"

lemma write_loop_transient:
  "write_loop f buf = Some r \<Longrightarrow> \<forall>i. transient (p_outcomes f i) \<Longrightarrow> fst r = []"
proof (induction f buf r rule: write_loop_induct)
  case (Failed f buf n f1)
  then have "transient (p_outcomes f (p_calls f))" by blast
  then show ?case
    using Failed(1-5) by (auto simp: posix_write_def Let_def split: io_outcome.splits)
qed (auto dest!: posix_write_frame)

text \<open>
  A stream in good health: its offsets are those of the whole file, the disk has not reported
  \<open>EIO\<close>, and the system calls fail at most for a while. The bound on the offset is that
  of the \<open>int\<close> in which \<open>cdx_write_fd_file\<close> keeps the result of \<open>lseek64\<close>.
\<close>

definition file_ok :: "posix_file \<Rightarrow> bool" where
  "file_ok f \<longleftrightarrow> (\<forall>i. transient (p_outcomes f i)) \<and> not_stalled f"

lemma file_ok_cong: "p_outcomes f = p_outcomes g \<Longrightarrow> file_ok f = file_ok g"
  by (simp add: file_ok_def not_stalled_def)

lemma file_ok_update [simp]: "file_ok (f\<lparr>p_pos := p\<rparr>) = file_ok f" "file_ok (f\<lparr>p_errno := e\<rparr>) = file_ok f"
  "file_ok (f\<lparr>p_data := d\<rparr>) = file_ok f"
  by (simp_all add: file_ok_def not_stalled_def)

definition stream_ok :: "cdx_stream_info \<Rightarrow> bool" where
  "stream_ok s \<longleftrightarrow> fd_offset s = 0 \<and> 0 \<le> cur_offset s \<and> cur_offset s < 2 ^ 32 - 1 \<and>
     writeError s \<noteq> EIO \<and> file_ok (s_file s)"

lemma to_int32_minus_one: "to_int32 x = - 1 \<longleftrightarrow> x mod 2 ^ 32 = 2 ^ 32 - 1"
proof -
  have "to_int32 x = - 1 \<longleftrightarrow> take_bit 32 x = take_bit 32 (- 1 :: int)"
    using signed_take_bit_eq_iff_take_bit_eq [of 31 x "- 1"] by (simp add: to_int32_def)
  also have "take_bit 32 (- 1 :: int) = 2 ^ 32 - 1" by (simp add: mask_eq_exp_minus_1)
  finally show ?thesis by (simp add: take_bit_eq_mod)
qed

text \<open>The bytes that \<open>cdx_write_fd_file\<close> reports are the bytes it wrote.\<close>

lemma cdx_write_bytes:
  assumes "0 \<le> cur_offset s" "fd_offset s \<le> cur_offset s" "cur_offset s mod 2 ^ 32 \<noteq> 2 ^ 32 - 1"
    and "unat n \<le> length ptr" and "not_stalled (s_file s)"
  shows "\<exists>k s'. cdx_write_fd_file s ptr 1 n = Some (int k, s') \<and> k \<le> unat n \<and>
    p_data (s_file s') = file_put (p_data (s_file s)) (nat (cur_offset s)) (take k ptr) \<and>
    cur_offset s' = cur_offset s + int k \<and>
    s' = s\<lparr>s_file := s_file s', cur_offset := cur_offset s'\<rparr> \<and>
    p_outcomes (s_file s') = p_outcomes (s_file s) \<and>
    ((\<forall>i. transient (p_outcomes (s_file s) i)) \<longrightarrow> k = unat n)"
proof -
  let ?buf = "take (unat n) ptr" and ?p = "nat (cur_offset s)"
  let ?f = "(s_file s)\<lparr>p_pos := ?p\<rparr>"
  have "not_stalled ?f" using assms(5) by (simp add: not_stalled_def)
  then obtain left f1 where w: "write_loop ?f ?buf = Some (left, f1)"
    using write_loop_returns [of ?f ?buf] by auto
  then obtain pre where d: "?buf = pre @ left" "p_pos f1 = ?p + length pre"
      "p_data f1 = file_put (p_data (s_file s)) ?p pre" "p_outcomes f1 = p_outcomes (s_file s)"
    using write_loop_file [OF w] by auto
  define s' where
    "s' = s\<lparr>s_file := f1\<lparr>p_pos := ?p + length pre\<rparr>, cur_offset := int ?p + int (length pre)\<rparr>"
  have seek: "lseek64 (s_file s) (cur_offset s) SEEK_SET = (cur_offset s, ?f)"
    using assms(1) by (simp add: lseek64_def Let_def)
  have "length pre + length left = unat n"
    using arg_cong [OF d(1), of length] assms(4) by simp
  then have ln: "length pre \<le> unat n" by simp
  have "take (length pre) ?buf = pre" unfolding d(1) by simp
  then have lt: "take (length pre) ptr = pre" using ln by simp
  have "length ?buf - length left = length pre"
    unfolding d(1) by simp
  then have "cdx_write_fd_file s ptr 1 n = Some (int (length pre), s')"
    unfolding cdx_write_fd_file_def
    using assms w d(2) to_int32_minus_one [of "cur_offset s"] seek
    by (simp add: mem_simps lseek64_def Let_def s'_def)
  moreover have "left = []" if "\<forall>i. transient (p_outcomes (s_file s) i)"
    using write_loop_transient [OF w] that by simp
  ultimately show ?thesis
    using d ln lt assms(1,4) by (intro exI [of _ "length pre"] exI [of _ s']) (auto simp: s'_def)
qed

text \<open>
  The result of \<open>lseek64\<close> is kept in an \<open>int\<close>: at an offset of one byte below a multiple of
  4 GiB the write is refused although the position is fine.
\<close>

lemma cdx_write_refused:
  assumes "cur_offset s mod 2 ^ 32 = 2 ^ 32 - 1" and "0 \<le> cur_offset s"
  shows "cdx_write_fd_file s ptr 1 n =
    Some (- 1, s\<lparr>s_file := (s_file s)\<lparr>p_pos := nat (cur_offset s)\<rparr>\<rparr>)"
  using assms to_int32_minus_one [of "cur_offset s"]
  by (simp add: cdx_write_fd_file_def lseek64_def Let_def)

text \<open>The rest of the outcomes stays, and only a stalled descriptor keeps the call from returning.\<close>

lemma lseek64_frame: "lseek64 f off w = (r, f') \<Longrightarrow> p_outcomes f' = p_outcomes f"
  by (auto simp: lseek64_def Let_def split: if_splits)

lemma cdx_write_frame:
  assumes "cdx_write_fd_file s ptr sz n = Some (r, s')"
  shows "p_outcomes (s_file s') = p_outcomes (s_file s)"
proof -
  obtain r0 f0 where f0: "lseek64 (s_file s) (cur_offset s) SEEK_SET = (r0, f0)"
    by (cases "lseek64 (s_file s) (cur_offset s) SEEK_SET")
  note o0 = lseek64_frame [OF f0]
  show ?thesis
  proof (cases "to_int32 r0 = - 1")
    case True
    then show ?thesis using assms f0 o0 by (auto simp: cdx_write_fd_file_def)
  next
    case False
    then obtain buf left f1 where w: "mem_read ptr 0 (unat (sz * n)) = Some buf" "write_loop f0 buf = Some (left, f1)"
      using assms f0 by (auto simp: cdx_write_fd_file_def bind_eq_Some_conv)
    obtain c f2 where f2: "lseek64 f1 0 SEEK_CUR = (c, f2)" by (cases "lseek64 f1 0 SEEK_CUR")
    have "p_outcomes f2 = p_outcomes (s_file s)"
      using o0 lseek64_frame [OF f2] write_loop_file [OF w(2)] by auto
    then show ?thesis
      using assms f0 False w f2 by (auto simp: cdx_write_fd_file_def Let_def split: if_splits)
  qed
qed

lemma cdx_write_None:
  assumes "cdx_write_fd_file s ptr 1 n = None" "unat n \<le> length ptr"
  shows "\<not> not_stalled (s_file s)"
proof
  assume a: "not_stalled (s_file s)"
  obtain r0 f0 where f0: "lseek64 (s_file s) (cur_offset s) SEEK_SET = (r0, f0)"
    by (cases "lseek64 (s_file s) (cur_offset s) SEEK_SET")
  have "not_stalled f0" using a lseek64_frame [OF f0] by (simp add: not_stalled_def)
  then obtain left f1 where "write_loop f0 (take (unat n) ptr) = Some (left, f1)"
    using write_loop_returns by fastforce
  then show False
    using assms f0 by (auto simp: cdx_write_fd_file_def Let_def mem_simps split: prod.splits if_splits)
qed

section \<open>Properties\<close>

text \<open>
  C26: unless the system calls from some moment on do nothing but report that they could be
  tried again, \<open>cdx_write_fd_file\<close> (with elements of one byte) returns, whatever short counts
  and errors they report. At an offset of one byte below a multiple of 4 GiB it returns -1 and
  leaves the file alone; otherwise the number it reports is the number of leading bytes of the
  buffer that it put into the file at the stream's offset, the offset moves on by that number,
  and if the calls fail only for a while it writes everything.
\<close>

theorem cdx_write_reports_what_it_wrote:
  assumes "0 \<le> cur_offset s" and "fd_offset s \<le> cur_offset s" and "unat n \<le> length ptr"
    and "\<forall>i. \<exists>j \<ge> i. \<not> retried (p_outcomes (s_file s) j)"
  shows "if cur_offset s mod 2 ^ 32 = 2 ^ 32 - 1
    then \<exists>s'. cdx_write_fd_file s ptr 1 n = Some (- 1, s') \<and> p_data (s_file s') = p_data (s_file s) \<and>
      cur_offset s' = cur_offset s
    else \<exists>k s'. cdx_write_fd_file s ptr 1 n = Some (int k, s') \<and> k \<le> unat n \<and>
      p_data (s_file s') = file_put (p_data (s_file s)) (nat (cur_offset s)) (take k ptr) \<and>
      cur_offset s' = cur_offset s + int k \<and>
      ((\<forall>i. transient (p_outcomes (s_file s) i)) \<longrightarrow> k = unat n)"
proof (cases "cur_offset s mod 2 ^ 32 = 2 ^ 32 - 1")
  case True
  then show ?thesis using cdx_write_refused [OF True assms(1), of ptr n] by simp
next
  case False
  have "not_stalled (s_file s)" using assms(4) by (simp add: not_stalled_def)
  from cdx_write_bytes [OF assms(1,2) False assms(3) this] show ?thesis
    unfolding if_not_P [OF False] by blast
qed

definition demo_outcomes :: "io_outcome list \<Rightarrow> nat \<Rightarrow> io_outcome" where
  "demo_outcomes os i = (if i < length os then os ! i else Complete)"

definition demo_stream :: "io_outcome list \<Rightarrow> cdx_stream_info" where
  "demo_stream os =
     \<lparr>s_file = \<lparr>p_data = [1, 2, 3], p_pos = 0, p_errno = 0, p_calls = 0, p_outcomes = demo_outcomes os\<rparr>,
      fd_open = True, fd_offset = 0, cur_offset = 2, fd_length = 0, mIODirectionFlag = True,
      mFileSize = 0, mFileEndOffset = 0, writeError = 0, writeErrcnt = 0, cb_set = True,
      cb_calls = 0\<rparr>"

lemma demo_outcomes_go_on: "\<exists>j \<ge> i. \<not> retried (demo_outcomes os j)"
  by (rule exI [of _ "i + length os"]) (simp add: demo_outcomes_def)

lemma demo_file_ok [simp]:
  "file_ok \<lparr>p_data = d, p_pos = p, p_errno = e, p_calls = k, p_outcomes = demo_outcomes os\<rparr> \<longleftrightarrow>
    list_all transient os"
proof -
  have "(\<forall>i. transient (demo_outcomes os i)) \<longleftrightarrow> list_all transient os"
    by (auto simp: demo_outcomes_def list_all_length)
  then show ?thesis
    using demo_outcomes_go_on [of _ os] by (simp add: file_ok_def not_stalled_def)
qed

theorem cdx_write_reports_what_it_wrote_witness:
  "\<exists>k s'. cdx_write_fd_file (demo_stream [Moved 1, Failed EINTR]) [8, 9] 1 2 = Some (int k, s') \<and>
     p_data (s_file s') = [1, 2, 8, 9]"
proof -
  let ?s = "demo_stream [Moved 1, Failed EINTR]"
  have "0 \<le> cur_offset ?s" "fd_offset ?s \<le> cur_offset ?s" "unat (2 :: u32) \<le> length [8, 9 :: byte]"
    by (simp_all add: demo_stream_def)
  moreover have "\<forall>i. \<exists>j \<ge> i. \<not> retried (p_outcomes (s_file ?s) j)"
    using demo_outcomes_go_on by (simp add: demo_stream_def)
  moreover have "\<forall>i. transient (p_outcomes (s_file ?s) i)"
    using demo_file_ok [of _ _ _ _ "[Moved 1, Failed EINTR]"]
    by (simp add: file_ok_def demo_stream_def EINTR_def)
  moreover have "cur_offset ?s mod 2 ^ 32 \<noteq> 2 ^ 32 - 1" by (simp add: demo_stream_def)
  ultimately show ?thesis
    using cdx_write_reports_what_it_wrote [of ?s 2 "[8, 9]"]
    by (auto simp: demo_stream_def file_put_def)
qed

text \<open>A stream that is never ready: the call does not return.\<close>

lemma cdx_write_never_returns:
  assumes "0 \<le> cur_offset s" "cur_offset s mod 2 ^ 32 \<noteq> 2 ^ 32 - 1" "0 < unat n" "unat n \<le> length ptr"
    and "\<And>i. i \<ge> p_calls (s_file s) \<Longrightarrow> p_outcomes (s_file s) i = Failed EAGAIN"
  shows "cdx_write_fd_file s ptr 1 n = None"
proof -
  have "write_loop ((s_file s)\<lparr>p_pos := nat (cur_offset s)\<rparr>) (take (unat n) ptr) = None"
    by (rule write_loop_never) (use assms in auto)
  then show ?thesis
    using assms to_int32_minus_one [of "cur_offset s"]
    by (simp add: cdx_write_fd_file_def lseek64_def mem_simps Let_def)
qed

end
