(* ===== verification/FsWriter.thy ===== *)
theory FsWriter
  imports StreamFile
begin

text \<open>
  The file system writers of libFsWriter: \<open>fileWriter\<close> with its error bookkeeping, the direct
  writer (FsWriteDirect.c), the writer with a cache (FsSimpleCache.c), the choice between them
  (FsWriter.c), and the contract \<open>fs_writer\<close> that the muxers rely on: what is written goes to
  a logical file at a logical position, and a flush brings the stream's file up to it. The
  writer with a thread (FsCache.c) has a theory of its own.
\<close>

section \<open>Logical files\<close>

type_synonym filepos = "byte list \<times> nat"

definition fput :: "filepos \<Rightarrow> byte list \<Rightarrow> filepos" where
  "fput v xs = (file_put (fst v) (snd v) xs, snd v + length xs)"

lemma fput_Nil [simp]: "fput v [] = v"
  by (simp add: fput_def)

lemma fput_append: "fput (fput v xs) ys = fput v (xs @ ys)"
  by (simp add: fput_def file_put_append add.assoc)

lemma snd_fput [simp]: "snd (fput v xs) = snd v + length xs"
  by (simp add: fput_def)

text \<open>No writer is asked to go beyond this offset.\<close>

definition max_offset :: nat where "max_offset = 2 ^ 32 - 1"

section \<open>fileWriter\<close>

definition fileWriter ::
  "cdx_stream_info \<Rightarrow> byte list \<Rightarrow> u32 \<Rightarrow> (int \<times> cdx_stream_info) option" where
  "fileWriter s buffer sz =
     (if writeError s = EIO then Some (- EIO, s)
      else do {
        (totalWriten, s1) \<leftarrow> cdx_write_fd_file s buffer 1 sz;
        if (word_of_int totalWriten :: u32) \<noteq> sz
        then
          let s2 = s1\<lparr>writeError := p_errno (s_file s1)\<rparr>;
              s3 = s2\<lparr>writeErrcnt := writeErrcnt s2 + 1\<rparr>
          in Some (totalWriten,
                   if (writeErrcnt s2 > 10 \<or> writeError s3 = EIO) \<and> cb_set s3
                   then s3\<lparr>cb_calls := cb_calls s3 + 1\<rparr> else s3)
        else Some (totalWriten, if writeErrcnt s1 \<noteq> 0 then s1\<lparr>writeErrcnt := 0\<rparr> else s1)
      })"

definition stream_view :: "cdx_stream_info \<Rightarrow> filepos" where
  "stream_view s = (p_data (s_file s), nat (cur_offset s))"

lemma fileWriter_ok:
  assumes ok: "stream_ok s" and fit: "unat n \<le> length buf"
    and pos: "snd (stream_view s) + unat n < max_offset"
  obtains s' where "fileWriter s buf n = Some (int (unat n), s')" "stream_ok s'"
    "stream_view s' = fput (stream_view s) (take (unat n) buf)"
proof -
  have "cur_offset s mod 2 ^ 32 = cur_offset s" "cur_offset s < 2 ^ 32 - 1"
    using ok by (auto simp: stream_ok_def)
  then have c: "cur_offset s mod 2 ^ 32 \<noteq> 2 ^ 32 - 1" by simp
  have pre: "fd_offset s = 0" "0 \<le> cur_offset s" "fd_offset s \<le> cur_offset s" "file_ok (s_file s)"
    "writeError s \<noteq> EIO" "not_stalled (s_file s)"
    using ok by (simp_all add: stream_ok_def file_ok_def)
  obtain s1 where w: "cdx_write_fd_file s buf 1 n = Some (int (unat n), s1)"
    "p_data (s_file s1) = file_put (p_data (s_file s)) (nat (cur_offset s)) (take (unat n) buf)"
    "cur_offset s1 = cur_offset s + int (unat n)"
    "s1 = s\<lparr>s_file := s_file s1, cur_offset := cur_offset s1\<rparr>"
    "p_outcomes (s_file s1) = p_outcomes (s_file s)"
    using cdx_write_bytes [OF pre(2,3) c fit pre(6)] pre(4) by (auto simp: file_ok_def)
  define s' where "s' = (if writeErrcnt s1 \<noteq> 0 then s1\<lparr>writeErrcnt := 0\<rparr> else s1)"
  have f: "fileWriter s buf n = Some (int (unat n), s')"
    using w(1) pre(5) by (simp add: fileWriter_def s'_def)
  have e: "fd_offset s1 = fd_offset s" "writeError s1 = writeError s"
    by (subst w(4); simp)+
  have "nat (cur_offset s) + unat n < 4294967295"
    using pos by (simp add: stream_view_def max_offset_def)
  then have "cur_offset s + int (unat n) < 4294967295" using pre(2) by linarith
  then have pos': "cur_offset s1 < 2 ^ 32 - 1" unfolding w(3) by simp
  have "stream_ok s'"
    using pre w(3) e pos' file_ok_cong [OF w(5)] by (auto simp: stream_ok_def s'_def)
  moreover have "stream_view s' = fput (stream_view s) (take (unat n) buf)"
    using w(2,3) pre(2) fit by (auto simp: stream_view_def s'_def fput_def nat_add_distrib)
  ultimately show ?thesis using that f by blast
qed

lemma fileWriter_frame:
  assumes "fileWriter s buf n = Some (r, s')"
  shows "p_outcomes (s_file s') = p_outcomes (s_file s)"
proof (cases "cdx_write_fd_file s buf 1 n")
  case (Some w)
  then show ?thesis
    using assms cdx_write_frame [of s buf 1 n "fst w" "snd w"]
    by (cases w) (auto simp: fileWriter_def Let_def split: if_splits)
qed (use assms in \<open>auto simp: fileWriter_def split: if_splits\<close>)

lemma fileWriter_None:
  assumes "fileWriter s buf n = None" "unat n \<le> length buf"
  shows "\<not> not_stalled (s_file s)"
proof (cases "cdx_write_fd_file s buf 1 n")
  case (Some w)
  then show ?thesis using assms by (cases w) (auto simp: fileWriter_def Let_def split: if_splits)
qed (use cdx_write_None [OF _ assms(2)] in blast)

section \<open>The contract of a writer\<close>

text \<open>The calls a muxer makes, and what they do to the logical file.\<close>

datatype fsop = FsWrite "byte list" | FsSeek nat | FsFlush

fun fs_view :: "fsop list \<Rightarrow> filepos \<Rightarrow> filepos" where
  "fs_view [] v = v"
| "fs_view (FsWrite xs # ops) v = fs_view ops (fput v xs)"
| "fs_view (FsSeek p # ops) v = fs_view ops (fst v, p)"
| "fs_view (FsFlush # ops) v = fs_view ops v"

fun fs_fits :: "fsop list \<Rightarrow> nat \<Rightarrow> bool" where
  "fs_fits [] p = True"
| "fs_fits (FsWrite xs # ops) p \<longleftrightarrow> p + length xs < max_offset \<and> fs_fits ops (p + length xs)"
| "fs_fits (FsSeek q # ops) p \<longleftrightarrow> q < max_offset \<and> fs_fits ops q"
| "fs_fits (FsFlush # ops) p \<longleftrightarrow> fs_fits ops p"

lemma fs_view_append: "fs_view (xs @ ys) v = fs_view ys (fs_view xs v)"
  by (induction xs v rule: fs_view.induct) simp_all

lemma fs_view_writes: "fs_view (map FsWrite cs) v = fput v (concat cs)"
  by (induction cs arbitrary: v) (simp_all add: fput_append)

lemma fs_fits_append: "fs_fits (xs @ ys) p \<longleftrightarrow> fs_fits xs p \<and> fs_fits ys (snd (fs_view xs (d, p)))"
  by (induction xs p arbitrary: d rule: fs_fits.induct) (auto simp: fput_def)

lemma fs_fits_writes: "p < max_offset \<Longrightarrow> fs_fits (map FsWrite cs) p \<longleftrightarrow> p + length (concat cs) < max_offset"
proof (induction cs arbitrary: p)
  case (Cons c cs)
  then show ?case by (cases "p + length c < max_offset") (auto simp: add.assoc)
qed simp

lemma fs_fits_writes_append:
  "p < max_offset \<Longrightarrow> fs_fits (map FsWrite cs @ ops) p \<longleftrightarrow>
    p + length (concat cs) < max_offset \<and> fs_fits ops (p + length (concat cs))"
  using fs_fits_append [of "map FsWrite cs" ops p "[]"] by (simp add: fs_fits_writes fs_view_writes fput_def)

locale fs_writer =
  fixes inv :: "'w \<Rightarrow> bool"
    and view :: "'w \<Rightarrow> filepos"
    and disk :: "'w \<Rightarrow> filepos"
    and fsWrite :: "'w \<Rightarrow> byte list \<Rightarrow> 'w"
    and fsFlush :: "'w \<Rightarrow> 'w"
    and fsSeek :: "'w \<Rightarrow> nat \<Rightarrow> 'w"
  assumes write_ok:
      "inv w \<Longrightarrow> snd (view w) + length xs < max_offset \<Longrightarrow>
        inv (fsWrite w xs) \<and> view (fsWrite w xs) = fput (view w) xs"
    and flush_ok: "inv w \<Longrightarrow> inv (fsFlush w) \<and> view (fsFlush w) = view w \<and> disk (fsFlush w) = view w"
    and seek_ok:
      "inv w \<Longrightarrow> p < max_offset \<Longrightarrow> inv (fsSeek w p) \<and> view (fsSeek w p) = (fst (view w), p)"
begin

text \<open>However a client cuts its output into calls, the file is the concatenation.\<close>

lemma fold_write:
  "inv w \<Longrightarrow> snd (view w) + length (concat xss) < max_offset \<Longrightarrow>
    inv (fold (\<lambda>xs w. fsWrite w xs) xss w) \<and>
    view (fold (\<lambda>xs w. fsWrite w xs) xss w) = fput (view w) (concat xss)"
proof (induction xss arbitrary: w)
  case Nil
  then show ?case by simp
next
  case (Cons xs xss)
  then have "inv (fsWrite w xs) \<and> view (fsWrite w xs) = fput (view w) xs"
    using write_ok [of w xs] by simp
  with Cons show ?case by (simp add: fput_append)
qed

lemma fold_write_flush:
  "inv w \<Longrightarrow> snd (view w) + length (concat xss) < max_offset \<Longrightarrow>
    disk (fsFlush (fold (\<lambda>xs w. fsWrite w xs) xss w)) = fput (view w) (concat xss)"
  using fold_write flush_ok by metis

text \<open>Any sequence of calls does to the file what it does to the logical file.\<close>

fun run_ops :: "fsop list \<Rightarrow> 'w \<Rightarrow> 'w" where
  "run_ops [] w = w"
| "run_ops (FsWrite xs # ops) w = run_ops ops (fsWrite w xs)"
| "run_ops (FsSeek p # ops) w = run_ops ops (fsSeek w p)"
| "run_ops (FsFlush # ops) w = run_ops ops (fsFlush w)"

lemma run_ops_view:
  "inv w \<Longrightarrow> fs_fits ops (snd (view w)) \<Longrightarrow>
    inv (run_ops ops w) \<and> view (run_ops ops w) = fs_view ops (view w)"
proof (induction ops w rule: run_ops.induct)
  case (2 xs ops w)
  then show ?case using write_ok [of w xs] by simp
next
  case (3 p ops w)
  then show ?case using seek_ok [of w p] by simp
next
  case (4 ops w)
  then show ?case using flush_ok [of w] by simp
qed simp

lemma run_ops_append: "run_ops (xs @ ys) w = run_ops ys (run_ops xs w)"
  by (induction xs w rule: run_ops.induct) simp_all

lemma run_ops_flush:
  "inv w \<Longrightarrow> fs_fits ops (snd (view w)) \<Longrightarrow> disk (run_ops (ops @ [FsFlush]) w) = fs_view ops (view w)"
  using run_ops_view [of w ops] flush_ok [of "run_ops ops w"] by (simp add: run_ops_append)

text \<open>Going back, patching a field that is already in the file, and flushing.\<close>

lemma write_patch:
  assumes "inv w" "p + length xs < max_offset"
  shows "disk (fsFlush (fsWrite (fsSeek w p) xs)) = fput (fst (view w), p) xs"
proof -
  have "p < max_offset" using assms(2) by simp
  then have "inv (fsSeek w p)" "view (fsSeek w p) = (fst (view w), p)"
    using seek_ok assms(1) by blast+
  then show ?thesis using write_ok [of "fsSeek w p" xs] flush_ok assms(2) by simp
qed

end

section \<open>The direct writer\<close>

definition FsDirectWrite ::
  "cdx_stream_info \<Rightarrow> byte list \<Rightarrow> u32 \<Rightarrow> (int \<times> cdx_stream_info) option" where
  "FsDirectWrite s buf sz = fileWriter s buf sz"

definition FsDirectFlush :: "cdx_stream_info \<Rightarrow> int \<times> cdx_stream_info" where
  "FsDirectFlush s = (0, s)"

definition FsDirectSeek :: "cdx_stream_info \<Rightarrow> int \<Rightarrow> whence \<Rightarrow> int \<times> cdx_stream_info" where
  "FsDirectSeek s off w = cdx_seek_fd_file (snd (FsDirectFlush s)) off w"

definition FsDirectTell :: "cdx_stream_info \<Rightarrow> int \<times> cdx_stream_info" where
  "FsDirectTell s = (let s' = snd (FsDirectFlush s) in (cdx_tell_fd_file s', s'))"

definition FsDirectTruncate :: "cdx_stream_info \<Rightarrow> int \<Rightarrow> int \<times> cdx_stream_info" where
  "FsDirectTruncate s len = cdx_truncate_fd_file (snd (FsDirectFlush s)) len"

definition initFsDirectWrite :: "bool \<Rightarrow> bool \<Rightarrow> cdx_stream_info \<Rightarrow> cdx_stream_info option" where
  "initFsDirectWrite m1 m2 s = (if \<not> m1 then None else if \<not> m2 then None else Some s)"

lemma cdx_seek_set:
  assumes "stream_ok s" "p < max_offset"
  obtains s' where "cdx_seek_fd_file s (int p) SEEK_SET = (0, s')" "stream_ok s'"
    "stream_view s' = (fst (stream_view s), p)"
proof
  let ?s' = "s\<lparr>s_file := (s_file s)\<lparr>p_pos := p\<rparr>, cur_offset := int p\<rparr>"
  show "cdx_seek_fd_file s (int p) SEEK_SET = (0, ?s')"
    using assms by (simp add: cdx_seek_fd_file_def lseek64_def Let_def stream_ok_def)
  show "stream_ok ?s'" using assms by (simp add: stream_ok_def max_offset_def)
  show "stream_view ?s' = (fst (stream_view s), p)" by (simp add: stream_view_def)
qed

definition direct_write :: "cdx_stream_info \<Rightarrow> byte list \<Rightarrow> cdx_stream_info" where
  "direct_write s xs =
     (case FsDirectWrite s xs (of_nat (length xs)) of Some (_, s') \<Rightarrow> s' | None \<Rightarrow> s)"

definition direct_flush :: "cdx_stream_info \<Rightarrow> cdx_stream_info" where
  "direct_flush s = snd (FsDirectFlush s)"

definition direct_seek :: "cdx_stream_info \<Rightarrow> nat \<Rightarrow> cdx_stream_info" where
  "direct_seek s p = snd (FsDirectSeek s (int p) SEEK_SET)"

lemma unat_of_nat_max: "n < max_offset \<Longrightarrow> unat (of_nat n :: u32) = n"
  by (simp add: unat_of_nat max_offset_def)

interpretation fs_direct:
  fs_writer stream_ok stream_view stream_view direct_write direct_flush direct_seek
proof unfold_locales
  fix s and xs :: "byte list"
  assume ok: "stream_ok s" and pos: "snd (stream_view s) + length xs < max_offset"
  then have u: "unat (of_nat (length xs) :: u32) = length xs" by (simp add: unat_of_nat_max)
  obtain s' where "fileWriter s xs (of_nat (length xs)) =
      Some (int (unat (of_nat (length xs) :: u32)), s')"
    "stream_ok s'" "stream_view s' = fput (stream_view s) xs"
    by (rule fileWriter_ok [OF ok, of "of_nat (length xs)" xs]) (use u pos in simp_all)
  then show "stream_ok (direct_write s xs) \<and>
      stream_view (direct_write s xs) = fput (stream_view s) xs"
    by (simp add: direct_write_def FsDirectWrite_def)
next
  fix s p
  assume "stream_ok s" "p < max_offset"
  then obtain s' where "cdx_seek_fd_file s (int p) SEEK_SET = (0, s')" "stream_ok s'"
    "stream_view s' = (fst (stream_view s), p)"
    by (rule cdx_seek_set)
  then show "stream_ok (direct_seek s p) \<and>
      stream_view (direct_seek s p) = (fst (stream_view s), p)"
    by (simp add: direct_seek_def FsDirectSeek_def FsDirectFlush_def)
qed (simp_all add: direct_flush_def FsDirectFlush_def)

section \<open>The writer with a cache\<close>

record fs_simple_cache =
  sc_stream :: cdx_stream_info
  sc_cache :: "byte list"
  mCacheSize :: u32
  mValidLen :: u32

text \<open>
  \<open>FsSimpleCacheWrite\<close> in two parts. The first fills the cache and writes it out when it is
  full; it tells whether the function has returned, and else how much of the input is left.
\<close>

definition sc_fill ::
  "fs_simple_cache \<Rightarrow> byte list \<Rightarrow> u32 \<Rightarrow> (bool \<times> u32 \<times> fs_simple_cache) option" where
  "sc_fill c b sz =
     (if mValidLen c > 0 then
        if mValidLen c + sz \<le> mCacheSize c
        then do {
          xs \<leftarrow> mem_read b 0 (unat sz);
          m \<leftarrow> mem_write (sc_cache c) (unat (mValidLen c)) xs;
          let c1 = c\<lparr>sc_cache := m, mValidLen := mValidLen c + sz\<rparr>;
          c2 \<leftarrow> (if mValidLen c1 = mCacheSize c1
                then do {
                  (_, s) \<leftarrow> fileWriter (sc_stream c1) (sc_cache c1) (mCacheSize c1);
                  Some (c1\<lparr>sc_stream := s, mValidLen := 0\<rparr>)
                }
                else Some c1);
          Some (True, 0, c2)
        }
        else do {
          let nSize0 = mCacheSize c - mValidLen c;
          xs \<leftarrow> mem_read b 0 (unat nSize0);
          m \<leftarrow> mem_write (sc_cache c) (unat (mValidLen c)) xs;
          (_, s) \<leftarrow> fileWriter (sc_stream c) m (mCacheSize c);
          Some (False, sz - nSize0, c\<lparr>sc_stream := s, sc_cache := m, mValidLen := 0\<rparr>)
        }
      else Some (False, sz, c))"

text \<open>The second writes whole multiples of the cache size directly and caches the rest.\<close>

definition sc_rest :: "fs_simple_cache \<Rightarrow> byte list \<Rightarrow> u32 \<Rightarrow> u32 \<Rightarrow> fs_simple_cache option" where
  "sc_rest c b sz nLeftSize =
     do {
       (c1, left) \<leftarrow>
         (if nLeftSize \<ge> mCacheSize c
          then do {
            let nWriteSize = (nLeftSize div mCacheSize c) * mCacheSize c;
            xs \<leftarrow> mem_read b (unat (sz - nLeftSize)) (unat nWriteSize);
            (_, s) \<leftarrow> fileWriter (sc_stream c) xs nWriteSize;
            Some (c\<lparr>sc_stream := s\<rparr>, nLeftSize - nWriteSize)
          }
          else Some (c, nLeftSize));
       (if left > 0
        then do {
          xs \<leftarrow> mem_read b (unat (sz - left)) (unat left);
          m \<leftarrow> mem_write (sc_cache c1) 0 xs;
          Some (c1\<lparr>sc_cache := m, mValidLen := left\<rparr>)
        }
        else Some c1)
     }"

definition FsSimpleCacheWrite ::
  "fs_simple_cache \<Rightarrow> byte list option \<Rightarrow> u32 \<Rightarrow> (int \<times> fs_simple_cache) option" where
  "FsSimpleCacheWrite c buf sz =
     (case buf of
        None \<Rightarrow> Some (- 1, c)
      | Some b \<Rightarrow>
          if sz = 0 then Some (- 1, c)
          else if mValidLen c \<ge> mCacheSize c then Some (- 1, c)
          else do {
            (returned, nLeftSize, c1) \<leftarrow> sc_fill c b sz;
            if returned then Some (to_int32 (uint sz), c1)
            else do { c2 \<leftarrow> sc_rest c1 b sz nLeftSize; Some (to_int32 (uint sz), c2) }
          })"

definition FsSimpleCacheFlush :: "fs_simple_cache \<Rightarrow> (int \<times> fs_simple_cache) option" where
  "FsSimpleCacheFlush c =
     (if mValidLen c > 0
      then do {
        (_, s) \<leftarrow> fileWriter (sc_stream c) (sc_cache c) (mValidLen c);
        Some (0, c\<lparr>sc_stream := s, mValidLen := 0\<rparr>)
      }
      else Some (0, c))"

definition FsSimpleCacheSeek ::
  "fs_simple_cache \<Rightarrow> int \<Rightarrow> whence \<Rightarrow> (int \<times> fs_simple_cache) option" where
  "FsSimpleCacheSeek c off w =
     do {
       (_, c1) \<leftarrow> FsSimpleCacheFlush c;
       let (r, s) = cdx_seek_fd_file (sc_stream c1) off w;
       Some (r, c1\<lparr>sc_stream := s\<rparr>)
     }"

definition FsSimpleCacheTell :: "fs_simple_cache \<Rightarrow> (int \<times> fs_simple_cache) option" where
  "FsSimpleCacheTell c =
     do { (_, c1) \<leftarrow> FsSimpleCacheFlush c; Some (cdx_tell_fd_file (sc_stream c1), c1) }"

definition FsSimpleCacheTruncate :: "fs_simple_cache \<Rightarrow> int \<Rightarrow> (int \<times> fs_simple_cache) option"
where
  "FsSimpleCacheTruncate c len =
     do {
       (_, c1) \<leftarrow> FsSimpleCacheFlush c;
       let (r, s) = cdx_truncate_fd_file (sc_stream c1) len;
       Some (r, c1\<lparr>sc_stream := s\<rparr>)
     }"

text \<open>
  \<open>initFsSimpleCache\<close> and \<open>deinitFsSimpleCache\<close>: the flags say which of the three allocations
  succeed, \<open>junk\<close> is what the allocated cache holds; the result of the latter is the stream.
\<close>

definition initFsSimpleCache ::
  "bool \<Rightarrow> bool \<Rightarrow> bool \<Rightarrow> byte list \<Rightarrow> cdx_stream_info \<Rightarrow> int \<Rightarrow> fs_simple_cache option" where
  "initFsSimpleCache m1 m2 m3 junk s nCacheSize =
     (if nCacheSize \<le> 0 then None
      else if \<not> m1 \<or> \<not> m2 \<or> \<not> m3 then None
      else Some \<lparr>sc_stream = s, sc_cache = junk, mCacheSize = word_of_int nCacheSize,
                 mValidLen = 0\<rparr>)"

definition deinitFsSimpleCache :: "fs_simple_cache \<Rightarrow> (int \<times> cdx_stream_info) option" where
  "deinitFsSimpleCache c = do { (_, c1) \<leftarrow> FsSimpleCacheFlush c; Some (0, sc_stream c1) }"

definition sc_inv :: "fs_simple_cache \<Rightarrow> bool" where
  "sc_inv c \<longleftrightarrow> stream_ok (sc_stream c) \<and> length (sc_cache c) = unat (mCacheSize c) \<and>
     unat (mCacheSize c) < 2 ^ 31 \<and> unat (mValidLen c) < unat (mCacheSize c) \<and>
     snd (stream_view (sc_stream c)) + unat (mValidLen c) < max_offset"

definition sc_view :: "fs_simple_cache \<Rightarrow> filepos" where
  "sc_view c = fput (stream_view (sc_stream c)) (take (unat (mValidLen c)) (sc_cache c))"

definition sc_disk :: "fs_simple_cache \<Rightarrow> filepos" where
  "sc_disk c = stream_view (sc_stream c)"

lemma snd_sc_view:
  "sc_inv c \<Longrightarrow> snd (sc_view c) = snd (stream_view (sc_stream c)) + unat (mValidLen c)"
  by (simp add: sc_view_def sc_inv_def)

lemma FsSimpleCacheFlush_ok:
  assumes "sc_inv c"
  obtains c' where "FsSimpleCacheFlush c = Some (0, c')" "sc_inv c'" "mValidLen c' = 0"
    "sc_view c' = sc_view c" "sc_disk c' = sc_view c" "mCacheSize c' = mCacheSize c"
proof (cases "mValidLen c > 0")
  case True
  have inv: "stream_ok (sc_stream c)" "unat (mValidLen c) \<le> length (sc_cache c)"
    "snd (stream_view (sc_stream c)) + unat (mValidLen c) < max_offset"
    using assms by (simp_all add: sc_inv_def)
  obtain s' where "fileWriter (sc_stream c) (sc_cache c) (mValidLen c) =
      Some (int (unat (mValidLen c)), s')" "stream_ok s'"
    "stream_view s' =
      fput (stream_view (sc_stream c)) (take (unat (mValidLen c)) (sc_cache c))"
    using fileWriter_ok [OF inv] .
  then show ?thesis
    using that [of "c\<lparr>sc_stream := s', mValidLen := 0\<rparr>"] True assms
    by (simp add: FsSimpleCacheFlush_def sc_inv_def sc_view_def sc_disk_def)
next
  case False
  then have "mValidLen c = 0" by (simp add: word_gt_0)
  then show ?thesis
    using that [of c] assms by (simp add: FsSimpleCacheFlush_def sc_view_def sc_disk_def)
qed

text \<open>Appending to the valid part of the cache, and writing out a full cache.\<close>

lemma sc_append:
  assumes inv: "sc_inv c" and k: "unat (mValidLen c) + length xs \<le> unat (mCacheSize c)"
  defines "m \<equiv> mem_put (sc_cache c) (unat (mValidLen c)) xs"
  shows "length m = unat (mCacheSize c)"
    "take (unat (mValidLen c) + length xs) m = take (unat (mValidLen c)) (sc_cache c) @ xs"
  using assms by (simp_all add: sc_inv_def mem_put_def)

lemma sc_write_out:
  assumes inv: "sc_inv c" and m: "length m = unat (mCacheSize c)"
    "m = take (unat (mValidLen c)) (sc_cache c) @ xs"
    and pos: "snd (sc_view c) + length xs < max_offset"
  obtains s' where "fileWriter (sc_stream c) m (mCacheSize c) = Some (int (unat (mCacheSize c)), s')"
    "stream_ok s'" "stream_view s' = fput (sc_view c) xs"
proof -
  have "unat (mCacheSize c) = unat (mValidLen c) + length xs"
    using m inv by (simp add: sc_inv_def)
  then have "stream_ok (sc_stream c)" "unat (mCacheSize c) \<le> length m"
    "snd (stream_view (sc_stream c)) + unat (mCacheSize c) < max_offset"
    using pos inv m snd_sc_view [OF inv] by (simp_all add: sc_inv_def)
  from fileWriter_ok [OF this] obtain s' where
    s': "fileWriter (sc_stream c) m (mCacheSize c) = Some (int (unat (mCacheSize c)), s')"
    "stream_ok s'" "stream_view s' = fput (stream_view (sc_stream c)) (take (unat (mCacheSize c)) m)" .
  have "take (unat (mCacheSize c)) m = m" using m(1) by simp
  then have "stream_view s' = fput (sc_view c) xs"
    using s'(3) m(2) by (simp add: sc_view_def fput_append)
  with s' that show ?thesis by blast
qed

lemma sc_fill_ok:
  assumes inv: "sc_inv c" and b: "length b = unat sz" "0 < unat sz"
    and pos: "snd (sc_view c) + unat sz < max_offset"
  obtains (stored) c1 where "sc_fill c b sz = Some (True, 0, c1)" "sc_inv c1"
      "sc_view c1 = fput (sc_view c) b"
    | (rest) n c1 where "sc_fill c b sz = Some (False, n, c1)" "sc_inv c1" "mValidLen c1 = 0"
      "unat n \<le> unat sz" "sc_view c1 = fput (sc_view c) (take (unat sz - unat n) b)"
proof (cases "mValidLen c > 0")
  case False
  then have "mValidLen c = 0" by (simp add: word_gt_0)
  then show ?thesis using rest [of sz c] inv by (simp add: sc_fill_def)
next
  case pos_valid: True
  let ?v = "unat (mValidLen c)" and ?n = "unat (mCacheSize c)"
  have lt: "?v < ?n" "?n < 2 ^ 31" "length (sc_cache c) = ?n" using inv by (simp_all add: sc_inv_def)
  have sum: "unat (mValidLen c + sz) = ?v + unat sz"
    using pos snd_sc_view [OF inv] by (intro unat_plus_no_overflow) (simp add: max_offset_def)
  have pos': "snd (stream_view (sc_stream c)) + ?v + unat sz < max_offset"
    using pos snd_sc_view [OF inv] by simp
  show ?thesis
  proof (cases "mValidLen c + sz \<le> mCacheSize c")
    case fits: True
    then have k: "?v + length b \<le> ?n" using sum b by (simp add: word_le_nat_alt)
    let ?m = "mem_put (sc_cache c) ?v b"
    note ap = sc_append [OF inv k]
    show ?thesis
    proof (cases "mValidLen c + sz = mCacheSize c")
      case full: True
      then have n: "?n = ?v + length b" using sum b by metis
      have "take (?v + length b) ?m = ?m" using ap(1) n by simp
      then have m: "?m = take ?v (sc_cache c) @ b" using ap(2) by simp
      have "snd (sc_view c) + length b < max_offset" using pos b by simp
      from sc_write_out [OF inv ap(1) m this] obtain s' where
        "fileWriter (sc_stream c) ?m (mCacheSize c) = Some (int ?n, s')"
        "stream_ok s'" "stream_view s' = fput (sc_view c) b" .
      then show ?thesis
        using stored [of "c\<lparr>sc_cache := ?m, sc_stream := s', mValidLen := 0\<rparr>"] pos_valid fits full
          k b lt ap(1) pos
        by (cases c) (simp add: sc_fill_def sc_inv_def sc_view_def mem_simps)
    next
      case False
      have "?v + unat sz \<noteq> ?n" using False sum by (metis word_unat_eq_iff)
      then have "sc_inv (c\<lparr>sc_cache := ?m, mValidLen := mValidLen c + sz\<rparr>)"
        using inv k b ap(1) pos' sum by (simp add: sc_inv_def)
      then show ?thesis
        using stored [of "c\<lparr>sc_cache := ?m, mValidLen := mValidLen c + sz\<rparr>"] pos_valid fits False
          k b lt ap sum
        by (simp add: sc_fill_def sc_view_def mem_simps fput_append)
    qed
  next
    case over: False
    let ?k = "?n - ?v" and ?xs = "take (?n - ?v) b"
    have u0: "unat (mCacheSize c - mValidLen c) = ?k" using lt by (simp add: unat_minus_le)
    have gt: "?k < unat sz" using over sum lt by (simp add: word_le_nat_alt)
    have u1: "unat (sz - (mCacheSize c - mValidLen c)) = unat sz - ?k"
      using gt u0 by (subst unat_minus_le) simp_all
    have k: "?v + length ?xs \<le> ?n" using gt b lt by simp
    let ?m = "mem_put (sc_cache c) ?v ?xs"
    note ap = sc_append [OF inv k]
    have "take (?v + length ?xs) ?m = ?m" using ap(1) gt b lt by simp
    then have m: "?m = take ?v (sc_cache c) @ ?xs" using ap(2) by simp
    have "snd (sc_view c) + length ?xs < max_offset" using pos b gt by simp
    from sc_write_out [OF inv ap(1) m this] obtain s' where
      "fileWriter (sc_stream c) ?m (mCacheSize c) = Some (int ?n, s')"
      "stream_ok s'" "stream_view s' = fput (sc_view c) ?xs" .
    then show ?thesis
      using rest [of "sz - (mCacheSize c - mValidLen c)"
          "c\<lparr>sc_stream := s', sc_cache := ?m, mValidLen := 0\<rparr>"]
        pos_valid over k b lt ap(1) pos u0 u1 gt
      by (simp add: sc_fill_def sc_inv_def sc_view_def mem_simps)
  qed
qed

lemma sc_rest_ok:
  assumes inv: "sc_inv c" and v0: "mValidLen c = 0" and b: "length b = unat sz"
    and n: "unat n \<le> unat sz" and pos: "snd (sc_view c) + unat n < max_offset"
  obtains c2 where "sc_rest c b sz n = Some c2" "sc_inv c2"
    "sc_view c2 = fput (sc_view c) (drop (unat sz - unat n) b)"
proof -
  let ?N = "unat (mCacheSize c)"
  have N: "0 < ?N" "?N < 2 ^ 31" "length (sc_cache c) = ?N"
    using inv by (auto simp: sc_inv_def)
  have d0: "unat (sz - n) = unat sz - unat n" using n by (simp add: unat_minus_le)
  have view0: "sc_view c = stream_view (sc_stream c)" using v0 by (simp add: sc_view_def)
  text \<open>The direct write of whole multiples.\<close>
  obtain c1 m where c1: "(if n \<ge> mCacheSize c
          then do {
            let nWriteSize = (n div mCacheSize c) * mCacheSize c;
            xs \<leftarrow> mem_read b (unat (sz - n)) (unat nWriteSize);
            (_, s) \<leftarrow> fileWriter (sc_stream c) xs nWriteSize;
            Some (c\<lparr>sc_stream := s\<rparr>, n - nWriteSize)
          }
          else Some (c, n)) = Some (c1, m)"
    and i1: "sc_inv c1" "mValidLen c1 = 0" "mCacheSize c1 = mCacheSize c" "unat m < ?N"
      "unat m \<le> unat n"
    and v1: "sc_view c1 = fput (sc_view c) (take (unat n - unat m) (drop (unat sz - unat n) b))"
  proof (cases "n \<ge> mCacheSize c")
    case True
    let ?w = "(n div mCacheSize c) * mCacheSize c"
    have le: "unat n div ?N * ?N \<le> unat n" by simp
    have w: "unat ?w = unat n div ?N * ?N"
      using le_less_trans [OF le u32_less]
      by (subst unat_mult_no_overflow) (simp_all add: unat_div)
    have lw: "unat ?w \<le> unat n" unfolding w by simp
    have m: "unat (n - ?w) = unat n - unat ?w"
      by (rule unat_minus_le [OF lw])
    have "unat n - unat ?w = unat n mod ?N" using w by (simp add: minus_div_mult_eq_mod)
    then have mlt: "unat n - unat ?w < ?N" using N by simp
    let ?xs = "take (unat ?w) (drop (unat sz - unat n) b)"
    have fit: "unat ?w \<le> length ?xs" using lw n b by simp
    have "stream_ok (sc_stream c)" "snd (stream_view (sc_stream c)) + unat ?w < max_offset"
      using inv pos lw by (simp_all add: sc_inv_def view0)
    from fileWriter_ok [OF this(1) fit this(2)] obtain s' where s':
      "fileWriter (sc_stream c) ?xs ?w = Some (int (unat ?w), s')" "stream_ok s'"
      "stream_view s' = fput (stream_view (sc_stream c)) (take (unat ?w) ?xs)" .
    have "snd (stream_view s') < max_offset"
      using s'(3) pos lw fit by (simp add: view0)
    then have "sc_inv (c\<lparr>sc_stream := s'\<rparr>)" using inv s'(2) v0 by (simp add: sc_inv_def)
    moreover have "sc_view (c\<lparr>sc_stream := s'\<rparr>) = fput (sc_view c) ?xs"
      using s'(3) v0 by (simp add: sc_view_def)
    ultimately show ?thesis
      using that [of "c\<lparr>sc_stream := s'\<rparr>" "n - ?w"] True s'(1) n b d0 m mlt v0 lw
      by (simp add: mem_simps)
  next
    case False
    then show ?thesis
      using that [of c n] inv v0 by (simp add: word_le_nat_alt)
  qed
  have cut: "take (unat n - unat m) (drop (unat sz - unat n) b) @ drop (unat sz - unat m) b =
      drop (unat sz - unat n) b"
    using i1(5) n append_take_drop_id [of "unat n - unat m" "drop (unat sz - unat n) b"] by simp
  have dm: "unat (sz - m) = unat sz - unat m" using i1(5) n by (simp add: unat_minus_le)
  show ?thesis
  proof (cases "m > 0")
    case False
    then have "unat m = 0" by (simp add: word_gt_0)
    then have "sc_view c1 = fput (sc_view c) (drop (unat sz - unat n) b)"
      using v1 cut b by simp
    moreover have "sc_rest c b sz n = Some c1"
      unfolding sc_rest_def c1 using False by simp
    ultimately show ?thesis using that i1 by blast
  next
    case True
    let ?xs = "drop (unat sz - unat m) b"
    let ?c2 = "c1\<lparr>sc_cache := mem_put (sc_cache c1) 0 ?xs, mValidLen := m\<rparr>"
    have len: "length (sc_cache c1) = ?N" using i1 by (simp add: sc_inv_def)
    have lx: "length ?xs = unat m" using i1(5) n b by simp
    have "sc_rest c b sz n = Some ?c2"
      unfolding sc_rest_def c1 using True dm lx len i1(4,5) n b by (simp add: mem_simps)
    moreover have v2: "sc_view ?c2 = fput (sc_view c1) ?xs"
      using i1 lx len by (simp add: sc_view_def mem_put_def)
    moreover have "snd (stream_view (sc_stream c1)) + unat m < max_offset"
      using snd_sc_view [OF i1(1)] i1(2,5) v1 pos n b by simp
    then have "sc_inv ?c2" using i1 len lx by (simp add: sc_inv_def)
    ultimately show ?thesis using that v1 cut by (simp add: fput_append)
  qed
qed

lemma FsSimpleCacheWrite_ok:
  assumes inv: "sc_inv c" and b: "length b = unat sz"
    and pos: "snd (sc_view c) + unat sz < max_offset"
  obtains r c' where "FsSimpleCacheWrite c (Some b) sz = Some (r, c')" "sc_inv c'"
    "sc_view c' = fput (sc_view c) b" "sz \<noteq> 0 \<Longrightarrow> r = to_int32 (uint sz)"
proof (cases "sz = 0")
  case True
  then show ?thesis using that [of "- 1" c] inv b by (simp add: FsSimpleCacheWrite_def)
next
  case False
  then have gt: "0 < unat sz" by (simp add: unat_gt_0)
  have nf: "\<not> mValidLen c \<ge> mCacheSize c" using inv by (simp add: sc_inv_def word_le_nat_alt)
  from inv b gt pos show ?thesis
  proof (cases rule: sc_fill_ok)
    case (stored c1)
    then show ?thesis using that [of _ c1] False nf by (simp add: FsSimpleCacheWrite_def)
  next
    case (rest n c1)
    have "snd (sc_view c1) + unat n < max_offset"
      using rest(4,5) pos b by simp
    then obtain c2 where "sc_rest c1 b sz n = Some c2" "sc_inv c2"
      "sc_view c2 = fput (sc_view c1) (drop (unat sz - unat n) b)"
      using sc_rest_ok [OF rest(2,3) b rest(4)] by blast
    then show ?thesis
      using that [of _ c2] rest False nf by (simp add: FsSimpleCacheWrite_def fput_append)
  qed
qed

definition simple_write :: "fs_simple_cache \<Rightarrow> byte list \<Rightarrow> fs_simple_cache" where
  "simple_write c xs =
     (case FsSimpleCacheWrite c (Some xs) (of_nat (length xs)) of Some (_, c') \<Rightarrow> c' | None \<Rightarrow> c)"

definition simple_flush :: "fs_simple_cache \<Rightarrow> fs_simple_cache" where
  "simple_flush c = (case FsSimpleCacheFlush c of Some (_, c') \<Rightarrow> c' | None \<Rightarrow> c)"

definition simple_seek :: "fs_simple_cache \<Rightarrow> nat \<Rightarrow> fs_simple_cache" where
  "simple_seek c p =
     (case FsSimpleCacheSeek c (int p) SEEK_SET of Some (_, c') \<Rightarrow> c' | None \<Rightarrow> c)"

lemma FsSimpleCacheSeek_ok:
  assumes "sc_inv c" "p < max_offset"
  obtains c' where "FsSimpleCacheSeek c (int p) SEEK_SET = Some (0, c')" "sc_inv c'"
    "sc_view c' = (fst (sc_view c), p)"
proof -
  from assms(1) obtain c1 where c1: "FsSimpleCacheFlush c = Some (0, c1)" "sc_inv c1"
    "mValidLen c1 = 0" "sc_disk c1 = sc_view c"
    using FsSimpleCacheFlush_ok by metis
  then have "stream_ok (sc_stream c1)" by (simp add: sc_inv_def)
  from cdx_seek_set [OF this assms(2)] obtain s' where
    "cdx_seek_fd_file (sc_stream c1) (int p) SEEK_SET = (0, s')" "stream_ok s'"
    "stream_view s' = (fst (stream_view (sc_stream c1)), p)" .
  then show ?thesis
    using that [of "c1\<lparr>sc_stream := s'\<rparr>"] c1 assms(2)
    by (simp add: FsSimpleCacheSeek_def sc_inv_def sc_view_def sc_disk_def)
qed

interpretation fs_simple: fs_writer sc_inv sc_view sc_disk simple_write simple_flush simple_seek
proof unfold_locales
  fix c and xs :: "byte list"
  assume inv: "sc_inv c" and pos: "snd (sc_view c) + length xs < max_offset"
  then have u: "length xs = unat (of_nat (length xs) :: u32)" by (simp add: unat_of_nat_max)
  obtain r c' where "FsSimpleCacheWrite c (Some xs) (of_nat (length xs)) = Some (r, c')"
    "sc_inv c'" "sc_view c' = fput (sc_view c) xs"
    by (rule FsSimpleCacheWrite_ok [OF inv u]) (use pos u in simp_all)
  then show "sc_inv (simple_write c xs) \<and> sc_view (simple_write c xs) = fput (sc_view c) xs"
    by (simp add: simple_write_def)
next
  fix c assume "sc_inv c"
  then obtain c' where "FsSimpleCacheFlush c = Some (0, c')" "sc_inv c'"
    "sc_view c' = sc_view c" "sc_disk c' = sc_view c"
    using FsSimpleCacheFlush_ok by metis
  then show "sc_inv (simple_flush c) \<and> sc_view (simple_flush c) = sc_view c \<and>
      sc_disk (simple_flush c) = sc_view c"
    by (simp add: simple_flush_def)
next
  fix c p assume "sc_inv c" "p < max_offset"
  then obtain c' where "FsSimpleCacheSeek c (int p) SEEK_SET = Some (0, c')" "sc_inv c'"
    "sc_view c' = (fst (sc_view c), p)"
    using FsSimpleCacheSeek_ok by blast
  then show "sc_inv (simple_seek c p) \<and> sc_view (simple_seek c p) = (fst (sc_view c), p)"
    by (simp add: simple_seek_def)
qed

section \<open>Properties\<close>

text \<open>
  C11: the cache of FsSimpleCache.c is transparent: whatever \<open>fsWrite\<close> calls a client makes,
  after a flush the stream's file is what one write of all their bytes at the logical position
  would have made of it.
\<close>

theorem simple_cache_is_transparent:
  assumes "sc_inv c" and "snd (sc_view c) + length (concat xss) < max_offset"
  shows "sc_disk (simple_flush (fold (\<lambda>xs c. simple_write c xs) xss c)) =
    fput (sc_view c) (concat xss)"
  using assms by (rule fs_simple.fold_write_flush)

definition demo_cache :: fs_simple_cache where
  "demo_cache = the (initFsSimpleCache True True True [0, 0, 0] (demo_stream [Moved 1]) 3)"

theorem simple_cache_is_transparent_witness:
  "sc_disk (simple_flush (fold (\<lambda>xs c. simple_write c xs) [[7], [8, 9, 10], [11]] demo_cache)) =
     ([1, 2, 7, 8, 9, 10, 11], 7)"
proof -
  have c: "sc_inv demo_cache" "sc_view demo_cache = ([1, 2, 3], 2)"
    by (simp_all add: demo_cache_def initFsSimpleCache_def sc_inv_def sc_view_def stream_ok_def
        stream_view_def demo_stream_def EIO_def max_offset_def)
  then have "snd (sc_view demo_cache) + length (concat [[7], [8, 9, 10], [11 :: byte]]) < max_offset"
    by (simp add: max_offset_def)
  from simple_cache_is_transparent [OF c(1) this] show ?thesis
    by (simp add: c(2) fput_def file_put_def)
qed

end
