(* ===== verification/FsCache.thy ===== *)
theory FsCache
  imports FsWriter Ring
begin

text \<open>
  The writer with a cache thread (libFsWriter/FsCache.c). The client's \<open>fsWrite\<close> puts bytes
  into a ring, a thread takes them out in blocks of 128 KiB and passes them to \<open>fileWriter\<close>;
  \<open>fsFlush\<close> makes the thread take out everything. The two run concurrently: they share the
  two pointers (offsets into the cache here) without a lock, each written by one side only.

  The model is a step relation. One step loads or publishes a shared pointer, copies, or writes
  to the stream, so every interleaving of the C code's accesses to the pointers is a sequence
  of steps. The semaphores \<open>mWriteStartSem\<close> and \<open>mWriteDoneSem\<close> (of a library that is not part
  of the repository) only delay: a wait for one of them may end at any time here, so what is
  proved holds for every way in which they wake the threads up. \<open>mFlushDoneSem\<close> is a counter:
  \<open>cdx_sem_down\<close> waits for a \<open>cdx_sem_up\<close>. A copy outside the cache leads to a state with
  \<open>fc_fault\<close>.
\<close>

definition WRITE_BLOCK_SIZE :: nat where "WRITE_BLOCK_SIZE = 128 * 1024"

text \<open>What the client does when a flush has come back.\<close>

datatype after_flush = A_Flush | A_Seek int whence | A_Tell | A_Truncate int

datatype client =
    C_Idle
  | C_Head "byte list"
  | C_Got "byte list" nat
  | C_Copied "byte list" nat
  | C_WaitDone "byte list"
  | C_WaitFlush after_flush
  | C_After after_flush
  | C_Join

datatype wthread = T_Wait | T_Loop | T_Got nat | T_Wrote nat | T_Flush | T_Exit | T_Done

text \<open>
  The context, the positions of the two threads in their code, and three ghost fields: the
  bytes accepted from the client and the bytes passed to \<open>fileWriter\<close> since the stream's file
  was \<open>fc_base\<close>, and whether the client's seeks have kept the stream in good health.
\<close>

record fs_cache =
  fc_stream :: cdx_stream_info
  fc_cache :: "byte list"
  fc_wt :: nat
  fc_rd :: nat
  fc_flush :: bool
  fc_exit :: bool
  fc_flush_done :: nat
  fc_client :: client
  fc_thread :: wthread
  fc_fault :: bool
  fc_signals :: nat
  fc_in :: "byte list"
  fc_passed :: "byte list"
  fc_base :: filepos
  fc_sane :: bool

section \<open>The code of the two threads\<close>

text \<open>
  One turn of the loop of \<open>FsCacheThreadWrite\<close> with the pointers it has loaded: the cache
  and the write pointer after the copy, and \<open>nFreeSize\<close>; \<open>Some None\<close> is a wait.
\<close>

definition fsc_try ::
  "byte list \<Rightarrow> nat \<Rightarrow> nat \<Rightarrow> byte list \<Rightarrow> (byte list \<times> nat \<times> nat) option option" where
  "fsc_try cache rd wt xs =
     (let n = length cache; sz = length xs
      in if wt \<ge> rd
         then
           let (s1, s2) = (if rd > 0 then (rd - 1, n - wt)
                           else if n - wt > 0 then (rd, n - wt - 1) else (rd, n - wt));
               free = s1 + s2
           in if free \<ge> sz
              then (if s2 \<ge> sz
                    then do {
                      c \<leftarrow> mem_write cache wt xs;
                      Some (Some (c, if wt + sz = n then 0 else wt + sz, free))
                    }
                    else do {
                      c1 \<leftarrow> mem_write cache wt (take s2 xs);
                      c2 \<leftarrow> mem_write c1 0 (drop s2 xs);
                      Some (Some (c2, sz - s2, free))
                    })
              else Some None
         else
           let free = rd - wt - 1
           in if free \<ge> sz
              then do { c \<leftarrow> mem_write cache wt xs; Some (Some (c, wt + sz, free)) }
              else Some None)"

text \<open>
  One turn of the thread's loop \<open>(2)\<close>: the piece to write (offset and length) and the read
  pointer after it, or nothing.
\<close>

definition fsc_plan :: "nat \<Rightarrow> nat \<Rightarrow> nat \<Rightarrow> (nat \<times> nat \<times> nat) option" where
  "fsc_plan n rd wt =
     (if wt \<ge> rd
      then
        let blocks = (wt - rd) div WRITE_BLOCK_SIZE
        in if blocks > 0
           then Some (rd, WRITE_BLOCK_SIZE * blocks, rd + WRITE_BLOCK_SIZE * blocks) else None
      else
        let v2 = n - rd; blocks = v2 div WRITE_BLOCK_SIZE
        in if blocks > 0
           then Some (rd, WRITE_BLOCK_SIZE * blocks,
                      if rd + WRITE_BLOCK_SIZE * blocks = n then 0
                      else rd + WRITE_BLOCK_SIZE * blocks)
           else Some (rd, v2, 0))"

text \<open>A call of \<open>fileWriter\<close> on a piece of the cache.\<close>

definition fsc_emit :: "fs_cache \<Rightarrow> nat \<Rightarrow> nat \<Rightarrow> fs_cache option" where
  "fsc_emit s off len =
     do {
       xs \<leftarrow> mem_read (fc_cache s) off len;
       (_, st) \<leftarrow> fileWriter (fc_stream s) xs (of_nat len);
       Some (s\<lparr>fc_stream := st, fc_passed := fc_passed s @ xs\<rparr>)
     }"

definition fsc_signal :: "fs_cache \<Rightarrow> fs_cache" where
  "fsc_signal s = s\<lparr>fc_signals := fc_signals s + 1\<rparr>"

text \<open>The emptying of the cache in \<open>(3)\<close> and \<open>(4)\<close>.\<close>

definition fsc_drain :: "fs_cache \<Rightarrow> fs_cache option" where
  "fsc_drain s =
     (if fc_wt s \<ge> fc_rd s
      then
        if fc_wt s - fc_rd s > 0
        then do {
          s1 \<leftarrow> fsc_emit s (fc_rd s) (fc_wt s - fc_rd s);
          Some (fsc_signal (s1\<lparr>fc_rd := fc_rd s + (fc_wt s - fc_rd s)\<rparr>))
        }
        else Some s
      else
        let v1 = fc_wt s; v2 = length (fc_cache s) - fc_rd s
        in do {
          s1 \<leftarrow> (if v2 > 0
                then do {
                  s1 \<leftarrow> fsc_emit s (fc_rd s) v2;
                  Some (fsc_signal (s1\<lparr>fc_rd := 0\<rparr>))
                }
                else Some s);
          (if v1 > 0
           then do {
             s2 \<leftarrow> fsc_emit s1 (fc_rd s1) v1;
             Some (fsc_signal (s2\<lparr>fc_rd := fc_rd s1 + v1\<rparr>))
           }
           else Some s1)
        })"

definition fsc_flush_done :: "fs_cache \<Rightarrow> fs_cache" where
  "fsc_flush_done s =
     (let s1 = (if fc_rd s = fc_wt s then s\<lparr>fc_rd := 0, fc_wt := 0\<rparr> else s)
      in s1\<lparr>fc_flush_done := fc_flush_done s1 + 1, fc_flush := False\<rparr>)"

text \<open>
  A piece outside the cache: this alone is a fault. When \<open>fsc_emit\<close> has no result on a piece
  inside the cache, the call of \<open>fileWriter\<close> does not return, and the thread makes no further
  step.
\<close>

definition fsc_outside :: "fs_cache \<Rightarrow> nat \<Rightarrow> nat \<Rightarrow> bool" where
  "fsc_outside s off len \<longleftrightarrow> mem_read (fc_cache s) off len = None"

definition fsc_drain_outside :: "fs_cache \<Rightarrow> bool" where
  "fsc_drain_outside s \<longleftrightarrow>
     (if fc_wt s \<ge> fc_rd s then fc_wt s > fc_rd s \<and> fsc_outside s (fc_rd s) (fc_wt s - fc_rd s)
      else
        let v1 = fc_wt s; v2 = length (fc_cache s) - fc_rd s
        in v2 > 0 \<and> fsc_outside s (fc_rd s) v2 \<or> v1 > 0 \<and> fsc_outside s (if v2 > 0 then 0 else fc_rd s) v1)"

text \<open>The stream operation after a flush; the ghost fields start afresh at the new position.\<close>

definition fsc_apply :: "after_flush \<Rightarrow> fs_cache \<Rightarrow> fs_cache" where
  "fsc_apply a s =
     (let st = (case a of
                  A_Seek off w \<Rightarrow> snd (cdx_seek_fd_file (fc_stream s) off w)
                | A_Truncate len \<Rightarrow> snd (cdx_truncate_fd_file (fc_stream s) len)
                | _ \<Rightarrow> fc_stream s)
      in if a = A_Flush \<or> a = A_Tell then s
         else s\<lparr>fc_stream := st, fc_base := stream_view st, fc_in := [], fc_passed := [],
                fc_sane := (fc_sane s \<and> stream_ok st)\<rparr>)"

definition fsc_init :: "cdx_stream_info \<Rightarrow> byte list \<Rightarrow> fs_cache" where
  "fsc_init st cache =
     \<lparr>fc_stream = st, fc_cache = cache, fc_wt = 0, fc_rd = 0, fc_flush = False, fc_exit = False,
      fc_flush_done = 0, fc_client = C_Idle, fc_thread = T_Wait, fc_fault = False,
      fc_signals = 0, fc_in = [], fc_passed = [], fc_base = stream_view st,
      fc_sane = stream_ok st\<rparr>"

text \<open>The client: \<open>FsCacheThreadWrite\<close>, \<open>FsCacheThreadFlush\<close> and the calls that flush first.\<close>

inductive fsc_client_step :: "fs_cache \<Rightarrow> fs_cache \<Rightarrow> bool" where
  c_write: "fc_client s = C_Idle \<Longrightarrow> xs \<noteq> [] \<Longrightarrow> fsc_client_step s (s\<lparr>fc_client := C_Head xs\<rparr>)"
| c_load: "fc_client s = C_Head xs \<Longrightarrow> fsc_client_step s (s\<lparr>fc_client := C_Got xs (fc_rd s)\<rparr>)"
| c_fault: "fc_client s = C_Got xs r \<Longrightarrow> fsc_try (fc_cache s) r (fc_wt s) xs = None \<Longrightarrow>
    fsc_client_step s (s\<lparr>fc_fault := True\<rparr>)"
| c_copy: "fc_client s = C_Got xs r \<Longrightarrow>
    fsc_try (fc_cache s) r (fc_wt s) xs = Some (Some (cache, wt, free)) \<Longrightarrow>
    fsc_client_step s (s\<lparr>fc_cache := cache, fc_client := C_Copied xs wt\<rparr>)"
| c_full: "fc_client s = C_Got xs r \<Longrightarrow> fsc_try (fc_cache s) r (fc_wt s) xs = Some None \<Longrightarrow>
    fsc_client_step s (s\<lparr>fc_client := C_WaitDone xs\<rparr>)"
| c_wake: "fc_client s = C_WaitDone xs \<Longrightarrow> fsc_client_step s (s\<lparr>fc_client := C_Head xs\<rparr>)"
| c_publish: "fc_client s = C_Copied xs wt \<Longrightarrow>
    fsc_client_step s (s\<lparr>fc_wt := wt, fc_client := C_Idle, fc_in := fc_in s @ xs\<rparr>)"
| c_flush_empty: "fc_client s = C_Idle \<Longrightarrow> fc_rd s = fc_wt s \<Longrightarrow>
    fsc_client_step s (s\<lparr>fc_client := C_After a\<rparr>)"
| c_flush: "fc_client s = C_Idle \<Longrightarrow> fc_rd s \<noteq> fc_wt s \<Longrightarrow>
    fsc_client_step s (s\<lparr>fc_flush := True, fc_client := C_WaitFlush a\<rparr>)"
| c_flushed: "fc_client s = C_WaitFlush a \<Longrightarrow> fc_flush_done s > 0 \<Longrightarrow>
    fsc_client_step s (s\<lparr>fc_flush_done := fc_flush_done s - 1, fc_client := C_After a\<rparr>)"
| c_after: "fc_client s = C_After a \<Longrightarrow> fsc_client_step s ((fsc_apply a s)\<lparr>fc_client := C_Idle\<rparr>)"
| c_exit: "fc_client s = C_Idle \<Longrightarrow> fsc_client_step s (s\<lparr>fc_exit := True, fc_client := C_Join\<rparr>)"

text \<open>The thread: \<open>FsCacheWriteThread\<close>.\<close>

inductive fsc_thread_step :: "fs_cache \<Rightarrow> fs_cache \<Rightarrow> bool" where
  t_start: "fc_thread s = T_Wait \<Longrightarrow> fsc_thread_step s (s\<lparr>fc_thread := T_Loop\<rparr>)"
| t_load: "fc_thread s = T_Loop \<Longrightarrow> fsc_thread_step s (s\<lparr>fc_thread := T_Got (fc_wt s)\<rparr>)"
| t_block: "fc_thread s = T_Got w \<Longrightarrow>
    fsc_plan (length (fc_cache s)) (fc_rd s) w = Some (off, len, r) \<Longrightarrow>
    fsc_emit s off len = Some s1 \<Longrightarrow> fsc_thread_step s (s1\<lparr>fc_thread := T_Wrote r\<rparr>)"
| t_fault: "fc_thread s = T_Got w \<Longrightarrow>
    fsc_plan (length (fc_cache s)) (fc_rd s) w = Some (off, len, r) \<Longrightarrow>
    fsc_outside s off len \<Longrightarrow> fsc_thread_step s (s\<lparr>fc_fault := True\<rparr>)"
| t_none: "fc_thread s = T_Got w \<Longrightarrow> fsc_plan (length (fc_cache s)) (fc_rd s) w = None \<Longrightarrow>
    fsc_thread_step s (s\<lparr>fc_thread := T_Flush\<rparr>)"
| t_publish: "fc_thread s = T_Wrote r \<Longrightarrow>
    fsc_thread_step s (fsc_signal (s\<lparr>fc_rd := r, fc_thread := T_Loop\<rparr>))"
| t_flush: "fc_thread s = T_Flush \<Longrightarrow> fc_flush s \<Longrightarrow> fsc_drain s = Some s1 \<Longrightarrow>
    fsc_thread_step s ((fsc_flush_done s1)\<lparr>fc_thread := T_Exit\<rparr>)"
| t_flush_fault: "fc_thread s = T_Flush \<Longrightarrow> fc_flush s \<Longrightarrow> fsc_drain_outside s \<Longrightarrow>
    fsc_thread_step s (s\<lparr>fc_fault := True\<rparr>)"
| t_no_flush: "fc_thread s = T_Flush \<Longrightarrow> \<not> fc_flush s \<Longrightarrow>
    fsc_thread_step s (s\<lparr>fc_thread := T_Exit\<rparr>)"
| t_exit: "fc_thread s = T_Exit \<Longrightarrow> fc_exit s \<Longrightarrow> fsc_drain s = Some s1 \<Longrightarrow>
    fsc_thread_step s (s1\<lparr>fc_thread := T_Done\<rparr>)"
| t_exit_fault: "fc_thread s = T_Exit \<Longrightarrow> fc_exit s \<Longrightarrow> fsc_drain_outside s \<Longrightarrow>
    fsc_thread_step s (s\<lparr>fc_fault := True\<rparr>)"
| t_again: "fc_thread s = T_Exit \<Longrightarrow> \<not> fc_exit s \<Longrightarrow>
    fsc_thread_step s (s\<lparr>fc_thread := T_Wait\<rparr>)"

inductive fsc_step :: "fs_cache \<Rightarrow> fs_cache \<Rightarrow> bool" where
  client_step: "fsc_client_step s s' \<Longrightarrow> fsc_step s s'"
| thread_step: "fsc_thread_step s s' \<Longrightarrow> fsc_step s s'"

lemmas c_write = client_step [OF fsc_client_step.c_write]
lemmas c_load = client_step [OF fsc_client_step.c_load]
lemmas c_fault = client_step [OF fsc_client_step.c_fault]
lemmas c_copy = client_step [OF fsc_client_step.c_copy]
lemmas c_full = client_step [OF fsc_client_step.c_full]
lemmas c_wake = client_step [OF fsc_client_step.c_wake]
lemmas c_publish = client_step [OF fsc_client_step.c_publish]
lemmas c_flush_empty = client_step [OF fsc_client_step.c_flush_empty]
lemmas c_flush = client_step [OF fsc_client_step.c_flush]
lemmas c_flushed = client_step [OF fsc_client_step.c_flushed]
lemmas c_after = client_step [OF fsc_client_step.c_after]
lemmas c_exit = client_step [OF fsc_client_step.c_exit]
lemmas t_start = thread_step [OF fsc_thread_step.t_start]
lemmas t_load = thread_step [OF fsc_thread_step.t_load]
lemmas t_block = thread_step [OF fsc_thread_step.t_block]
lemmas t_fault = thread_step [OF fsc_thread_step.t_fault]
lemmas t_none = thread_step [OF fsc_thread_step.t_none]
lemmas t_publish = thread_step [OF fsc_thread_step.t_publish]
lemmas t_flush = thread_step [OF fsc_thread_step.t_flush]
lemmas t_flush_fault = thread_step [OF fsc_thread_step.t_flush_fault]
lemmas t_no_flush = thread_step [OF fsc_thread_step.t_no_flush]
lemmas t_exit = thread_step [OF fsc_thread_step.t_exit]
lemmas t_exit_fault = thread_step [OF fsc_thread_step.t_exit_fault]
lemmas t_again = thread_step [OF fsc_thread_step.t_again]

inductive fsc_reach :: "fs_cache \<Rightarrow> fs_cache \<Rightarrow> bool" for s0 where
  start: "fsc_reach s0 s0"
| more: "fsc_reach s0 s \<Longrightarrow> fsc_step s s' \<Longrightarrow> fsc_reach s0 s'"

section \<open>The ring\<close>

text \<open>The number of bytes from a read to a write pointer.\<close>

definition ring_cnt :: "nat \<Rightarrow> nat \<Rightarrow> nat \<Rightarrow> nat" where
  "ring_cnt n rd wt = (if rd \<le> wt then wt - rd else n - rd + wt)"

lemma ring_cnt_same [simp]: "ring_cnt n p p = 0"
  by (simp add: ring_cnt_def)

lemma ring_cnt_less: "rd < n \<Longrightarrow> wt < n \<Longrightarrow> ring_cnt n rd wt < n"
  by (auto simp: ring_cnt_def)

lemma ring_cnt_0: "rd < n \<Longrightarrow> wt < n \<Longrightarrow> ring_cnt n rd wt = 0 \<longleftrightarrow> rd = wt"
  by (auto simp: ring_cnt_def)

lemma wrap_index: "p < (n :: nat) \<Longrightarrow> k \<le> n \<Longrightarrow> (p + k) mod n = (if p + k < n then p + k else p + k - n)"
  using le_mod_geq [of n "p + k"] by auto

lemma ring_cnt_wt: "rd < n \<Longrightarrow> wt < n \<Longrightarrow> (rd + ring_cnt n rd wt) mod n = wt"
  by (auto simp: ring_cnt_def wrap_index)

lemma ring_cnt_push:
  "rd < n \<Longrightarrow> wt < n \<Longrightarrow> ring_cnt n rd wt + k < n \<Longrightarrow>
    ring_cnt n rd ((wt + k) mod n) = ring_cnt n rd wt + k"
  by (auto simp: ring_cnt_def wrap_index split: if_splits)

lemma ring_cnt_pop:
  "rd < n \<Longrightarrow> wt < n \<Longrightarrow> k \<le> ring_cnt n rd wt \<Longrightarrow>
    ring_cnt n ((rd + k) mod n) wt = ring_cnt n rd wt - k"
  by (auto simp: ring_cnt_def wrap_index split: if_splits)

lemma ring_cnt_advance:
  "rd < n \<Longrightarrow> k < n \<Longrightarrow> ring_cnt n rd ((rd + k) mod n) = k"
  by (auto simp: ring_cnt_def wrap_index split: if_splits)

text \<open>A turn of the writer's loop never leaves the cache and writes only free places.\<close>

lemma fsc_try_cases:
  assumes "rd < length cache" "wt < length cache"
  obtains (wait) "fsc_try cache rd wt xs = Some None"
    | (copy) free where "ring_cnt (length cache) rd wt + length xs < length cache"
      "fsc_try cache rd wt xs =
        Some (Some (ring_write cache wt xs, (wt + length xs) mod length cache, free))"
proof -
  let ?n = "length cache" and ?free = "length cache - 1 - ring_cnt (length cache) rd wt"
  have lt: "ring_cnt ?n rd wt < ?n" using assms by (rule ring_cnt_less)
  show ?thesis
  proof (cases "length xs \<le> ?free")
    case False
    consider "rd = 0" | "0 < rd" "rd \<le> wt" | "wt < rd" by linarith
    then have "fsc_try cache rd wt xs = Some None"
    proof cases
      case 1
      then show ?thesis using False assms by (simp add: fsc_try_def ring_cnt_def Let_def)
    next
      case 2
      then have "\<not> length xs \<le> rd - 1 + (?n - wt)"
        using False assms by (simp add: ring_cnt_def)
      then show ?thesis using 2 by (simp add: fsc_try_def Let_def)
    next
      case 3
      then have "\<not> length xs \<le> rd - wt - 1" using False assms by (simp add: ring_cnt_def)
      then show ?thesis using 3 by (simp add: fsc_try_def Let_def)
    qed
    then show ?thesis by (rule wait)
  next
    case True
    then have room: "ring_cnt ?n rd wt + length xs < ?n" using lt by linarith
    show ?thesis
    proof (cases "wt + length xs \<le> ?n")
      case one: True
      have w: "(wt + length xs) mod ?n = (if wt + length xs = ?n then 0 else wt + length xs)"
        using one by auto
      have m: "mem_write cache wt xs = Some (mem_put cache wt xs)" using one by (simp add: mem_simps)
      consider "rd = 0" | "0 < rd" "rd \<le> wt" | "wt < rd" by linarith
      then have "\<exists>free. fsc_try cache rd wt xs =
          Some (Some (mem_put cache wt xs, (wt + length xs) mod ?n, free))"
      proof cases
        case 1
        then have "length xs \<le> ?n - wt - 1" "wt + length xs \<noteq> ?n" "0 < ?n - wt"
          using room assms by (simp_all add: ring_cnt_def)
        then show ?thesis using 1 unfolding w by (simp add: fsc_try_def Let_def m)
      next
        case 2
        then have "length xs \<le> rd - 1 + (?n - wt)" "length xs \<le> ?n - wt"
          using room one by (simp_all add: ring_cnt_def)
        then show ?thesis using 2 unfolding w by (simp add: fsc_try_def Let_def m)
      next
        case 3
        then have "length xs \<le> rd - wt - 1" "wt + length xs \<noteq> ?n"
          using room assms by (simp_all add: ring_cnt_def)
        then show ?thesis using 3 unfolding w by (simp add: fsc_try_def Let_def m)
      qed
      moreover have "mem_put cache wt xs = ring_write cache wt xs"
        using one by (simp add: ring_write_def Let_def)
      ultimately show ?thesis using copy room by auto
    next
      case two: False
      then have rd: "rd \<le> wt" "0 < rd" using room assms by (auto simp: ring_cnt_def split: if_splits)
      then have fit: "length xs \<le> rd - 1 + (?n - wt)" "\<not> length xs \<le> ?n - wt"
        using room two assms(2) by (simp_all add: ring_cnt_def)
      have w: "(wt + length xs) mod ?n = length xs - (?n - wt)"
        using two room assms by (subst wrap_index) auto
      have "fsc_try cache rd wt xs =
          Some (Some (ring_write cache wt xs, (wt + length xs) mod ?n, rd - 1 + (?n - wt)))"
        using rd fit assms room unfolding w
        by (simp add: fsc_try_def Let_def mem_simps ring_write_def)
      then show ?thesis using copy room by simp
    qed
  qed
qed

lemma fsc_plan_Some:
  assumes "fsc_plan n rd wt = Some (off, len, r)" "rd < n" "wt < n"
  shows "off = rd" "rd + len \<le> n" "0 < len" "len \<le> ring_cnt n rd wt" "r = (rd + len) mod n"
proof -
  define q where "q = WRITE_BLOCK_SIZE * ((wt - rd) div WRITE_BLOCK_SIZE)"
  define q2 where "q2 = WRITE_BLOCK_SIZE * ((n - rd) div WRITE_BLOCK_SIZE)"
  have p: "0 < WRITE_BLOCK_SIZE" by (simp add: WRITE_BLOCK_SIZE_def)
  have q: "q \<le> wt - rd" "q2 \<le> n - rd" by (simp_all add: q_def q2_def)
  have "rd \<le> wt \<and> off = rd \<and> len = q \<and> r = rd + q \<and> 0 < q \<or>
      wt < rd \<and> off = rd \<and> len = q2 \<and> 0 < q2 \<and> r = (if rd + q2 = n then 0 else rd + q2) \<or>
      wt < rd \<and> off = rd \<and> len = n - rd \<and> r = 0"
    using assms(1) p by (auto simp: fsc_plan_def Let_def q_def q2_def split: if_splits)
  then show "off = rd" "rd + len \<le> n" "0 < len" "len \<le> ring_cnt n rd wt" "r = (rd + len) mod n"
    using q assms(2,3) by (auto simp: ring_cnt_def)
qed

lemma fsc_plan_None: "fsc_plan n rd wt = None \<Longrightarrow> rd \<le> wt"
  by (auto simp: fsc_plan_def Let_def split: if_splits)

lemma ring_read_straight:
  "p + k \<le> length buf \<Longrightarrow> ring_read buf p k = take k (drop p buf)"
  by (rule nth_equalityI) auto

section \<open>The invariant\<close>

definition fsc_size :: "fs_cache \<Rightarrow> nat" where
  "fsc_size s = length (fc_cache s)"

definition fsc_valid :: "fs_cache \<Rightarrow> nat" where
  "fsc_valid s = ring_cnt (fsc_size s) (fc_rd s) (fc_wt s)"

definition fsc_contents :: "fs_cache \<Rightarrow> byte list" where
  "fsc_contents s = ring_read (fc_cache s) (fc_rd s) (fsc_valid s)"

text \<open>Bytes passed to \<open>fileWriter\<close> that the read pointer does not show yet.\<close>

definition fsc_pending :: "fs_cache \<Rightarrow> nat" where
  "fsc_pending s =
     (case fc_thread s of T_Wrote r \<Rightarrow> ring_cnt (fsc_size s) (fc_rd s) r | _ \<Rightarrow> 0)"

definition fsc_ptr_inv :: "fs_cache \<Rightarrow> bool" where
  "fsc_ptr_inv s \<longleftrightarrow> fc_rd s < fsc_size s \<and> fc_wt s < fsc_size s \<and> fsc_size s < 2 ^ 31 \<and>
     \<not> fc_fault s"

definition fsc_data_inv :: "fs_cache \<Rightarrow> bool" where
  "fsc_data_inv s \<longleftrightarrow> fsc_pending s \<le> fsc_valid s \<and>
     fc_in s = fc_passed s @ drop (fsc_pending s) (fsc_contents s)"

definition fsc_client_inv :: "fs_cache \<Rightarrow> bool" where
  "fsc_client_inv s \<longleftrightarrow>
     (case fc_client s of
        C_Got xs r \<Rightarrow> r < fsc_size s \<and> fsc_valid s \<le> ring_cnt (fsc_size s) r (fc_wt s)
      | C_Copied xs w \<Rightarrow> fsc_valid s + length xs < fsc_size s \<and>
          w = (fc_wt s + length xs) mod fsc_size s \<and>
          ring_read (fc_cache s) (fc_wt s) (length xs) = xs
      | C_After a \<Rightarrow> fc_rd s = fc_wt s
      | _ \<Rightarrow> True)"

definition fsc_thread_inv :: "fs_cache \<Rightarrow> bool" where
  "fsc_thread_inv s \<longleftrightarrow>
     (case fc_thread s of
        T_Got w \<Rightarrow> w < fsc_size s \<and> ring_cnt (fsc_size s) (fc_rd s) w \<le> fsc_valid s
      | T_Wrote r \<Rightarrow> (\<exists>k. 0 < k \<and> k < fsc_size s \<and> r = (fc_rd s + k) mod fsc_size s)
      | _ \<Rightarrow> True)"

definition fsc_flush_inv :: "fs_cache \<Rightarrow> bool" where
  "fsc_flush_inv s \<longleftrightarrow>
     (if (\<exists>a. fc_client s = C_WaitFlush a)
      then (if fc_flush s then fc_flush_done s = 0 else fc_rd s = fc_wt s \<and> fc_flush_done s = 1)
      else \<not> fc_flush s \<and> fc_flush_done s = 0) \<and>
     (fc_exit s \<longrightarrow> fc_client s = C_Join) \<and>
     (fc_thread s = T_Done \<longrightarrow> fc_exit s \<and> fc_rd s = fc_wt s)"

definition fsc_stream_inv :: "fs_cache \<Rightarrow> bool" where
  "fsc_stream_inv s \<longleftrightarrow>
     (fc_sane s \<and> snd (fc_base s) + length (fc_in s) < max_offset \<longrightarrow>
        stream_ok (fc_stream s) \<and> stream_view (fc_stream s) = fput (fc_base s) (fc_passed s))"

definition fsc_inv :: "fs_cache \<Rightarrow> bool" where
  "fsc_inv s \<longleftrightarrow> fsc_ptr_inv s \<and> fsc_data_inv s \<and> fsc_client_inv s \<and> fsc_thread_inv s \<and>
     fsc_flush_inv s \<and> fsc_stream_inv s"

lemmas fsc_parts = fsc_ptr_inv_def fsc_data_inv_def fsc_client_inv_def fsc_thread_inv_def
  fsc_flush_inv_def fsc_stream_inv_def
lemmas fsc_views = fsc_size_def fsc_valid_def fsc_contents_def fsc_pending_def

lemma length_fsc_contents [simp]: "length (fsc_contents s) = fsc_valid s"
  by (simp add: fsc_contents_def)

lemma fsc_inv_init:
  assumes "cache \<noteq> []" "length cache < 2 ^ 31"
  shows "fsc_inv (fsc_init st cache)"
  using assms by (simp add: fsc_inv_def fsc_parts fsc_views fsc_init_def)

text \<open>
  The thread writes a straight piece that starts at its read pointer: \<open>fileWriter\<close> gets the
  oldest bytes, and \<open>fsc_pending\<close> counts them from then on.
\<close>

abbreviation fsc_stalled :: "fs_cache \<Rightarrow> bool" where
  "fsc_stalled s \<equiv> \<not> not_stalled (s_file (fc_stream s))"

lemma fsc_inside: "off + len \<le> fsc_size s \<Longrightarrow> \<not> fsc_outside s off len"
  by (simp add: fsc_outside_def mem_simps fsc_size_def)

lemma fsc_emit_ok:
  assumes "off + len \<le> fsc_size s" "fsc_size s < 2 ^ 31"
  obtains (never) "fsc_emit s off len = None" "fsc_stalled s"
    | (emitted) st where "fsc_emit s off len =
      Some (s\<lparr>fc_stream := st, fc_passed := fc_passed s @ ring_read (fc_cache s) off len\<rparr>)"
    "stream_ok (fc_stream s) \<Longrightarrow> snd (stream_view (fc_stream s)) + len < max_offset \<Longrightarrow>
      stream_ok st \<and>
      stream_view st = fput (stream_view (fc_stream s)) (ring_read (fc_cache s) off len)"
    "p_outcomes (s_file st) = p_outcomes (s_file (fc_stream s))"
proof -
  let ?xs = "ring_read (fc_cache s) off len"
  have u: "unat (of_nat len :: u32) = len"
    using assms by (simp add: unat_of_nat)
  have r: "mem_read (fc_cache s) off len = Some ?xs"
    using assms by (simp add: mem_simps ring_read_straight fsc_size_def)
  show ?thesis
  proof (cases "fileWriter (fc_stream s) ?xs (of_nat len)")
    case None
    then show ?thesis using that(1) r u fileWriter_None [OF None] by (simp add: fsc_emit_def)
  next
    case (Some w)
    obtain k st where f: "fileWriter (fc_stream s) ?xs (of_nat len) = Some (k, st)"
      using Some by (cases w) simp
    have "stream_ok st \<and> stream_view st = fput (stream_view (fc_stream s)) ?xs"
      if "stream_ok (fc_stream s)" "snd (stream_view (fc_stream s)) + len < max_offset"
      using fileWriter_ok [OF that(1), of "of_nat len" ?xs] that(2) u f by auto
    then show ?thesis using that(2) [of st] r f fileWriter_frame [OF f] by (simp add: fsc_emit_def)
  qed
qed

lemma fsc_copy_inv:
  assumes inv: "fsc_inv s" and c: "fc_client s = C_Got xs r"
  obtains (wait) "fsc_try (fc_cache s) r (fc_wt s) xs = Some None"
    | (copy) cache wt free where
      "fsc_try (fc_cache s) r (fc_wt s) xs = Some (Some (cache, wt, free))"
      "fsc_inv (s\<lparr>fc_cache := cache, fc_client := C_Copied xs wt\<rparr>)"
proof -
  let ?n = "fsc_size s"
  have p: "r < ?n" "fc_rd s < ?n" "fc_wt s < ?n" "fsc_valid s \<le> ring_cnt ?n r (fc_wt s)"
    using inv c by (simp_all add: fsc_inv_def fsc_parts)
  from p have "r < length (fc_cache s)" "fc_wt s < length (fc_cache s)"
    by (simp_all add: fsc_size_def)
  then show ?thesis
  proof (cases rule: fsc_try_cases [of _ _ _ xs])
    case wait
    then show ?thesis by (rule that(1))
  next
    case (copy free)
    let ?cache = "ring_write (fc_cache s) (fc_wt s) xs"
    have room: "fsc_valid s + length xs < ?n"
      using copy(1) p(4) by (simp add: fsc_size_def)
    have wt: "(fc_rd s + fsc_valid s) mod ?n = fc_wt s"
      using ring_cnt_wt p(2,3) by (simp add: fsc_valid_def)
    have "ring_read ?cache (fc_rd s) (fsc_valid s + length xs) = fsc_contents s @ xs"
      using ring_read_write_append [of "fc_rd s" "fc_cache s" "fsc_valid s" xs] room p wt
      by (simp add: fsc_size_def fsc_contents_def)
    then have old: "ring_read ?cache (fc_rd s) (fsc_valid s) = fsc_contents s"
      and new: "ring_read ?cache (fc_rd s + fsc_valid s) (length xs) = xs"
      by (simp_all add: ring_read_add)
    have len: "length ?cache = ?n" using room p by (simp add: fsc_size_def)
    have new': "ring_read ?cache (fc_wt s) (length xs) = xs"
      using new wt len ring_read_mod [of ?cache "fc_rd s + fsc_valid s" "length xs"] by simp
    let ?s' = "s\<lparr>fc_cache := ?cache, fc_client := C_Copied xs ((fc_wt s + length xs) mod ?n)\<rparr>"
    have sz: "fsc_size ?s' = ?n" using len by (simp add: fsc_size_def)
    have v: "fsc_valid ?s' = fsc_valid s" using len by (simp add: fsc_valid_def fsc_size_def)
    have ct: "fsc_contents ?s' = fsc_contents s" unfolding fsc_contents_def v using old
      by (simp add: fsc_contents_def)
    have pe: "fsc_pending ?s' = fsc_pending s"
      using sz by (simp add: fsc_pending_def split: wthread.splits)
    have "fsc_inv ?s'"
      using inv c room new' unfolding fsc_inv_def fsc_parts sz v ct pe
      by (auto cong: wthread.case_cong)
    with copy(2) show ?thesis using that(2) by (simp add: fsc_size_def)
  qed
qed

lemma fsc_publish_inv:
  assumes inv: "fsc_inv s" and c: "fc_client s = C_Copied xs w"
  shows "fsc_inv (s\<lparr>fc_wt := w, fc_client := C_Idle, fc_in := fc_in s @ xs\<rparr>)" (is "fsc_inv ?s'")
proof -
  let ?n = "fsc_size s"
  have p: "fc_rd s < ?n" "fc_wt s < ?n" "fsc_valid s + length xs < ?n"
    "w = (fc_wt s + length xs) mod ?n" "ring_read (fc_cache s) (fc_wt s) (length xs) = xs"
    using inv c by (simp_all add: fsc_inv_def fsc_parts)
  have wlt: "w < ?n" using p by simp
  have sz: "fsc_size ?s' = ?n" by (simp add: fsc_size_def)
  have v: "fsc_valid ?s' = fsc_valid s + length xs"
    using ring_cnt_push p by (simp add: fsc_valid_def fsc_size_def)
  have wt: "(fc_rd s + fsc_valid s) mod ?n = fc_wt s"
    using ring_cnt_wt p(1,2) by (simp add: fsc_valid_def)
  have ct: "fsc_contents ?s' = fsc_contents s @ xs"
    unfolding fsc_contents_def v
    using p(5) wt ring_read_mod [of "fc_cache s" "fc_rd s + fsc_valid s" "length xs"]
    by (simp add: ring_read_add fsc_size_def)
  have pe: "fsc_pending ?s' = fsc_pending s"
    using sz by (simp add: fsc_pending_def split: wthread.splits)
  show ?thesis
    using inv c wlt
    unfolding fsc_inv_def fsc_parts sz v ct pe by (auto split: wthread.splits)
qed

lemma fsc_plan_inside:
  assumes "fsc_inv s" and "fc_thread s = T_Got w"
    and plan: "fsc_plan (length (fc_cache s)) (fc_rd s) w = Some (off, len, r)"
  shows "off + len \<le> fsc_size s"
proof -
  have "fc_rd s < fsc_size s" "w < fsc_size s"
    using assms(1,2) by (simp_all add: fsc_inv_def fsc_parts)
  from fsc_plan_Some [OF plan [folded fsc_size_def] this] show ?thesis by simp
qed

lemma fsc_plan_inv:
  assumes inv: "fsc_inv s" and t: "fc_thread s = T_Got w"
    and plan: "fsc_plan (length (fc_cache s)) (fc_rd s) w = Some (off, len, r)"
    and emit: "fsc_emit s off len = Some s1"
  shows "fsc_inv (s1\<lparr>fc_thread := T_Wrote r\<rparr>)"
proof -
  let ?n = "fsc_size s"
  have p: "fc_rd s < ?n" "fc_wt s < ?n" "w < ?n" "ring_cnt ?n (fc_rd s) w \<le> fsc_valid s" "?n < 2 ^ 31"
    using inv t by (simp_all add: fsc_inv_def fsc_parts)
  note pl = fsc_plan_Some [OF plan [folded fsc_size_def] p(1,3)]
  have len: "len \<le> fsc_valid s" using pl(4) p(4) by simp
  have "off + len \<le> ?n" using pl(1,2) by simp
  from fsc_emit_ok [OF this p(5)] emit obtain st where e:
    "s1 = s\<lparr>fc_stream := st, fc_passed := fc_passed s @ ring_read (fc_cache s) off len\<rparr>"
      (is "_ = ?s1")
    "stream_ok (fc_stream s) \<Longrightarrow> snd (stream_view (fc_stream s)) + len < max_offset \<Longrightarrow>
      stream_ok st \<and>
      stream_view st = fput (stream_view (fc_stream s)) (ring_read (fc_cache s) off len)"
    by (metis option.distinct(1) option.inject)
  let ?s' = "?s1\<lparr>fc_thread := T_Wrote r\<rparr>"
  have pe0: "fsc_pending s = 0" using t by (simp add: fsc_pending_def)
  have lt: "fsc_valid s < ?n" using ring_cnt_less p by (simp add: fsc_valid_def)
  have pe: "fsc_pending ?s' = len"
    using pl(5) ring_cnt_advance [of "fc_rd s" ?n len] p(1) len lt
    by (simp add: fsc_pending_def fsc_size_def)
  have split: "fsc_contents s = ring_read (fc_cache s) off len @ drop len (fsc_contents s)"
    using len pl(1) ring_read_add [of "fc_cache s" "fc_rd s" len "fsc_valid s - len"]
    by (simp add: fsc_contents_def)
  have data: "fc_in s = fc_passed s @ fsc_contents s"
    using inv pe0 by (simp add: fsc_inv_def fsc_data_inv_def)
  have sz: "fsc_size ?s' = ?n" "fsc_valid ?s' = fsc_valid s" "fsc_contents ?s' = fsc_contents s"
    by (simp_all add: fsc_views)
  have "fsc_data_inv ?s'"
    unfolding fsc_data_inv_def pe sz using data split len by simp
  moreover have "fsc_stream_inv ?s'"
  proof -
    have "fsc_stream_inv s" using inv by (simp add: fsc_inv_def)
    moreover have "length (fc_in s) = length (fc_passed s) + fsc_valid s" using data by simp
    ultimately show ?thesis using e(2) len by (auto simp: fsc_stream_inv_def fput_append)
  qed
  moreover have "fsc_thread_inv ?s'"
    using pl(3,5) len lt sz by (auto simp: fsc_thread_inv_def)
  ultimately have "fsc_inv ?s'"
    using inv unfolding fsc_inv_def
    by (simp add: fsc_ptr_inv_def fsc_client_inv_def fsc_flush_inv_def sz cong: client.case_cong)
  with e(1) show ?thesis by simp
qed

lemma fsc_advance_inv:
  assumes inv: "fsc_inv s" and t: "fc_thread s = T_Wrote r"
  shows "fsc_inv (fsc_signal (s\<lparr>fc_rd := r, fc_thread := T_Loop\<rparr>))" (is "fsc_inv ?s'")
proof -
  let ?n = "fsc_size s"
  have p: "fc_rd s < ?n" "fc_wt s < ?n" using inv by (simp_all add: fsc_inv_def fsc_parts)
  obtain k where k: "0 < k" "k < ?n" "r = (fc_rd s + k) mod ?n"
    using inv t by (auto simp: fsc_inv_def fsc_thread_inv_def)
  have r: "r < ?n" using k p by simp
  have pe: "fsc_pending s = k"
    using t k p ring_cnt_advance by (simp add: fsc_pending_def)
  have kv: "k \<le> fsc_valid s" using inv pe by (simp add: fsc_inv_def fsc_data_inv_def)
  have sz: "fsc_size ?s' = ?n" by (simp add: fsc_size_def fsc_signal_def)
  have v: "fsc_valid ?s' = fsc_valid s - k"
    using ring_cnt_pop [OF p kv [unfolded fsc_valid_def]] k(3)
    by (simp add: fsc_valid_def fsc_size_def fsc_signal_def)
  have "fsc_contents s = ring_read (fc_cache s) (fc_rd s) k @
      ring_read (fc_cache s) (fc_rd s + k) (fsc_valid s - k)"
    using ring_read_add [of "fc_cache s" "fc_rd s" k "fsc_valid s - k"] kv
    by (simp add: fsc_contents_def)
  then have ct: "fsc_contents ?s' = drop k (fsc_contents s)"
    using ring_read_mod [of "fc_cache s" "fc_rd s + k" "fsc_valid s - k"] k(3)
    unfolding fsc_contents_def v by (simp add: fsc_size_def fsc_signal_def)
  have pe': "fsc_pending ?s' = 0" by (simp add: fsc_pending_def fsc_signal_def)
  have flush: "fc_rd s = fc_wt s \<Longrightarrow> False"
    using kv k(1) by (simp add: fsc_valid_def)
  show ?thesis
    using inv r v flush pe kv
    unfolding fsc_inv_def fsc_parts sz pe' ct pe
    by (auto simp: fsc_signal_def split: client.splits if_splits)
qed

text \<open>The emptying of the cache.\<close>

definition fsc_drained :: "fs_cache \<Rightarrow> cdx_stream_info \<Rightarrow> nat \<Rightarrow> fs_cache" where
  "fsc_drained s st k =
     s\<lparr>fc_stream := st, fc_passed := fc_in s, fc_rd := fc_wt s, fc_signals := k\<rparr>"

lemma fsc_drain_inside:
  assumes "fsc_ptr_inv s"
  shows "\<not> fsc_drain_outside s"
  using assms fsc_inside [of "fc_rd s" "fc_wt s - fc_rd s" s] fsc_inside [of 0 "fc_wt s" s]
    fsc_inside [of "fc_rd s" "fsc_size s - fc_rd s" s]
  by (auto simp: fsc_drain_outside_def fsc_ptr_inv_def fsc_size_def Let_def)

lemma fsc_drain_ok:
  assumes inv: "fsc_ptr_inv s" "fsc_data_inv s" "fsc_stream_inv s" and t: "fsc_pending s = 0"
  obtains (never) "fsc_drain s = None" "fsc_stalled s"
    | (drained) st k where "fsc_drain s = Some (fsc_drained s st k)" "fsc_stream_inv (fsc_drained s st k)"
proof -
  let ?n = "fsc_size s" and ?rd = "fc_rd s" and ?wt = "fc_wt s"
  have p: "?rd < ?n" "?wt < ?n" "?n < 2 ^ 31" using inv by (simp_all add: fsc_ptr_inv_def)
  have data: "fc_in s = fc_passed s @ fsc_contents s" using inv(2) t by (simp add: fsc_data_inv_def)
  have len: "length (fc_in s) = length (fc_passed s) + fsc_valid s" using data by simp
  show ?thesis
  proof (cases "?rd \<le> ?wt")
    case True
    then have v: "fsc_valid s = ?wt - ?rd" by (simp add: fsc_valid_def ring_cnt_def)
    show ?thesis
    proof (cases "?rd = ?wt")
      case True
      then have "fc_in s = fc_passed s" using data v by (simp add: fsc_contents_def)
      then show ?thesis
        using drained [of "fc_stream s" "fc_signals s"] True inv(3)
        by (simp add: fsc_drain_def fsc_drained_def fsc_stream_inv_def)
    next
      case False
      have "?rd + (?wt - ?rd) \<le> ?n" using p by simp
      from this p(3) show ?thesis
      proof (cases rule: fsc_emit_ok)
        case never
        then show ?thesis using that(1) True False by (simp add: fsc_drain_def)
      next
        case (emitted st)
        have ct: "ring_read (fc_cache s) ?rd (?wt - ?rd) = fsc_contents s"
          by (simp add: fsc_contents_def v)
        have "fsc_drain s = Some (fsc_drained s st (fc_signals s + 1))"
          using True False emitted(1) data ct by (simp add: fsc_drain_def fsc_drained_def fsc_signal_def)
        moreover have "fsc_stream_inv (fsc_drained s st (fc_signals s + 1))"
          using inv(3) emitted(2) len v data ct
          by (auto simp: fsc_stream_inv_def fsc_drained_def fput_append)
        ultimately show ?thesis using drained by blast
      qed
    qed
  next
    case wrapped: False
    let ?x2 = "ring_read (fc_cache s) ?rd (?n - ?rd)" and ?x1 = "ring_read (fc_cache s) 0 ?wt"
    have v: "fsc_valid s = (?n - ?rd) + ?wt" using wrapped by (simp add: fsc_valid_def ring_cnt_def)
    have ct: "fsc_contents s = ?x2 @ ?x1"
      using ring_read_mod [of "fc_cache s" ?n ?wt] p(1)
      unfolding fsc_contents_def v ring_read_add by (simp add: fsc_size_def)
    have "?rd + (?n - ?rd) \<le> ?n" using p by simp
    from this p(3) show ?thesis
    proof (cases rule: fsc_emit_ok)
      case never
      then show ?thesis using that(1) wrapped p by (simp add: fsc_drain_def fsc_size_def Let_def)
    next
      case e: (emitted st)
      let ?s1 = "s\<lparr>fc_stream := st, fc_passed := fc_passed s @ ?x2, fc_rd := 0,
                   fc_signals := fc_signals s + 1\<rparr>"
      show ?thesis
      proof (cases "?wt = 0")
        case True
        then have "fsc_drain s = Some (fsc_drained s st (fc_signals s + 1))"
          using wrapped p e(1) data ct by (simp add: fsc_drain_def fsc_drained_def fsc_signal_def fsc_size_def Let_def)
        moreover have "fsc_stream_inv (fsc_drained s st (fc_signals s + 1))"
          using inv(3) e(2) len v data ct True by (auto simp: fsc_stream_inv_def fsc_drained_def fput_append)
        ultimately show ?thesis using drained by blast
      next
        case False
        have "0 + ?wt \<le> fsc_size ?s1" "fsc_size ?s1 < 2 ^ 31" using p by (simp_all add: fsc_size_def)
        then show ?thesis
        proof (cases rule: fsc_emit_ok)
          case never
          then have "fsc_drain s = None" "fsc_stalled s"
            using wrapped p e(1,3) False
            by (simp_all add: fsc_drain_def fsc_signal_def fsc_size_def not_stalled_def Let_def)
          then show ?thesis by (rule that(1))
        next
          case e2: (emitted st2)
          have "fsc_drain s = Some (fsc_drained s st2 (fc_signals s + 2))"
            using False wrapped p e(1) e2(1) data ct
            by (simp add: fsc_drain_def fsc_drained_def fsc_signal_def fsc_size_def Let_def)
          moreover have "fsc_stream_inv (fsc_drained s st2 (fc_signals s + 2))"
            using inv(3) e(2) e2(2) len v data ct by (auto simp: fsc_stream_inv_def fsc_drained_def fput_append)
          ultimately show ?thesis using drained by blast
        qed
      qed
    qed
  qed
qed

lemma fsc_drain_returns:
  assumes "fsc_inv s" "fc_thread s = T_Flush \<or> fc_thread s = T_Exit" "not_stalled (s_file (fc_stream s))"
  obtains s1 where "fsc_drain s = Some s1"
proof -
  have "fsc_ptr_inv s" "fsc_data_inv s" "fsc_stream_inv s" "fsc_pending s = 0"
    using assms(1,2) by (auto simp: fsc_inv_def fsc_pending_def)
  then show ?thesis by (cases rule: fsc_drain_ok) (use assms(3) that in auto)
qed

lemma fsc_flush_inv_step:
  assumes inv: "fsc_inv s" and t: "fc_thread s = T_Flush" and f: "fc_flush s" and d1: "fsc_drain s = Some s1"
  shows "fsc_inv ((fsc_flush_done s1)\<lparr>fc_thread := T_Exit\<rparr>)"
proof -
  obtain a where c: "fc_client s = C_WaitFlush a" "fc_flush_done s = 0"
    using inv f by (auto simp: fsc_inv_def fsc_flush_inv_def split: if_splits)
  have "fsc_ptr_inv s" "fsc_data_inv s" "fsc_stream_inv s" "fsc_pending s = 0"
    using inv t by (simp_all add: fsc_inv_def fsc_pending_def)
  then obtain st k where d: "s1 = fsc_drained s st k" "fsc_stream_inv (fsc_drained s st k)"
    by (cases rule: fsc_drain_ok) (use d1 in auto)
  let ?s' = "(fsc_flush_done (fsc_drained s st k))\<lparr>fc_thread := T_Exit\<rparr>"
  have "fsc_inv ?s'"
    using inv d(2) c f
    by (auto simp: fsc_inv_def fsc_parts fsc_flush_done_def fsc_drained_def fsc_views)
  with d(1) show ?thesis by simp
qed

lemma fsc_exit_inv_step:
  assumes inv: "fsc_inv s" and t: "fc_thread s = T_Exit" and e: "fc_exit s" and d1: "fsc_drain s = Some s1"
  shows "fsc_inv (s1\<lparr>fc_thread := T_Done\<rparr>)" and "fc_passed s1 = fc_in s1"
proof -
  have c: "fc_client s = C_Join" using inv e by (simp add: fsc_inv_def fsc_flush_inv_def)
  have "fsc_ptr_inv s" "fsc_data_inv s" "fsc_stream_inv s" "fsc_pending s = 0"
    using inv t by (simp_all add: fsc_inv_def fsc_pending_def)
  then obtain st k where d: "s1 = fsc_drained s st k" "fsc_stream_inv (fsc_drained s st k)"
    by (cases rule: fsc_drain_ok) (use d1 in auto)
  have "fsc_inv ((fsc_drained s st k)\<lparr>fc_thread := T_Done\<rparr>)"
    using inv d(2) c e by (auto simp: fsc_inv_def fsc_parts fsc_drained_def fsc_views)
  with d(1) show "fsc_inv (s1\<lparr>fc_thread := T_Done\<rparr>)" "fc_passed s1 = fc_in s1"
    by (simp_all add: fsc_drained_def)
qed

text \<open>With an empty cache and nothing pending, the file is what the client has written.\<close>

lemma fsc_empty:
  assumes "fsc_inv s" "fc_rd s = fc_wt s"
  shows "fc_passed s = fc_in s" "fsc_pending s = 0"
  using assms by (simp_all add: fsc_inv_def fsc_data_inv_def fsc_valid_def)

lemma fsc_after_inv:
  assumes inv: "fsc_inv s" and c: "fc_client s = C_After a"
  shows "fsc_inv ((fsc_apply a s)\<lparr>fc_client := C_Idle\<rparr>)"
proof -
  have e: "fc_rd s = fc_wt s" using inv c by (simp add: fsc_inv_def fsc_client_inv_def)
  show ?thesis
  proof (cases "a = A_Flush \<or> a = A_Tell")
    case True
    then show ?thesis
      using inv c unfolding fsc_inv_def fsc_parts fsc_views
      by (auto simp: fsc_apply_def split: wthread.splits)
  next
    case False
    then show ?thesis
      using inv c e fsc_empty [OF inv e] unfolding fsc_inv_def fsc_parts fsc_views
      by (auto simp: fsc_apply_def Let_def split: wthread.splits)
  qed
qed

lemma fsc_client_step_inv: "fsc_client_step s s' \<Longrightarrow> fsc_inv s \<Longrightarrow> fsc_inv s'"
proof (induction rule: fsc_client_step.induct)
  case (c_fault s xs r)
  from c_fault(3,1) show ?case by (cases rule: fsc_copy_inv) (use c_fault(2) in auto)
next
  case (c_copy s xs r cache wt free)
  from c_copy(3,1) show ?case by (cases rule: fsc_copy_inv) (use c_copy(2) in auto)
next
  case (c_publish s xs wt)
  then show ?case by (rule fsc_publish_inv [rotated])
next
  case (c_after s a)
  then show ?case by (rule fsc_after_inv [rotated])
next
  case (c_flushed s a)
  then show ?case
    by (auto simp: fsc_inv_def fsc_parts fsc_views split: wthread.splits if_splits)
qed (auto simp: fsc_inv_def fsc_parts fsc_views cong: wthread.case_cong client.case_cong)

lemma fsc_thread_step_inv: "fsc_thread_step s s' \<Longrightarrow> fsc_inv s \<Longrightarrow> fsc_inv s'"
proof (induction rule: fsc_thread_step.induct)
  case (t_block s w off len r s1)
  then show ?case by (intro fsc_plan_inv)
next
  case (t_fault s w off len r)
  then show ?case using fsc_inside [OF fsc_plan_inside [OF t_fault(4,1,2)]] by simp
next
  case (t_publish s r)
  then show ?case by (rule fsc_advance_inv [rotated])
next
  case (t_flush s s1)
  then show ?case by (intro fsc_flush_inv_step)
next
  case (t_flush_fault s)
  then show ?case using fsc_drain_inside [of s] by (simp add: fsc_inv_def)
next
  case (t_exit s s1)
  then show ?case by (intro fsc_exit_inv_step(1))
next
  case (t_exit_fault s)
  then show ?case using fsc_drain_inside [of s] by (simp add: fsc_inv_def)
qed (auto simp: fsc_inv_def fsc_parts fsc_views cong: wthread.case_cong client.case_cong
      dest!: fsc_plan_None)

lemma fsc_step_inv: "fsc_step s s' \<Longrightarrow> fsc_inv s \<Longrightarrow> fsc_inv s'"
  by (cases rule: fsc_step.cases) (auto intro: fsc_client_step_inv fsc_thread_step_inv)

lemma fsc_reach_inv: "fsc_reach s0 s \<Longrightarrow> fsc_inv s0 \<Longrightarrow> fsc_inv s"
  by (induction rule: fsc_reach.induct) (auto intro: fsc_step_inv)

section \<open>Creation\<close>

text \<open>
  \<open>initFsCacheThreadContext\<close>: the flags say which of the two allocations, the four
  initialisations and the creation of the thread succeed; \<open>cache\<close> is the caller's buffer.
\<close>

definition initFsCacheThreadContext ::
  "bool \<Rightarrow> bool \<Rightarrow> bool list \<Rightarrow> bool \<Rightarrow> cdx_stream_info \<Rightarrow> byte list option \<Rightarrow> fs_cache option" where
  "initFsCacheThreadContext m1 m2 inits thread_ok st cache =
     (if \<not> m1 then None
      else if \<not> m2 then None
      else case cache of
             None \<Rightarrow> None
           | Some c \<Rightarrow> if \<not> list_all id inits then None
                       else if \<not> thread_ok then None
                       else Some (fsc_init st c))"

text \<open>The three kinds of writers, and the choice of \<open>createFsWriter\<close> (all allocations succeed).\<close>

datatype FsWriter =
    CacheThreadWriter fs_cache
  | SimpleCacheWriter fs_simple_cache
  | DirectWriter cdx_stream_info

definition FSWRITEMODE_CACHETHREAD :: int where "FSWRITEMODE_CACHETHREAD = 0"
definition FSWRITEMODE_SIMPLECACHE :: int where "FSWRITEMODE_SIMPLECACHE = 1"
definition FSWRITEMODE_DIRECT :: int where "FSWRITEMODE_DIRECT = 2"

definition createFsWriter ::
  "int \<Rightarrow> cdx_stream_info \<Rightarrow> byte list option \<Rightarrow> byte list \<Rightarrow> int \<Rightarrow> FsWriter option" where
  "createFsWriter mode st cache junk nCacheSize =
     (if mode = FSWRITEMODE_CACHETHREAD
      then map_option CacheThreadWriter
             (initFsCacheThreadContext True True [True, True, True, True] True st cache)
      else if mode = FSWRITEMODE_SIMPLECACHE
      then map_option SimpleCacheWriter (initFsSimpleCache True True True junk st nCacheSize)
      else if mode = FSWRITEMODE_DIRECT
      then map_option DirectWriter (initFsDirectWrite True True st)
      else None)"

section \<open>Properties\<close>

text \<open>
  C3: under every interleaving of the client and the cache thread, no copy leaves the cache,
  no byte is lost, repeated or reordered between the client's \<open>fsWrite\<close> calls and
  \<open>fileWriter\<close>, less than a cache full of them is held back, and as long as the stream is in
  good health its file holds exactly the bytes passed so far.
\<close>

theorem fs_cache_keeps_order:
  assumes "cache \<noteq> []" and "length cache < 2 ^ 31" and "fsc_reach (fsc_init st cache) s"
  shows "\<not> fc_fault s \<and>
    (\<exists>held. fc_in s = fc_passed s @ held \<and> length held < length (fc_cache s)) \<and>
    (fc_sane s \<and> snd (fc_base s) + length (fc_in s) < max_offset \<longrightarrow>
       stream_view (fc_stream s) = fput (fc_base s) (fc_passed s))"
proof -
  have inv: "fsc_inv s" using fsc_reach_inv [OF assms(3) fsc_inv_init [OF assms(1,2)]] .
  then have "fsc_valid s < length (fc_cache s)"
    using ring_cnt_less by (simp add: fsc_inv_def fsc_ptr_inv_def fsc_valid_def fsc_size_def)
  with inv show ?thesis
    by (auto simp: fsc_inv_def fsc_ptr_inv_def fsc_data_inv_def fsc_stream_inv_def)
qed

text \<open>
  C9: when \<open>fsFlush\<close> has waited for the thread and returns, every byte the client has written
  has been passed to \<open>fileWriter\<close>, and a healthy stream's file holds all of them; the pointers
  agree, so the call does not report a failed flush.
\<close>

theorem fs_cache_flush_complete:
  assumes "cache \<noteq> []" and "length cache < 2 ^ 31" and "fsc_reach (fsc_init st cache) s"
    and "fsc_step s s'" and "fc_client s = C_WaitFlush a" and "fc_client s' = C_After a"
  shows "fc_rd s' = fc_wt s' \<and> fc_passed s' = fc_in s' \<and>
    (fc_sane s' \<and> snd (fc_base s') + length (fc_in s') < max_offset \<longrightarrow>
       stream_view (fc_stream s') = fput (fc_base s') (fc_in s'))"
proof -
  have "fsc_inv s'"
    using fsc_step_inv [OF assms(4) fsc_reach_inv [OF assms(3) fsc_inv_init [OF assms(1,2)]]] .
  then show ?thesis
    using assms(6) fsc_empty [of s']
    by (auto simp: fsc_inv_def fsc_client_inv_def fsc_stream_inv_def)
qed

text \<open>
  C31: when the thread has ended (\<open>deinitFsCacheThreadContext\<close> joins it), nothing is left in
  the cache.
\<close>

theorem fs_cache_exit_complete:
  assumes "cache \<noteq> []" and "length cache < 2 ^ 31" and "fsc_reach (fsc_init st cache) s"
    and "fc_thread s = T_Done"
  shows "fc_passed s = fc_in s"
proof -
  have inv: "fsc_inv s" using fsc_reach_inv [OF assms(3) fsc_inv_init [OF assms(1,2)]] .
  then have "fc_rd s = fc_wt s" using assms(4) by (simp add: fsc_inv_def fsc_flush_inv_def)
  with fsc_empty [OF inv] show ?thesis by simp
qed

text \<open>
  The witnesses run a cache of four bytes in which one byte is written and flushed.
\<close>

definition fsc_demo_stream :: cdx_stream_info where
  "fsc_demo_stream =
     \<lparr>s_file = \<lparr>p_data = [], p_pos = 0, p_errno = 0, p_calls = 0, p_outcomes = demo_outcomes []\<rparr>, fd_open = True,
      fd_offset = 0, cur_offset = 0, fd_length = 0, mIODirectionFlag = True, mFileSize = 0,
      mFileEndOffset = 0, writeError = 0, writeErrcnt = 0, cb_set = False, cb_calls = 0\<rparr>"

definition fsc_demo :: "client \<Rightarrow> wthread \<Rightarrow> fs_cache" where
  "fsc_demo c t =
     (fsc_init fsc_demo_stream [0, 0, 0, 0])
       \<lparr>fc_cache := [7, 0, 0, 0], fc_wt := 1, fc_in := [7], fc_client := c, fc_thread := t,
        fc_flush := (\<exists>a. c = C_WaitFlush a), fc_exit := (c = C_Join)\<rparr>"

lemma fsc_demo_written: "fsc_reach (fsc_init fsc_demo_stream [0, 0, 0, 0]) (fsc_demo C_Idle T_Wait)"
proof -
  let ?i = "fsc_init fsc_demo_stream [0, 0, 0, 0]"
  have 1: "fsc_step ?i (?i\<lparr>fc_client := C_Head [7]\<rparr>)" (is "fsc_step _ ?a")
    by (rule c_write) (simp_all add: fsc_init_def)
  have 2: "fsc_step ?a (?a\<lparr>fc_client := C_Got [7] (fc_rd ?a)\<rparr>)" (is "fsc_step _ ?b")
    by (rule c_load) simp
  have 3: "fsc_step ?b (?b\<lparr>fc_cache := [7, 0, 0, 0], fc_client := C_Copied [7] 1\<rparr>)"
    (is "fsc_step _ ?c")
    by (rule c_copy [where r = 0 and free = 3])
      (simp_all add: fsc_init_def fsc_try_def mem_simps mem_put_def)
  have 4: "fsc_step ?c (?c\<lparr>fc_wt := 1, fc_client := C_Idle, fc_in := fc_in ?c @ [7]\<rparr>)"
    (is "fsc_step _ ?d")
    by (rule c_publish) simp
  have d: "?d = fsc_demo C_Idle T_Wait" by (simp add: fsc_demo_def fsc_init_def)
  have "fsc_reach ?i ?d"
    by (rule fsc_reach.more [OF fsc_reach.more [OF fsc_reach.more [OF fsc_reach.more [OF start 1] 2] 3] 4])
  then show ?thesis unfolding d .
qed

lemma fsc_demo_thread:
  assumes "fsc_reach i (fsc_demo c T_Wait)" "c = C_Join \<or> c = C_WaitFlush a"
  shows "fsc_reach i (fsc_demo c T_Flush)"
proof -
  have 1: "fsc_step (fsc_demo c T_Wait) (fsc_demo c T_Loop)"
    using t_start [of "fsc_demo c T_Wait"] by (simp add: fsc_demo_def fsc_init_def)
  have 2: "fsc_step (fsc_demo c T_Loop) (fsc_demo c (T_Got 1))"
    using t_load [of "fsc_demo c T_Loop"] by (simp add: fsc_demo_def fsc_init_def)
  have 3: "fsc_step (fsc_demo c (T_Got 1)) (fsc_demo c T_Flush)"
    using t_none [of "fsc_demo c (T_Got 1)" 1]
    by (simp add: fsc_demo_def fsc_init_def fsc_plan_def WRITE_BLOCK_SIZE_def)
  show ?thesis
    by (rule fsc_reach.more [OF fsc_reach.more [OF fsc_reach.more [OF assms(1) 1] 2] 3])
qed

lemma fsc_demo_flushing:
  "fsc_reach (fsc_init fsc_demo_stream [0, 0, 0, 0]) (fsc_demo (C_WaitFlush A_Flush) T_Flush)"
proof -
  have "fsc_step (fsc_demo C_Idle T_Wait) (fsc_demo (C_WaitFlush A_Flush) T_Wait)"
    using c_flush [of "fsc_demo C_Idle T_Wait" A_Flush] by (simp add: fsc_demo_def fsc_init_def)
  from fsc_demo_thread [OF fsc_reach.more [OF fsc_demo_written this]] show ?thesis by blast
qed

lemma fsc_demo_inv: "fsc_inv (fsc_init fsc_demo_stream [0, 0, 0, 0])"
  by (rule fsc_inv_init) simp_all

theorem fs_cache_keeps_order_witness:
  "\<not> fc_fault (fsc_demo C_Idle T_Wait) \<and>
    (\<exists>held. fc_in (fsc_demo C_Idle T_Wait) = fc_passed (fsc_demo C_Idle T_Wait) @ held \<and>
       length held < 4)"
  using fs_cache_keeps_order [OF _ _ fsc_demo_written] by (simp add: fsc_demo_def fsc_init_def)

theorem fs_cache_flush_complete_witness:
  "\<exists>s. fsc_reach (fsc_init fsc_demo_stream [0, 0, 0, 0]) s \<and> fc_in s = [7] \<and> fc_passed s = [7]"
proof -
  let ?i = "fsc_init fsc_demo_stream [0, 0, 0, 0]" and ?s = "fsc_demo (C_WaitFlush A_Flush) T_Flush"
  have t: "fc_thread ?s = T_Flush" "fc_flush ?s" by (simp_all add: fsc_demo_def)
  obtain s1 where d: "fsc_drain ?s = Some s1"
    by (rule fsc_drain_returns [OF fsc_reach_inv [OF fsc_demo_flushing fsc_demo_inv]])
      (use t(1) in \<open>simp_all add: fsc_demo_def fsc_init_def fsc_demo_stream_def not_stalled_def demo_outcomes_go_on\<close>)
  let ?s2 = "(fsc_flush_done s1)\<lparr>fc_thread := T_Exit\<rparr>"
  have step: "fsc_step ?s ?s2" using t_flush [OF t d] .
  then have r2: "fsc_reach ?i ?s2" by (rule fsc_reach.more [OF fsc_demo_flushing])
  have f: "fc_client s1 = C_WaitFlush A_Flush \<and> fc_in s1 = [7]"
    using d by (auto simp: fsc_drain_def fsc_emit_def fsc_signal_def fsc_demo_def fsc_init_def
        bind_eq_Some_conv split: if_splits prod.splits)
  let ?s3 = "?s2\<lparr>fc_flush_done := fc_flush_done ?s2 - 1, fc_client := C_After A_Flush\<rparr>"
  have "fc_client ?s2 = C_WaitFlush A_Flush" "fc_flush_done ?s2 > 0" "fc_in ?s3 = [7]"
    using f by (simp_all add: fsc_flush_done_def Let_def)
  moreover from this have s3: "fsc_step ?s2 ?s3" by (intro c_flushed)
  ultimately have "fc_passed ?s3 = [7]"
    using fs_cache_flush_complete [OF _ _ r2 s3] by simp
  with \<open>fc_in ?s3 = [7]\<close> fsc_reach.more [OF r2 s3] show ?thesis by blast
qed

theorem fs_cache_exit_complete_witness:
  "\<exists>s. fsc_reach (fsc_init fsc_demo_stream [0, 0, 0, 0]) s \<and> fc_in s = [7] \<and> fc_passed s = [7]"
proof -
  let ?i = "fsc_init fsc_demo_stream [0, 0, 0, 0]" and ?s = "fsc_demo C_Join T_Exit"
  have "fsc_step (fsc_demo C_Idle T_Wait) (fsc_demo C_Join T_Wait)"
    using c_exit [of "fsc_demo C_Idle T_Wait"] by (simp add: fsc_demo_def fsc_init_def)
  from fsc_demo_thread [OF fsc_reach.more [OF fsc_demo_written this]]
  have "fsc_reach ?i (fsc_demo C_Join T_Flush)" by blast
  moreover have "fsc_step (fsc_demo C_Join T_Flush) ?s"
    using t_no_flush [of "fsc_demo C_Join T_Flush"] by (simp add: fsc_demo_def fsc_init_def)
  ultimately have r: "fsc_reach ?i ?s" by (rule fsc_reach.more)
  have t: "fc_thread ?s = T_Exit" "fc_exit ?s" by (simp_all add: fsc_demo_def)
  obtain s1 where d: "fsc_drain ?s = Some s1"
    by (rule fsc_drain_returns [OF fsc_reach_inv [OF r fsc_demo_inv]])
      (use t(1) in \<open>simp_all add: fsc_demo_def fsc_init_def fsc_demo_stream_def not_stalled_def demo_outcomes_go_on\<close>)
  let ?s2 = "s1\<lparr>fc_thread := T_Done\<rparr>"
  have r2: "fsc_reach ?i ?s2" using r t_exit [OF t d] by (rule fsc_reach.more)
  have "fc_in ?s2 = [7]"
    using d by (auto simp: fsc_drain_def fsc_emit_def fsc_signal_def fsc_demo_def fsc_init_def
        bind_eq_Some_conv split: if_splits prod.splits)
  moreover have "fc_passed ?s2 = fc_in ?s2"
    by (rule fs_cache_exit_complete [OF _ _ r2]) simp_all
  ultimately show ?thesis using r2 by (intro exI [of _ ?s2]) simp
qed

section \<open>A writer that waits for ever\<close>

text \<open>
  The thread signals \<open>mWriteDoneSem\<close> only after it has written something, and without a flush
  it writes whole blocks only. A client that waits for room while less than a block is in the
  cache is therefore never signalled: every step but a wake-up without a signal leads to a
  state of the same kind.
\<close>

definition fsc_stuck :: "byte list \<Rightarrow> nat \<Rightarrow> fs_cache \<Rightarrow> bool" where
  "fsc_stuck xs k s \<longleftrightarrow> fc_client s = C_WaitDone xs \<and> fc_signals s = k \<and> \<not> fc_flush s \<and>
     \<not> fc_exit s \<and> fc_rd s \<le> fc_wt s \<and> fc_wt s - fc_rd s < WRITE_BLOCK_SIZE \<and>
     (case fc_thread s of T_Got w \<Rightarrow> w = fc_wt s | T_Wrote r \<Rightarrow> False | T_Done \<Rightarrow> False | _ \<Rightarrow> True)"

lemma fsc_stuck_step:
  assumes "fsc_step s s'" and "fsc_stuck xs k s"
  shows "fsc_stuck xs k s' \<or> s' = s\<lparr>fc_client := C_Head xs\<rparr>"
  using assms
  by (cases rule: fsc_step.cases; elim fsc_client_step.cases fsc_thread_step.cases)
    (auto simp: fsc_stuck_def fsc_plan_def Let_def cong: wthread.case_cong)

text \<open>
  Such a state is reached at once by a client that writes more than the cache holds.
\<close>

lemma fsc_stuck_reachable:
  assumes "length cache \<le> length xs" "xs \<noteq> []"
  shows "\<exists>s. fsc_reach (fsc_init st cache) s \<and> fsc_stuck xs 0 s \<and> fsc_size s = length cache"
proof -
  let ?i = "fsc_init st cache"
  have "fsc_step ?i (?i\<lparr>fc_client := C_Head xs\<rparr>)" (is "fsc_step _ ?a")
    by (rule c_write) (use assms in \<open>simp_all add: fsc_init_def\<close>)
  moreover have "fsc_step ?a (?a\<lparr>fc_client := C_Got xs (fc_rd ?a)\<rparr>)" (is "fsc_step _ ?b")
    by (rule c_load) simp
  moreover have "fsc_step ?b (?b\<lparr>fc_client := C_WaitDone xs\<rparr>)"
  proof (rule c_full)
    show "fsc_try (fc_cache ?b) 0 (fc_wt ?b) xs = Some None"
    proof (cases "cache = []")
      case False
      then have "\<not> length xs \<le> length cache - 1" using assms by (cases cache) auto
      then show ?thesis using False by (simp add: fsc_try_def fsc_init_def Let_def)
    qed (use assms in \<open>simp add: fsc_try_def fsc_init_def Let_def\<close>)
  qed (simp add: fsc_init_def)
  ultimately have "fsc_reach ?i (?b\<lparr>fc_client := C_WaitDone xs\<rparr>)"
    by (meson fsc_reach.intros)
  moreover have "fsc_stuck xs 0 (?b\<lparr>fc_client := C_WaitDone xs\<rparr>)"
    by (simp add: fsc_stuck_def fsc_init_def WRITE_BLOCK_SIZE_def)
  moreover have "fsc_size (?b\<lparr>fc_client := C_WaitDone xs\<rparr>) = length cache"
    by (simp add: fsc_size_def fsc_init_def)
  ultimately show ?thesis by blast
qed

text \<open>The waiting client sees no signal, however long it waits.\<close>

lemma fsc_stuck_run:
  "(\<lambda>u v. fsc_step u v \<and> fc_client v = C_WaitDone xs)\<^sup>*\<^sup>* s s' \<Longrightarrow> fsc_stuck xs k s \<Longrightarrow> fsc_stuck xs k s'"
proof (induction rule: rtranclp_induct)
  case (step u v)
  then show ?case using fsc_stuck_step [of u v xs k] by auto
qed

text \<open>A write that does not fit into the cache is tried again for ever.\<close>

definition fsc_trying :: "byte list \<Rightarrow> fs_cache \<Rightarrow> bool" where
  "fsc_trying xs s \<longleftrightarrow> fsc_inv s \<and> fsc_size s \<le> length xs \<and>
     fc_client s \<in> {C_WaitDone xs, C_Head xs} \<union> range (C_Got xs)"

lemma fsc_thread_step_frame:
  "fsc_thread_step s s' \<Longrightarrow> fsc_size s' = fsc_size s \<and> fc_client s' = fc_client s"
  by (induction rule: fsc_thread_step.induct)
    (auto simp: fsc_emit_def fsc_drain_def fsc_signal_def fsc_flush_done_def fsc_size_def
      bind_eq_Some_conv Let_def split: if_splits prod.splits)

lemma fsc_client_step_trying:
  assumes "fsc_client_step s s'" "fsc_trying xs s"
  shows "fsc_size s' = fsc_size s \<and> fc_client s' \<in> {C_WaitDone xs, C_Head xs} \<union> range (C_Got xs)"
proof (use assms in \<open>cases rule: fsc_client_step.cases\<close>)
  case (c_copy ys r cache wt free)
  then have "ys = xs" using assms(2) by (auto simp: fsc_trying_def)
  moreover have p: "r < length (fc_cache s)" "fc_wt s < length (fc_cache s)"
    using assms(2) c_copy(2) by (auto simp: fsc_trying_def fsc_inv_def fsc_parts fsc_size_def)
  ultimately show ?thesis
    using c_copy(3) assms(2) by (cases rule: fsc_try_cases [OF p, of ys]) (auto simp: fsc_trying_def fsc_size_def)
qed (auto simp: fsc_trying_def fsc_size_def)

lemma fsc_trying_step: "fsc_step s s' \<Longrightarrow> fsc_trying xs s \<Longrightarrow> fsc_trying xs s'"
  using fsc_step_inv [of s s'] fsc_client_step_trying [of s s' xs] fsc_thread_step_frame [of s s']
  by (auto simp: fsc_trying_def elim: fsc_step.cases)

lemma fsc_trying_reach: "fsc_reach s s' \<Longrightarrow> fsc_trying xs s \<Longrightarrow> fsc_trying xs s'"
  by (induction rule: fsc_reach.induct) (auto intro: fsc_trying_step)

text \<open>
  C33: a client that writes at least as many bytes as the cache holds reaches a wait in which it
  is never signalled: in every run, however long, during which it keeps waiting, no signal is
  given. Should the wait end all the same, the client looks again and waits again: from there
  on it is for ever in the loop of this write, which never returns.
\<close>

theorem fs_cache_large_write_waits:
  assumes "cache \<noteq> []" and "length cache < 2 ^ 31" and "length cache \<le> length xs"
  shows "\<exists>s. fsc_reach (fsc_init st cache) s \<and> fc_client s = C_WaitDone xs \<and>
    (\<forall>s'. (\<lambda>u v. fsc_step u v \<and> fc_client v = C_WaitDone xs)\<^sup>*\<^sup>* s s' \<longrightarrow> fc_signals s' = fc_signals s) \<and>
    (\<forall>s'. fsc_reach s s' \<longrightarrow> fc_client s' \<in> {C_WaitDone xs, C_Head xs} \<union> range (C_Got xs))"
proof -
  have "xs \<noteq> []" using assms by (cases xs) auto
  with fsc_stuck_reachable [OF assms(3)] obtain s where
    s: "fsc_reach (fsc_init st cache) s" "fsc_stuck xs 0 s" "fsc_size s = length cache" by blast
  have "fsc_inv s" using fsc_reach_inv [OF s(1) fsc_inv_init [OF assms(1,2)]] .
  then have "fsc_trying xs s" using s(2,3) assms(3) by (simp add: fsc_trying_def fsc_stuck_def)
  then have c: "fc_client s' \<in> {C_WaitDone xs, C_Head xs} \<union> range (C_Got xs)" if "fsc_reach s s'" for s'
    using fsc_trying_reach [OF that] by (simp add: fsc_trying_def)
  have k: "fc_signals s' = fc_signals s"
    if "(\<lambda>u v. fsc_step u v \<and> fc_client v = C_WaitDone xs)\<^sup>*\<^sup>* s s'" for s'
    using fsc_stuck_run [OF that s(2)] s(2) by (simp add: fsc_stuck_def)
  have "fc_client s = C_WaitDone xs" using s(2) by (simp add: fsc_stuck_def)
  with s(1) show ?thesis
    by (intro exI [of _ s] conjI allI impI) (assumption | erule k | erule c)+
qed

theorem fs_cache_large_write_waits_witness:
  "\<exists>s. fsc_reach (fsc_init fsc_demo_stream [0, 0]) s \<and> fc_client s = C_WaitDone [1, 2, 3] \<and>
    (\<forall>s'. fsc_reach s s' \<longrightarrow> fc_client s' \<noteq> C_Idle)"
proof -
  have "[0, 0] \<noteq> []" "length [0, 0 :: byte] < 2 ^ 31" "length [0, 0 :: byte] \<le> length [1, 2, 3 :: byte]" by simp_all
  from fs_cache_large_write_waits [OF this, of fsc_demo_stream] obtain s where
    s: "fsc_reach (fsc_init fsc_demo_stream [0, 0]) s" "fc_client s = C_WaitDone [1, 2, 3]"
      "\<And>s'. fsc_reach s s' \<Longrightarrow> fc_client s' \<in> {C_WaitDone [1, 2, 3], C_Head [1, 2, 3]} \<union> range (C_Got [1, 2, 3])"
    by blast
  have "fc_client s' \<noteq> C_Idle" if "fsc_reach s s'" for s' using s(3) [OF that] by auto
  with s(1,2) show ?thesis by blast
qed

end
