(* ===== verification/TsMux.thy ===== *)
theory TsMux
  imports TsCrc Ring FsWriter
begin

text \<open>
  The MPEG-2 transport stream muxer (libmuxer/mpeg2ts_muxer/Mpeg2tsMuxer.c): sections (PAT and
  PMT), the PCR packet, the cutting of a frame into packets of 188 bytes, and the packet cache
  of 1024 packets through which everything goes. In the file modes a full cache hands its 128
  oldest packets to \<open>fsWrite\<close>; \<open>ts_out\<close> is the list of these calls. In the callback mode the
  packets of a frame are handed to \<open>cdx_write2\<close> at its end; \<open>ts_cb\<close> is the list of these.
  An operation has the value \<open>None\<close> when a copy would leave the cache. C \<open>int\<close>s that only feed
  shifts and masks are 32-bit words; sizes and counters that stay small are numbers.
\<close>

definition TS_PACKET_SIZE :: nat where "TS_PACKET_SIZE = 188"
definition TS_CACHE_SIZE :: nat where "TS_CACHE_SIZE = 188 * 1024"

datatype codec_id =
    CODEC_ID_H264 | CODEC_ID_H265 | CODEC_ID_AAC | CODEC_ID_ADPCM | CODEC_ID_GGAD | CODEC_ID_OTHER

datatype codec_type = CODEC_TYPE_VIDEO | CODEC_TYPE_AUDIO | CODEC_TYPE_TEXT | CODEC_TYPE_DATA

datatype output_mode = OUTPUT_TS_FILE | OUTPUT_M3U8_FILE | OUTPUT_CALLBACK_BUFFER

text \<open>\<open>MpegTSSection\<close>, \<open>MpegTSService\<close> and the stream with its \<open>MpegTSWriteStream\<close>.\<close>

record ts_section =
  sec_pid :: u32
  sec_cc :: u32

record ts_service =
  svc_pmt :: ts_section
  svc_sid :: u32
  svc_pcr_pid :: u32

record ts_stream =
  st_codec :: codec_id
  st_type :: codec_type
  st_channels :: u32
  st_sample_rate :: u32
  st_pid :: u32
  st_cc :: u32
  st_vos :: "byte list"
  st_first :: bool

record ts_mux =
  ts_mode :: output_mode
  ts_pat :: ts_section
  ts_services :: "ts_service list"
  ts_tsid :: u32
  ts_streams :: "ts_stream list"
  pat_packet_count :: nat
  pat_packet_period :: nat
  pat_pmt_counter :: nat
  pat_pmt_flag :: bool
  pcr_counter :: u32
  ts_cache :: "byte list"
  ts_wr :: nat
  ts_rd :: nat
  cache_size :: nat
  cache_size_total :: nat
  cache_page_num :: nat
  ts_out :: "byte list list"
  ts_cb :: "byte list list"

section \<open>The packet cache\<close>

text \<open>
  The end of the loops of \<open>mpegts_write_section\<close> and \<open>mpegts_write_pes\<close> and of
  \<open>wirte_pcr_table\<close>: a packet goes into the cache, and a full cache is written in part.
\<close>

definition ts_put :: "ts_mux \<Rightarrow> byte list \<Rightarrow> ts_mux option" where
  "ts_put t pkt =
     do {
       b \<leftarrow> mem_write (ts_cache t) (ts_wr t) pkt;
       let wr = ts_wr t + TS_PACKET_SIZE;
       let t1 = t\<lparr>ts_cache := b, cache_size := cache_size t + TS_PACKET_SIZE,
                  cache_size_total := cache_size_total t + TS_PACKET_SIZE,
                  ts_wr := (if wr > TS_CACHE_SIZE - 1 then 0 else wr)\<rparr>;
       (if ts_mode t1 \<noteq> OUTPUT_CALLBACK_BUFFER \<and> cache_size t1 \<ge> 1024 * TS_PACKET_SIZE
        then do {
          xs \<leftarrow> mem_read (ts_cache t1) (ts_rd t1) (TS_PACKET_SIZE * 128);
          let rd = ts_rd t1 + TS_PACKET_SIZE * 128;
          Some (t1\<lparr>ts_out := ts_out t1 @ [xs],
                   cache_size := cache_size t1 - TS_PACKET_SIZE * 128,
                   cache_page_num := cache_page_num t1 + 1,
                   ts_rd := (if rd > TS_CACHE_SIZE - 1 then 0 else rd)\<rparr>)
        }
        else Some t1)
     }"

fun ts_puts :: "ts_mux \<Rightarrow> byte list list \<Rightarrow> ts_mux option" where
  "ts_puts t [] = Some t"
| "ts_puts t (p # ps) = do { t1 \<leftarrow> ts_put t p; ts_puts t1 ps }"

section \<open>Sections\<close>

definition put16 :: "u32 \<Rightarrow> byte list" where
  "put16 val = [ucast (drop_bit 8 val), ucast val]"

text \<open>
  One packet of a section: sync byte, start flag and PID, continuity counter, pointer field
  in the first packet, a piece of the section, padding.
\<close>

definition section_len :: "bool \<Rightarrow> byte list \<Rightarrow> nat" where
  "section_len first buf = min (TS_PACKET_SIZE - (if first then 5 else 4)) (length buf)"

definition section_packet :: "u32 \<Rightarrow> u32 \<Rightarrow> bool \<Rightarrow> byte list \<Rightarrow> byte list" where
  "section_packet pid cc first chunk =
     (let b = (if first then or (drop_bit 8 pid) 0x40 else drop_bit 8 pid);
          hdr = [0x47, ucast b, ucast pid, ucast (or 0x10 cc)] @ (if first then [0] else [])
      in hdr @ chunk @ replicate (TS_PACKET_SIZE - length hdr - length chunk) 0xff)"

text \<open>The packets of a section that carries its checksum, and the new continuity counter.\<close>

function section_packets ::
  "u32 \<Rightarrow> u32 \<Rightarrow> bool \<Rightarrow> byte list \<Rightarrow> byte list list \<times> u32" where
  "section_packets pid cc first buf =
     (if buf = [] then ([], cc)
      else
        let cc' = and (cc + 1) 0xf;
            len1 = section_len first buf;
            (ps, c) = section_packets pid cc' False (drop len1 buf)
        in (section_packet pid cc' first (take len1 buf) # ps, c))"
  by pat_completeness auto
termination
  by (relation "measure (\<lambda>(_, _, _, buf). length buf)")
    (auto simp: section_len_def TS_PACKET_SIZE_def)

text \<open>\<open>buf\<close> has room for the checksum in its last four bytes.\<close>

definition mpegts_write_section ::
  "ts_mux \<Rightarrow> ts_section \<Rightarrow> byte list \<Rightarrow> (ts_section \<times> ts_mux) option" where
  "mpegts_write_section t s buf =
     (let crc = GenerateCRC32 (take (length buf - 4) buf);
          (ps, cc) = section_packets (sec_pid s) (sec_cc s) True
                       (take (length buf - 4) buf @ crc_bytes crc)
      in do { t' \<leftarrow> ts_puts t ps; Some (s\<lparr>sec_cc := cc\<rparr>, t') })"

definition section_header :: "u32 \<Rightarrow> u32 \<Rightarrow> u32 \<Rightarrow> u32 \<Rightarrow> u32 \<Rightarrow> nat \<Rightarrow> byte list" where
  "section_header tid id' version sec_num last_sec_num len =
     [ucast tid] @ put16 (or 0xb000 (of_nat (len + 5 + 4))) @ put16 id' @
     [ucast (or 0xc1 (push_bit 1 version)), ucast sec_num, ucast last_sec_num]"

text \<open>The result \<open>-1\<close> for a section that is too long is \<open>False\<close>.\<close>

definition mpegts_write_section1 ::
  "ts_mux \<Rightarrow> ts_section \<Rightarrow> u32 \<Rightarrow> u32 \<Rightarrow> u32 \<Rightarrow> u32 \<Rightarrow> u32 \<Rightarrow> byte list \<Rightarrow>
    (bool \<times> ts_section \<times> ts_mux) option" where
  "mpegts_write_section1 t s tid id' version sec_num last_sec_num buf =
     (if 3 + 5 + length buf + 4 > 1024 then Some (False, s, t)
      else do {
        (s', t') \<leftarrow> mpegts_write_section t s
           (section_header tid id' version sec_num last_sec_num (length buf) @ buf @ [0, 0, 0, 0]);
        Some (True, s', t')
      })"

definition PAT_TID :: u32 where "PAT_TID = 0"
definition PMT_TID :: u32 where "PMT_TID = 2"

definition pat_data :: "ts_service list \<Rightarrow> byte list" where
  "pat_data svcs =
     concat (map (\<lambda>v. put16 (svc_sid v) @ put16 (or 0xe000 (sec_pid (svc_pmt v)))) svcs)"

definition mpegts_write_pat :: "ts_mux \<Rightarrow> ts_mux option" where
  "mpegts_write_pat t =
     do {
       (_, s, t') \<leftarrow> mpegts_write_section1 t (ts_pat t) PAT_TID (ts_tsid t) 1 0 0
                       (pat_data (ts_services t));
       Some (t'\<lparr>ts_pat := s\<rparr>)
     }"

text \<open>
  The stream type is a variable outside the loop over the streams: a codec that the \<open>switch\<close>
  does not know keeps the type of the stream before it (\<open>-1\<close> at first).
\<close>

definition stream_type :: "u32 \<Rightarrow> codec_id \<Rightarrow> u32" where
  "stream_type old c =
     (case c of
        CODEC_ID_H264 \<Rightarrow> 0x1b
      | CODEC_ID_H265 \<Rightarrow> 0x24
      | CODEC_ID_AAC \<Rightarrow> 0x0f
      | CODEC_ID_ADPCM \<Rightarrow> 0x83
      | CODEC_ID_GGAD \<Rightarrow> 0x06
      | CODEC_ID_OTHER \<Rightarrow> old)"

fun pmt_streams :: "u32 \<Rightarrow> ts_stream list \<Rightarrow> byte list" where
  "pmt_streams old [] = []"
| "pmt_streams old (st # sts) =
     (let ty = stream_type old (st_codec st);
          desc = (if ty = 0x83 then [0x83, 0x02, 0x46, 0x3F] else [])
      in [ucast ty] @ put16 (or 0xe000 (st_pid st)) @
         put16 (or 0xf000 (of_nat (length desc))) @ desc @ pmt_streams ty sts)"

definition pmt_data :: "ts_service \<Rightarrow> ts_stream list \<Rightarrow> byte list" where
  "pmt_data svc sts =
     put16 (or 0xe000 (svc_pcr_pid svc)) @ put16 (or 0xf000 0) @ pmt_streams (- 1) sts"

definition mpegts_write_pmt :: "ts_mux \<Rightarrow> nat \<Rightarrow> ts_mux option" where
  "mpegts_write_pmt t i =
     (let svc = ts_services t ! i
      in do {
        (_, s, t') \<leftarrow> mpegts_write_section1 t (svc_pmt svc) PMT_TID (svc_sid svc) 1 0 0
                        (pmt_data svc (ts_streams t));
        Some (t'\<lparr>ts_services := (ts_services t')[i := svc\<lparr>svc_pmt := s\<rparr>]\<rparr>)
      })"

fun write_pmts :: "ts_mux \<Rightarrow> nat list \<Rightarrow> ts_mux option" where
  "write_pmts t [] = Some t"
| "write_pmts t (i # is) = do { t1 \<leftarrow> mpegts_write_pmt t i; write_pmts t1 is }"

text \<open>The PCR packet. Its clock reference is the 64-bit presentation time.\<close>

definition pcr_packet :: "u32 \<Rightarrow> u64 \<Rightarrow> byte list" where
  "pcr_packet counter pts =
     [0x47, 0x50, 0x00, ucast (or 0x20 counter), 0xB7, 0x10,
      ucast (drop_bit 25 pts), ucast (drop_bit 17 pts), ucast (drop_bit 9 pts),
      ucast (drop_bit 1 pts), ucast (push_bit 7 (and pts 1)), 0] @
     replicate (TS_PACKET_SIZE - 12) 0xff"

definition wirte_pcr_table :: "ts_mux \<Rightarrow> u64 \<Rightarrow> ts_mux option" where
  "wirte_pcr_table t pts =
     ts_put (t\<lparr>pcr_counter := and (pcr_counter t + 1) 0x0f\<rparr>) (pcr_packet (pcr_counter t) pts)"

definition retransmit_si_info :: "ts_mux \<Rightarrow> u64 \<Rightarrow> codec_type \<Rightarrow> ts_mux option" where
  "retransmit_si_info t pts idx =
     (if ts_mode t = OUTPUT_CALLBACK_BUFFER
      then do {
        t1 \<leftarrow> (if pat_pmt_counter t = 4 \<or> pat_pmt_flag t
               then do {
                 t1 \<leftarrow> mpegts_write_pat (t\<lparr>pat_pmt_counter := 0, pat_pmt_flag := False\<rparr>);
                 write_pmts t1 [0..<length (ts_services t1)]
               }
               else Some t);
        (if idx = CODEC_TYPE_VIDEO then wirte_pcr_table t1 pts else Some t1)
      }
      else if pat_packet_count t = pat_packet_period t
      then do {
        t1 \<leftarrow> mpegts_write_pat (t\<lparr>pat_packet_count := 0\<rparr>);
        t2 \<leftarrow> write_pmts t1 [0..<length (ts_services t1)];
        wirte_pcr_table t2 pts
      }
      else Some t)"

section \<open>Packetised elementary streams\<close>

definition write_pts :: "u32 \<Rightarrow> u64 \<Rightarrow> byte list" where
  "write_pts fourbits pts =
     (let v1 = or (or (push_bit 4 (ucast fourbits)) (push_bit 1 (and (drop_bit 30 pts) 0x07))) 1;
          v2 = or (push_bit 1 (and (drop_bit 15 pts) 0x7fff)) 1;
          v3 = or (push_bit 1 (and pts 0x7fff)) 1
      in [ucast v1, ucast (drop_bit 8 v2), ucast v2, ucast (drop_bit 8 v3), ucast (v3 :: u64)])"

text \<open>
  The PES header: start code, stream id, length (0 when it does not fit), and for all but the
  GPS data the optional header with the time stamp and two stuffing bytes.
  \<open>CODEC_TYPE_SUBTITLE\<close> is a macro with the value of \<open>CODEC_TYPE_DATA\<close>.
\<close>

definition pes_header :: "codec_id \<Rightarrow> codec_type \<Rightarrow> nat \<Rightarrow> u64 \<Rightarrow> byte list" where
  "pes_header codec ctype payload_size pts =
     [0x00, 0x00, 0x01] @
     (case codec of
        CODEC_ID_H264 \<Rightarrow> [0xe0]
      | CODEC_ID_H265 \<Rightarrow> [0xe0]
      | CODEC_ID_ADPCM \<Rightarrow> [0xBD]
      | CODEC_ID_AAC \<Rightarrow> [0xc0]
      | CODEC_ID_GGAD \<Rightarrow> [0xBF]
      | CODEC_ID_OTHER \<Rightarrow> []) @
     (if codec \<noteq> CODEC_ID_GGAD
      then
        let header_len = (if pts \<noteq> - 1 then 5 + 2 else 0);
            flags = (if pts \<noteq> - 1 then 0x80 else 0 :: u32);
            len = payload_size + header_len + 3;
            len' = (if len > 0xffff then 0 else len);
            val = (if ctype = CODEC_TYPE_DATA then 0x84 else 0x80)
        in put16 (of_nat len') @ [val, ucast flags, of_nat header_len] @
           (if pts \<noteq> - 1 then write_pts (drop_bit 6 flags) pts else []) @ [0xFF, 0xFF]
      else put16 (of_nat payload_size))"

text \<open>
  One packet of a frame. A packet that is not filled gets an adaptation field of stuffing
  bytes behind its fourth byte; \<open>write_pcr\<close> is always 0, so no packet has such a field before.
\<close>

definition pes_len :: "byte list \<Rightarrow> byte list \<Rightarrow> nat" where
  "pes_len hdr payload = min (TS_PACKET_SIZE - (4 + length hdr)) (length payload)"

definition pes_stuffing :: "nat \<Rightarrow> byte list" where
  "pes_stuffing stuffing_len =
     (if stuffing_len > 0
      then [of_nat (stuffing_len - 1)] @
           (if stuffing_len \<ge> 2 then [0x00] @ replicate (stuffing_len - 2) 0xff else [])
      else [])"

definition pes_packet :: "u32 \<Rightarrow> u32 \<Rightarrow> bool \<Rightarrow> byte list \<Rightarrow> byte list \<Rightarrow> byte list" where
  "pes_packet pid cc is_start hdr chunk =
     (let val = (if is_start then or (drop_bit 8 pid) 0x40 else drop_bit 8 pid);
          stuffing_len = TS_PACKET_SIZE - (4 + length hdr) - length chunk;
          b3 = (if stuffing_len > 0 then or (or 0x10 cc) 0x20 else or 0x10 cc)
      in [0x47, ucast val, ucast pid, ucast b3] @ pes_stuffing stuffing_len @ hdr @ chunk)"

function pes_packets ::
  "u32 \<Rightarrow> u32 \<Rightarrow> byte list \<Rightarrow> bool \<Rightarrow> byte list \<Rightarrow> byte list list \<times> u32" where
  "pes_packets pid cc pes_hdr is_start payload =
     (if payload = [] then ([], cc)
      else
        let cc' = and (cc + 1) 0xf;
            hdr = (if is_start then pes_hdr else []);
            len = pes_len hdr payload;
            (ps, c) = pes_packets pid cc' pes_hdr False (drop len payload)
        in (pes_packet pid cc' is_start hdr (take len payload) # ps, c))"
  by pat_completeness auto
termination
  by (relation "measure (\<lambda>(_, _, _, is_start, payload).
        2 * length payload + (if is_start then 1 else 0))")
    (auto simp: pes_len_def TS_PACKET_SIZE_def)

definition mpegts_write_pes ::
  "ts_mux \<Rightarrow> nat \<Rightarrow> byte list \<Rightarrow> u64 \<Rightarrow> codec_type \<Rightarrow> ts_mux option" where
  "mpegts_write_pes t i payload pts idx =
     (let st = (ts_streams t ! i)\<lparr>st_cc := 0\<rparr>
      in do {
        t1 \<leftarrow> (if idx \<noteq> CODEC_TYPE_TEXT
               then do {
                 t1 \<leftarrow> retransmit_si_info t pts idx;
                 Some (t1\<lparr>pat_packet_count := pat_packet_count t1 + 1\<rparr>)
               }
               else Some t);
        let (ps, cc) = pes_packets (st_pid st) (st_cc st)
                         (pes_header (st_codec st) (st_type st) (length payload) pts) True payload;
        t2 \<leftarrow> ts_puts t1 ps;
        let t3 = t2\<lparr>ts_streams := (ts_streams t2)[i := st\<lparr>st_cc := cc\<rparr>]\<rparr>;
        (if ts_mode t3 = OUTPUT_CALLBACK_BUFFER
         then do {
           xs \<leftarrow> mem_read (ts_cache t3) (ts_rd t3) (cache_size t3);
           Some (t3\<lparr>ts_cb := ts_cb t3 @ [xs], ts_wr := 0, ts_rd := 0, cache_size := 0,
                    cache_page_num := 0, cache_size_total := 0\<rparr>)
         }
         else Some t3)
      })"

text \<open>The rest of the cache at the end of a file.\<close>

fun trailer_loop :: "nat \<Rightarrow> ts_mux \<Rightarrow> ts_mux option" where
  "trailer_loop 0 t = Some t"
| "trailer_loop (Suc n) t =
     (let rd = (if ts_rd t > TS_CACHE_SIZE - 1 then 0 else ts_rd t)
      in do {
        xs \<leftarrow> mem_read (ts_cache t) rd TS_PACKET_SIZE;
        trailer_loop n (t\<lparr>ts_out := ts_out t @ [xs], ts_rd := rd + TS_PACKET_SIZE\<rparr>)
      })"

definition ts_write_trailer :: "ts_mux \<Rightarrow> ts_mux option" where
  "ts_write_trailer t =
     (if ts_mode t = OUTPUT_CALLBACK_BUFFER then Some t
      else do {
        t1 \<leftarrow> trailer_loop (cache_size_total t div TS_PACKET_SIZE - cache_page_num t * 128) t;
        Some (t1\<lparr>ts_wr := 0, ts_rd := 0, cache_size := 0, cache_page_num := 0,
                 cache_size_total := 0\<rparr>)
      })"

section \<open>The cache keeps the packets in order\<close>

text \<open>
  In the file modes: everything written so far, and what is still in the cache. The read index
  is a multiple of 128 packets, so the piece written is never cut by the end of the cache.
\<close>

definition ts_file_inv :: "ts_mux \<Rightarrow> bool" where
  "ts_file_inv t \<longleftrightarrow> ts_mode t \<noteq> OUTPUT_CALLBACK_BUFFER \<and>
     length (ts_cache t) = TS_CACHE_SIZE \<and>
     ts_rd t < TS_CACHE_SIZE \<and> 188 * 128 dvd ts_rd t \<and>
     cache_size t \<le> 188 * 1023 \<and> 188 dvd cache_size t \<and>
     ts_wr t = (ts_rd t + cache_size t) mod TS_CACHE_SIZE \<and>
     cache_size_total t = cache_page_num t * (188 * 128) + cache_size t"

definition ts_written :: "ts_mux \<Rightarrow> byte list" where
  "ts_written t = concat (ts_out t) @ ring_read (ts_cache t) (ts_rd t) (cache_size t)"

lemma aligned_room: "d dvd n \<Longrightarrow> d dvd p \<Longrightarrow> p < n \<Longrightarrow> p + d \<le> (n :: nat)"
  by (metis dvd_diff_nat dvd_imp_le le_add_diff_inverse less_imp_le_nat nat_add_left_cancel_le
      zero_less_diff)

lemma aligned_wrap:
  "d dvd n \<Longrightarrow> d dvd p \<Longrightarrow> p < n \<Longrightarrow> (if p + d > n - 1 then 0 else p + d) = (p + d) mod (n :: nat)"
  using aligned_room [of d n p] by (auto simp: le_less)

lemma ring_read_prefix:
  "p + k \<le> length buf \<Longrightarrow> ring_read buf p k = take k (drop p buf)"
  by (rule nth_equalityI) auto

lemma ts_put_file:
  assumes inv: "ts_file_inv t" and len: "length pkt = 188"
  obtains t' where "ts_put t pkt = Some t'" "ts_file_inv t'" "ts_written t' = ts_written t @ pkt"
    "t' = t\<lparr>ts_cache := ts_cache t', ts_wr := ts_wr t', ts_rd := ts_rd t',
            cache_size := cache_size t', cache_size_total := cache_size_total t',
            cache_page_num := cache_page_num t', ts_out := ts_out t'\<rparr>"
proof -
  let ?N = TS_CACHE_SIZE
  have N: "?N = 192512" "TS_PACKET_SIZE = 188" by (simp_all add: TS_CACHE_SIZE_def TS_PACKET_SIZE_def)
  have i: "length (ts_cache t) = ?N" "ts_rd t < ?N" "188 * 128 dvd ts_rd t"
    "cache_size t \<le> 188 * 1023" "188 dvd cache_size t"
    "ts_wr t = (ts_rd t + cache_size t) mod ?N" "ts_mode t \<noteq> OUTPUT_CALLBACK_BUFFER"
    "cache_size_total t = cache_page_num t * (188 * 128) + cache_size t"
    using inv by (simp_all add: ts_file_inv_def)
  have d188: "188 dvd ts_rd t" using i(3) by (rule dvd_mult_left)
  have dN: "188 dvd ?N" "188 * 128 dvd ?N" by (simp_all add: N)
  have wr: "ts_wr t < ?N" "188 dvd ts_wr t"
    using i(5,6) d188 dN(1) by (simp_all add: N dvd_mod)
  have fit: "ts_wr t + 188 \<le> ?N" using aligned_room [OF dN(1) wr(2,1)] .
  define b where "b = mem_put (ts_cache t) (ts_wr t) pkt"
  have b: "b = ring_write (ts_cache t) (ts_wr t) pkt"
    using fit len i(1) by (simp add: b_def ring_write_def Let_def)
  have bl: "length b = ?N" using fit len i(1) by (simp add: b_def)
  have ring: "ring_read b (ts_rd t) (cache_size t + 188) =
      ring_read (ts_cache t) (ts_rd t) (cache_size t) @ pkt"
    using ring_read_write_append [of "ts_rd t" "ts_cache t" "cache_size t" pkt] i len
    unfolding b by (simp add: N)
  let ?wr = "(if ts_wr t + 188 > ?N - 1 then 0 else ts_wr t + 188)"
  have wrap: "?wr = (ts_rd t + (cache_size t + 188)) mod ?N"
    using aligned_wrap [OF dN(1) wr(2,1)] mod_add_left_eq [of "ts_rd t + cache_size t" ?N 188]
    by (simp add: i(6) add.assoc)
  define t1 where "t1 = t\<lparr>ts_cache := b, cache_size := cache_size t + 188,
                  cache_size_total := cache_size_total t + 188, ts_wr := ?wr\<rparr>"
  have t1: "ts_put t pkt = (if cache_size t1 \<ge> 192512
        then do {
          xs \<leftarrow> mem_read (ts_cache t1) (ts_rd t1) (188 * 128);
          let rd = ts_rd t1 + 188 * 128;
          Some (t1\<lparr>ts_out := ts_out t1 @ [xs], cache_size := cache_size t1 - 188 * 128,
                   cache_page_num := cache_page_num t1 + 1,
                   ts_rd := (if rd > ?N - 1 then 0 else rd)\<rparr>)
        }
        else Some t1)"
    using fit len i(1,7) by (simp add: ts_put_def t1_def mem_simps Let_def N b_def [symmetric])
  show ?thesis
  proof (cases "cache_size t1 \<ge> 192512")
    case False
    have "cache_size t + 188 \<le> 188 * 1023"
    proof -
      from False have "cache_size t < 188 * 1023" by (simp add: t1_def)
      moreover have "188 dvd (188 * 1023 :: nat)" by simp
      ultimately show ?thesis using aligned_room i(5) by blast
    qed
    then have "ts_file_inv t1"
      using i wrap bl by (simp add: ts_file_inv_def t1_def)
    moreover have "ts_written t1 = ts_written t @ pkt"
      using ring by (simp add: ts_written_def t1_def)
    ultimately show ?thesis using that [of t1] t1 False by (simp add: t1_def)
  next
    case True
    then have full: "cache_size t + 188 = ?N" using i(4) by (simp add: t1_def N)
    have rd: "ts_rd t + 188 * 128 \<le> ?N" using aligned_room [OF dN(2) i(3,2)] .
    let ?xs = "take (188 * 128) (drop (ts_rd t) b)"
    let ?rd = "if ts_rd t + 188 * 128 > ?N - 1 then 0 else ts_rd t + 188 * 128"
    have rdw: "?rd = (ts_rd t + 188 * 128) mod ?N" using aligned_wrap [OF dN(2) i(3,2)] .
    define t2 where "t2 = t1\<lparr>ts_out := ts_out t @ [?xs], cache_size := ?N - 188 * 128,
                   cache_page_num := cache_page_num t + 1, ts_rd := ?rd\<rparr>"
    have mr: "mem_read b (ts_rd t) (188 * 128) = Some ?xs"
      using rd bl by (simp add: mem_simps)
    have put: "ts_put t pkt = Some t2"
      unfolding t1 t2_def using True mr by (simp add: t1_def full mem_simps)
    have "ring_read b (ts_rd t) ?N = ring_read b (ts_rd t) (188 * 128 + (?N - 188 * 128))"
      by (simp add: N)
    also have "\<dots> = ?xs @ ring_read b ?rd (?N - 188 * 128)"
      unfolding ring_read_add rdw
      using ring_read_prefix [of "ts_rd t" "188 * 128" b] rd bl
        ring_read_mod [of b "ts_rd t + 188 * 128" "?N - 188 * 128"] by simp
    finally have "ts_written t2 = ts_written t @ pkt"
      using ring full by (simp add: ts_written_def t2_def t1_def)
    moreover have "ts_file_inv t2"
    proof -
      have "?rd < ?N" "188 * 128 dvd ?rd" using i(3) dN(2) unfolding rdw by (simp_all add: N dvd_mod)
      moreover have "?wr = (?rd + (?N - 188 * 128)) mod ?N"
        unfolding wrap full rdw by (simp add: mod_add_left_eq N)
      moreover have "188 dvd ?N - 188 * 128" by (simp add: N)
      ultimately show ?thesis
        using i(7,8) bl full by (simp add: ts_file_inv_def t2_def t1_def N)
    qed
    ultimately show ?thesis using that [of t2] put by (simp add: t2_def t1_def)
  qed
qed

definition ts_same :: "ts_mux \<Rightarrow> ts_mux \<Rightarrow> bool" where
  "ts_same t t' \<longleftrightarrow>
     t' = t\<lparr>ts_cache := ts_cache t', ts_wr := ts_wr t', ts_rd := ts_rd t',
            cache_size := cache_size t', cache_size_total := cache_size_total t',
            cache_page_num := cache_page_num t', ts_out := ts_out t'\<rparr>"

lemma ts_same_refl: "ts_same t t"
  by (simp add: ts_same_def)

lemma ts_same_trans: "ts_same t t1 \<Longrightarrow> ts_same t1 t2 \<Longrightarrow> ts_same t t2"
  unfolding ts_same_def by (cases t; cases t1; cases t2) simp

lemma ts_put_same:
  assumes "ts_file_inv t" "length pkt = 188"
  shows "\<exists>t'. ts_put t pkt = Some t' \<and> ts_file_inv t' \<and> ts_written t' = ts_written t @ pkt \<and>
    ts_same t t'"
  unfolding ts_same_def by (rule ts_put_file [OF assms]) blast

text \<open>A list of packets, a section, the tables, and a frame.\<close>

lemma ts_puts_file:
  "ts_file_inv t \<Longrightarrow> \<forall>p \<in> set ps. length p = 188 \<Longrightarrow>
    \<exists>t'. ts_puts t ps = Some t' \<and> ts_file_inv t' \<and> ts_written t' = ts_written t @ concat ps \<and>
      ts_same t t'"
proof (induction ps arbitrary: t)
  case Nil
  then show ?case by (simp add: ts_same_refl)
next
  case (Cons p ps)
  then have "length p = 188" by simp
  then obtain t1 where t1: "ts_put t p = Some t1" "ts_file_inv t1"
    "ts_written t1 = ts_written t @ p" "ts_same t t1"
    using ts_put_same [OF Cons.prems(1)] by blast
  from Cons.IH [OF t1(2)] Cons.prems(2) obtain t' where
    "ts_puts t1 ps = Some t'" "ts_file_inv t'" "ts_written t' = ts_written t1 @ concat ps"
    "ts_same t1 t'"
    by auto
  with t1 show ?case using ts_same_trans by auto
qed

declare section_packets.simps [simp del] pes_packets.simps [simp del]

lemma section_packets_step:
  assumes "section_packets pid cc first buf = (ps, c)" "buf \<noteq> []"
  obtains ps' where "section_packets pid (and (cc + 1) 0xf) False
      (drop (section_len first buf) buf) = (ps', c)"
    "ps = section_packet pid (and (cc + 1) 0xf) first (take (section_len first buf) buf) # ps'"
  using assms by (subst (asm) section_packets.simps) (auto simp: Let_def split: prod.splits)

lemma section_packets_Nil: "section_packets pid cc first [] = ([], cc)"
  by (simp add: section_packets.simps)

lemma pes_packets_step:
  assumes "pes_packets pid cc pes_hdr start payload = (ps, c)" "payload \<noteq> []"
  obtains ps' where "pes_packets pid (and (cc + 1) 0xf) pes_hdr False
      (drop (pes_len (if start then pes_hdr else []) payload) payload) = (ps', c)"
    "ps = pes_packet pid (and (cc + 1) 0xf) start (if start then pes_hdr else [])
            (take (pes_len (if start then pes_hdr else []) payload) payload) # ps'"
  using assms by (subst (asm) pes_packets.simps) (auto simp: Let_def split: prod.splits)

lemma pes_packets_Nil: "pes_packets pid cc pes_hdr start [] = ([], cc)"
  by (simp add: pes_packets.simps)

lemma length_section_packet:
  "length chunk \<le> (if first then 183 else 184) \<Longrightarrow>
    length (section_packet pid cc first chunk) = 188"
  by (cases first) (simp_all add: section_packet_def TS_PACKET_SIZE_def)

lemma length_pes_packet:
  "length hdr + length chunk \<le> 184 \<Longrightarrow> length (pes_packet pid cc start hdr chunk) = 188"
  by (auto simp: pes_packet_def pes_stuffing_def Let_def TS_PACKET_SIZE_def)

lemma section_packets_length:
  "section_packets pid cc first buf = (ps, c) \<Longrightarrow> \<forall>p \<in> set ps. length p = 188"
proof (induction "length buf" arbitrary: cc first buf ps rule: less_induct)
  case less
  show ?case
  proof (cases "buf = []")
    case True
    with less.prems show ?thesis by (simp add: section_packets_Nil)
  next
    case False
    with less.prems obtain ps' where
      r: "section_packets pid (and (cc + 1) 0xf) False (drop (section_len first buf) buf) = (ps', c)"
      "ps = section_packet pid (and (cc + 1) 0xf) first (take (section_len first buf) buf) # ps'"
      by (rule section_packets_step)
    have "length (drop (section_len first buf) buf) < length buf"
      using False by (simp add: section_len_def TS_PACKET_SIZE_def)
    from less.hyps [OF this r(1)] r(2) show ?thesis
      by (simp add: length_section_packet section_len_def TS_PACKET_SIZE_def)
  qed
qed

lemma pes_packets_length_cont:
  "pes_packets pid cc hdr False payload = (ps, c) \<Longrightarrow> \<forall>p \<in> set ps. length p = 188"
proof (induction "length payload" arbitrary: cc payload ps rule: less_induct)
  case less
  show ?case
  proof (cases "payload = []")
    case True
    with less.prems show ?thesis by (simp add: pes_packets_Nil)
  next
    case False
    with less.prems obtain ps' where
      r: "pes_packets pid (and (cc + 1) 0xf) hdr False (drop (pes_len [] payload) payload) = (ps', c)"
      "ps = pes_packet pid (and (cc + 1) 0xf) False [] (take (pes_len [] payload) payload) # ps'"
      by (auto elim: pes_packets_step)
    have "length (drop (pes_len [] payload) payload) < length payload"
      using False by (simp add: pes_len_def TS_PACKET_SIZE_def)
    from less.hyps [OF this r(1)] r(2) show ?thesis
      by (simp add: length_pes_packet pes_len_def TS_PACKET_SIZE_def)
  qed
qed

lemma pes_packets_length:
  assumes "pes_packets pid cc hdr start payload = (ps, c)" "length hdr \<le> 184"
  shows "\<forall>p \<in> set ps. length p = 188"
proof (cases "start \<and> payload \<noteq> []")
  case True
  with assms(1) obtain ps' where
    r: "pes_packets pid (and (cc + 1) 0xf) hdr False (drop (pes_len hdr payload) payload) = (ps', c)"
    "ps = pes_packet pid (and (cc + 1) 0xf) True hdr (take (pes_len hdr payload) payload) # ps'"
    by (auto elim: pes_packets_step)
  from pes_packets_length_cont [OF r(1)] r(2) assms(2) show ?thesis
    by (simp add: length_pes_packet pes_len_def TS_PACKET_SIZE_def)
next
  case False
  then show ?thesis
    using assms(1) pes_packets_length_cont by (cases "payload = []") (auto simp: pes_packets_Nil)
qed

section \<open>A demultiplexer\<close>

text \<open>
  What a receiver does with the packets: the PID, the payload behind a possible adaptation
  field, and the payloads of all packets with a given PID in a file.
\<close>

definition ts_pid :: "byte list \<Rightarrow> u32" where
  "ts_pid p = or (push_bit 8 (and (ucast (p ! 1)) 0x1f)) (ucast (p ! 2))"

definition ts_payload :: "byte list \<Rightarrow> byte list" where
  "ts_payload p = (if bit (p ! 3) 5 then drop (5 + unat (p ! 4)) p else drop 4 p)"

definition ts_counter :: "byte list \<Rightarrow> u32" where
  "ts_counter p = and (ucast (p ! 3)) 0xf"

definition ts_start :: "byte list \<Rightarrow> bool" where
  "ts_start p \<longleftrightarrow> bit (p ! 1) 6"

function ts_demux :: "u32 \<Rightarrow> byte list \<Rightarrow> byte list" where
  "ts_demux pid bs =
     (if length bs < 188 then []
      else (if ts_pid (take 188 bs) = pid then ts_payload (take 188 bs) else []) @
           ts_demux pid (drop 188 bs))"
  by pat_completeness auto
termination by (relation "measure (\<lambda>(_, bs). length bs)") auto

declare ts_demux.simps [simp del]

lemma ts_demux_concat:
  "\<forall>p \<in> set ps. length p = 188 \<Longrightarrow>
    ts_demux pid (concat ps) = concat (map ts_payload (filter (\<lambda>p. ts_pid p = pid) ps))"
proof (induction ps)
  case Nil
  then show ?case by (simp add: ts_demux.simps)
next
  case (Cons p ps)
  then show ?case by (subst ts_demux.simps) simp
qed

lemma pid_13: "pid < 0x2000 \<Longrightarrow> take_bit 13 pid = (pid :: u32)"
  by (simp add: word_unat_eq_iff take_bit_eq_mod unat_mod word_less_nat_alt)

lemma pid_bytes:
  assumes "pid < 0x2000"
  shows "or (push_bit 8 (and (ucast (ucast (drop_bit 8 pid) :: byte)) 0x1f)) (ucast (ucast pid :: byte)) = (pid :: u32)"
    and "or (push_bit 8 (and (ucast (ucast (or (drop_bit 8 pid) 0x40) :: byte)) 0x1f)) (ucast (ucast pid :: byte)) = (pid :: u32)"
proof -
  have c: "(0x1f :: u32) = mask 5"
    by (simp add: mask_eq_exp_minus_1)
  have "(0x40 :: u32) = push_bit 6 1" "(0x40 :: int) = push_bit 6 1" "(0x40 :: nat) = push_bit 6 1"
    by simp_all
  then have b40: "bit (0x40 :: u32) k \<Longrightarrow> k = 6" "bit (0x40 :: int) k \<Longrightarrow> k = 6"
      "bit (0x40 :: nat) k \<Longrightarrow> k = 6" for k
    by (simp_all only: bit_push_bit_iff bit_1_iff) auto
  have p: "bit pid n \<Longrightarrow> n < 13" for n
    using pid_13 [OF assms] by (metis bit_take_bit_iff)
  show "or (push_bit 8 (and (ucast (ucast (drop_bit 8 pid) :: byte)) 0x1f)) (ucast (ucast pid :: byte)) = (pid :: u32)"
    unfolding c
  proof (rule bit_word_eqI)
    fix n
    show "bit (or (push_bit 8 (and (ucast (ucast (drop_bit 8 pid) :: byte)) (mask 5 :: u32))) (ucast (ucast pid :: byte))) n = bit pid n"
      using p [of n] bit_imp_le_length [of pid n] by (auto simp: bit_simps)
  qed
  show "or (push_bit 8 (and (ucast (ucast (or (drop_bit 8 pid) 0x40) :: byte)) 0x1f)) (ucast (ucast pid :: byte)) = (pid :: u32)"
    unfolding c
  proof (rule bit_word_eqI)
    fix n
    show "bit (or (push_bit 8 (and (ucast (ucast (or (drop_bit 8 pid) 0x40) :: byte)) (mask 5 :: u32))) (ucast (ucast pid :: byte))) n = bit pid n"
      using p [of n] bit_imp_le_length [of pid n] by (auto simp: bit_simps dest!: b40)
  qed
qed

lemma ts_pid_section [simp]:
  "pid < 0x2000 \<Longrightarrow> ts_pid (section_packet pid cc first chunk) = pid"
  using pid_bytes [of pid] by (cases first) (simp_all add: ts_pid_def section_packet_def)

lemma ts_pid_pes [simp]:
  "pid < 0x2000 \<Longrightarrow> ts_pid (pes_packet pid cc start hdr chunk) = pid"
  using pid_bytes [of pid] by (cases start) (simp_all add: ts_pid_def pes_packet_def Let_def)

lemma ts_pid_pcr [simp]: "ts_pid (pcr_packet counter pts) = 0x1000"
  by (simp add: ts_pid_def pcr_packet_def)

lemma length_pcr_packet [simp]: "length (pcr_packet counter pts) = 188"
  by (simp add: pcr_packet_def TS_PACKET_SIZE_def)

text \<open>The adaptation field is exactly what the receiver skips.\<close>

lemma or_10_bit5:
  "\<not> bit (ucast (or 0x10 (and c 0xf) :: u32) :: byte) 5"
  "bit (ucast (or (or 0x10 (and c 0xf)) 0x20 :: u32) :: byte) 5"
  by (simp_all add: bit_simps)

lemma pes_stuffing_skip:
  assumes "0 < n"
  obtains rest where "pes_stuffing n = of_nat (n - 1) # rest" "length rest = n - 1"
  using assms that by (cases "n \<ge> 2") (auto simp: pes_stuffing_def)

lemma ts_payload_pes:
  assumes "length hdr + length chunk \<le> 184"
  shows "ts_payload (pes_packet pid (and c 0xf) start hdr chunk) = hdr @ chunk"
proof (cases "length hdr + length chunk = 184")
  case True
  then show ?thesis
    using or_10_bit5(1) [of c]
    by (simp add: ts_payload_def pes_packet_def pes_stuffing_def Let_def TS_PACKET_SIZE_def)
next
  case False
  define n where "n = 184 - length hdr - length chunk"
  have n: "0 < n" "n \<le> 184" using False assms by (simp_all add: n_def)
  obtain rest where r: "pes_stuffing n = of_nat (n - 1) # rest" "length rest = n - 1"
    using n(1) by (rule pes_stuffing_skip)
  have u: "unat (of_nat (n - 1) :: byte) = n - 1" using n by (simp only: unat_of_nat) simp
  have nn: "TS_PACKET_SIZE - (4 + length hdr) - length chunk = n"
    by (simp add: n_def TS_PACKET_SIZE_def)
  have skip: "drop (5 + m) (a # b # x # y # z # rest @ hdr @ chunk) = hdr @ chunk"
    if "length rest = m" for m and a b x y z :: byte
    using that by (simp add: eval_nat_numeral)
  show ?thesis
    unfolding ts_payload_def pes_packet_def Let_def nn r(1)
    using or_10_bit5(2) [of c] u n(1) skip [OF r(2)] by (simp del: of_nat_diff drop_append)
qed

lemma ts_payload_section:
  "ts_payload (section_packet pid (and c 0xf) first chunk) =
    (if first then [0] else []) @ chunk @
    replicate ((if first then 183 else 184) - length chunk) 0xff"
  using or_10_bit5 [of c]
  by (cases first) (simp_all add: ts_payload_def section_packet_def Let_def TS_PACKET_SIZE_def)

lemma pes_len_room: "length hdr \<le> 184 \<Longrightarrow> length hdr + pes_len hdr payload \<le> 184"
  by (simp add: pes_len_def TS_PACKET_SIZE_def)

text \<open>The packets of a frame carry its header and payload, all with its PID.\<close>

lemma pes_packets_cont:
  "pes_packets pid cc hdr False payload = (ps, c) \<Longrightarrow>
    concat (map ts_payload ps) = payload \<and> (pid < 0x2000 \<longrightarrow> (\<forall>p \<in> set ps. ts_pid p = pid))"
proof (induction "length payload" arbitrary: cc payload ps rule: less_induct)
  case less
  show ?case
  proof (cases "payload = []")
    case True
    with less.prems show ?thesis by (simp add: pes_packets_Nil)
  next
    case False
    with less.prems obtain ps' where
      r: "pes_packets pid (and (cc + 1) 0xf) hdr False (drop (pes_len [] payload) payload) = (ps', c)"
      "ps = pes_packet pid (and (cc + 1) 0xf) False [] (take (pes_len [] payload) payload) # ps'"
      by (auto elim: pes_packets_step)
    have "length (drop (pes_len [] payload) payload) < length payload"
      using False by (simp add: pes_len_def TS_PACKET_SIZE_def)
    from less.hyps [OF this r(1)] r(2) pes_len_room [of "[]" payload] show ?thesis
      by (auto simp: ts_payload_pes)
  qed
qed

lemma pes_packets_payload:
  assumes "pes_packets pid cc hdr True payload = (ps, c)" "length hdr \<le> 184" "payload \<noteq> []"
  shows "concat (map ts_payload ps) = hdr @ payload"
    and "pid < 0x2000 \<Longrightarrow> \<forall>p \<in> set ps. ts_pid p = pid"
proof -
  obtain ps' where
    r: "pes_packets pid (and (cc + 1) 0xf) hdr False (drop (pes_len hdr payload) payload) = (ps', c)"
    "ps = pes_packet pid (and (cc + 1) 0xf) True hdr (take (pes_len hdr payload) payload) # ps'"
    using assms(1,3) by (auto elim: pes_packets_step)
  note tail = pes_packets_cont [OF r(1)]
  have "length hdr + length (take (pes_len hdr payload) payload) \<le> 184"
    using pes_len_room [OF assms(2), of payload] by simp
  then show "concat (map ts_payload ps) = hdr @ payload"
    using tail r(2) by (simp add: ts_payload_pes)
  show "pid < 0x2000 \<Longrightarrow> \<forall>p \<in> set ps. ts_pid p = pid"
    using tail r(2) by simp
qed

lemma length_pes_header: "length (pes_header codec ctype n pts) \<le> 21"
  by (auto simp: pes_header_def write_pts_def put16_def Let_def split: codec_id.splits)

text \<open>A section comes back with its pointer field and its padding.\<close>

lemma section_packets_pid:
  "section_packets pid cc first buf = (ps, c) \<Longrightarrow> pid < 0x2000 \<Longrightarrow>
    \<forall>p \<in> set ps. ts_pid p = pid"
proof (induction "length buf" arbitrary: cc first buf ps rule: less_induct)
  case less
  show ?case
  proof (cases "buf = []")
    case True
    with less.prems show ?thesis by (simp add: section_packets_Nil)
  next
    case False
    with less.prems obtain ps' where
      r: "section_packets pid (and (cc + 1) 0xf) False (drop (section_len first buf) buf) = (ps', c)"
      "ps = section_packet pid (and (cc + 1) 0xf) first (take (section_len first buf) buf) # ps'"
      by (auto elim: section_packets_step)
    have "length (drop (section_len first buf) buf) < length buf"
      using False by (simp add: section_len_def TS_PACKET_SIZE_def)
    from less.hyps [OF this r(1)] less.prems(2) r(2) show ?thesis by simp
  qed
qed

section \<open>Files\<close>

text \<open>What the operations leave alone, and what they write.\<close>

definition stream_conf ::
  "ts_stream \<Rightarrow> codec_id \<times> codec_type \<times> u32 \<times> u32 \<times> u32 \<times> byte list" where
  "stream_conf s =
     (st_codec s, st_type s, st_pid s, st_channels s, st_sample_rate s, st_vos s)"

definition ts_conf ::
  "ts_mux \<Rightarrow> (codec_id \<times> codec_type \<times> u32 \<times> u32 \<times> u32 \<times> byte list) list \<times> u32 list \<times> u32"
where
  "ts_conf t = (map stream_conf (ts_streams t),
                map (\<lambda>v. sec_pid (svc_pmt v)) (ts_services t), sec_pid (ts_pat t))"

definition ts_emits :: "ts_mux \<Rightarrow> ts_mux \<Rightarrow> byte list list \<Rightarrow> bool" where
  "ts_emits t t' ps \<longleftrightarrow> ts_file_inv t' \<and> ts_written t' = ts_written t @ concat ps \<and>
     (\<forall>p \<in> set ps. length p = 188) \<and> ts_conf t' = ts_conf t"

definition si_pids :: "ts_mux \<Rightarrow> u32 set" where
  "si_pids t = {0x1000, sec_pid (ts_pat t)} \<union> (\<lambda>v. sec_pid (svc_pmt v)) ` set (ts_services t)"

lemma si_pids_conf:
  "ts_conf t' = ts_conf t \<Longrightarrow> si_pids t' = si_pids t \<and>
    length (ts_services t') = length (ts_services t) \<and>
    length (ts_streams t') = length (ts_streams t)"
proof -
  assume "ts_conf t' = ts_conf t"
  then have e: "map stream_conf (ts_streams t') = map stream_conf (ts_streams t)"
    "map (\<lambda>v. sec_pid (svc_pmt v)) (ts_services t') = map (\<lambda>v. sec_pid (svc_pmt v)) (ts_services t)"
    "sec_pid (ts_pat t') = sec_pid (ts_pat t)"
    by (simp_all add: ts_conf_def)
  from arg_cong [OF e(1), of length] arg_cong [OF e(2), of length] arg_cong [OF e(2), of set] e(3)
  show ?thesis by (simp add: si_pids_def)
qed

definition ts_si :: "ts_mux \<Rightarrow> ts_mux \<Rightarrow> bool" where
  "ts_si t t' \<longleftrightarrow> (\<exists>ps. ts_emits t t' ps \<and> (\<forall>p \<in> set ps. ts_pid p \<in> si_pids t))"

lemma ts_si_refl: "ts_file_inv t \<Longrightarrow> ts_si t t"
  unfolding ts_si_def ts_emits_def by (intro exI [of _ "[]"]) simp

lemma ts_si_trans: "ts_si t t1 \<Longrightarrow> ts_si t1 t2 \<Longrightarrow> ts_si t t2"
proof -
  assume "ts_si t t1" "ts_si t1 t2"
  then obtain ps qs where "ts_emits t t1 ps" "\<forall>p \<in> set ps. ts_pid p \<in> si_pids t"
    "ts_emits t1 t2 qs" "\<forall>p \<in> set qs. ts_pid p \<in> si_pids t1"
    by (auto simp: ts_si_def)
  then show ?thesis
    unfolding ts_si_def using si_pids_conf [of t1 t]
    by (intro exI [of _ "ps @ qs"]) (auto simp: ts_emits_def)
qed

lemma ts_same_conf: "ts_same t t' \<Longrightarrow> ts_conf t' = ts_conf t"
  unfolding ts_same_def ts_conf_def by (metis (no_types, lifting) ts_mux.ext_inject ts_mux.surjective
      ts_mux.update_convs)

lemma ts_same_services: "ts_same t t' \<Longrightarrow> ts_services t' = ts_services t"
  unfolding ts_same_def by (drule arg_cong [of _ _ ts_services]) simp

lemma mpegts_write_section1_file:
  assumes inv: "ts_file_inv t" and pid: "sec_pid s < 0x2000"
  obtains b s' t' ps where
    "mpegts_write_section1 t s tid id' v sn lsn buf = Some (b, s', t')"
    "sec_pid s' = sec_pid s" "ts_emits t t' ps" "\<forall>p \<in> set ps. ts_pid p = sec_pid s" "ts_same t t'"
proof (cases "3 + 5 + length buf + 4 > 1024")
  case True
  then show ?thesis
    using that [of False s t "[]"] inv
    by (simp add: mpegts_write_section1_def ts_emits_def ts_same_refl)
next
  case False
  let ?b = "section_header tid id' v sn lsn (length buf) @ buf @ [0, 0, 0, 0]"
  let ?d = "take (length ?b - 4) ?b @ crc_bytes (GenerateCRC32 (take (length ?b - 4) ?b))"
  obtain ps c where ps: "section_packets (sec_pid s) (sec_cc s) True ?d = (ps, c)" by fastforce
  have l: "\<forall>p \<in> set ps. length p = 188" using section_packets_length [OF ps] .
  from ts_puts_file [OF inv l] obtain t' where t': "ts_puts t ps = Some t'" "ts_file_inv t'"
    "ts_written t' = ts_written t @ concat ps" "ts_same t t'" by blast
  have "mpegts_write_section1 t s tid id' v sn lsn buf = Some (True, s\<lparr>sec_cc := c\<rparr>, t')"
    using False ps t'(1) by (simp add: mpegts_write_section1_def mpegts_write_section_def Let_def)
  moreover have "ts_emits t t' ps"
    using t' l ts_same_conf [OF t'(4)] by (simp add: ts_emits_def)
  ultimately show ?thesis
    using that [of True "s\<lparr>sec_cc := c\<rparr>" t' ps] section_packets_pid [OF ps pid] t'(4) by simp
qed

lemma ts_file_inv_frame:
  "ts_file_inv (t\<lparr>ts_pat := a\<rparr>) = ts_file_inv t"
  "ts_file_inv (t\<lparr>ts_services := b\<rparr>) = ts_file_inv t"
  "ts_file_inv (t\<lparr>pat_packet_count := k\<rparr>) = ts_file_inv t"
  "ts_file_inv (t\<lparr>pcr_counter := w\<rparr>) = ts_file_inv t"
  "ts_file_inv (t\<lparr>ts_streams := sts\<rparr>) = ts_file_inv t"
  "ts_written (t\<lparr>ts_pat := a\<rparr>) = ts_written t"
  "ts_written (t\<lparr>ts_services := b\<rparr>) = ts_written t"
  "ts_written (t\<lparr>pat_packet_count := k\<rparr>) = ts_written t"
  "ts_written (t\<lparr>pcr_counter := w\<rparr>) = ts_written t"
  "ts_written (t\<lparr>ts_streams := sts\<rparr>) = ts_written t"
  by (simp_all add: ts_file_inv_def ts_written_def)

lemma ts_si_conf: "ts_si t t' \<Longrightarrow> ts_conf t' = ts_conf t"
  by (auto simp: ts_si_def ts_emits_def)

definition pids_small :: "ts_mux \<Rightarrow> bool" where
  "pids_small t \<longleftrightarrow> (\<forall>p \<in> si_pids t. p < 0x2000)"

lemma pids_small_si: "ts_si t t' \<Longrightarrow> pids_small t \<Longrightarrow> pids_small t'"
  using si_pids_conf [of t' t] by (simp add: ts_si_conf pids_small_def)

lemma ts_si_inv: "ts_si t t' \<Longrightarrow> ts_file_inv t'"
  by (auto simp: ts_si_def ts_emits_def)

lemma mpegts_write_pat_file:
  assumes inv: "ts_file_inv t" and pids: "pids_small t"
  obtains t' where "mpegts_write_pat t = Some t'" "ts_si t t'"
proof -
  have "sec_pid (ts_pat t) < 0x2000" using pids by (simp add: pids_small_def si_pids_def)
  from mpegts_write_section1_file [OF inv this] obtain b s' t1 ps where r:
    "mpegts_write_section1 t (ts_pat t) PAT_TID (ts_tsid t) 1 0 0 (pat_data (ts_services t)) =
       Some (b, s', t1)"
    "sec_pid s' = sec_pid (ts_pat t)" "ts_emits t t1 ps" "\<forall>p \<in> set ps. ts_pid p = sec_pid (ts_pat t)"
    "ts_same t t1" .
  have "ts_emits t (t1\<lparr>ts_pat := s'\<rparr>) ps"
    using r(2,3) by (simp add: ts_emits_def ts_file_inv_frame ts_conf_def)
  then have "ts_si t (t1\<lparr>ts_pat := s'\<rparr>)"
    unfolding ts_si_def using r(4) by (intro exI [of _ ps]) (simp add: si_pids_def)
  with that r(1) show ?thesis by (simp add: mpegts_write_pat_def)
qed

lemma mpegts_write_pmt_file:
  assumes inv: "ts_file_inv t" and pids: "pids_small t" and i: "i < length (ts_services t)"
  obtains t' where "mpegts_write_pmt t i = Some t'" "ts_si t t'"
proof -
  let ?svc = "ts_services t ! i"
  have pid: "sec_pid (svc_pmt ?svc) \<in> si_pids t" using i by (simp add: si_pids_def)
  then have "sec_pid (svc_pmt ?svc) < 0x2000" using pids by (simp add: pids_small_def)
  from mpegts_write_section1_file [OF inv this] obtain b s' t1 ps where r:
    "mpegts_write_section1 t (svc_pmt ?svc) PMT_TID (svc_sid ?svc) 1 0 0
       (pmt_data ?svc (ts_streams t)) = Some (b, s', t1)"
    "sec_pid s' = sec_pid (svc_pmt ?svc)" "ts_emits t t1 ps"
    "\<forall>p \<in> set ps. ts_pid p = sec_pid (svc_pmt ?svc)" "ts_same t t1" .
  have sv: "ts_services t1 = ts_services t" using r(5) by (rule ts_same_services)
  let ?t' = "t1\<lparr>ts_services := (ts_services t1)[i := ?svc\<lparr>svc_pmt := s'\<rparr>]\<rparr>"
  have "map (\<lambda>v. sec_pid (svc_pmt v)) ((ts_services t)[i := ?svc\<lparr>svc_pmt := s'\<rparr>]) =
      map (\<lambda>v. sec_pid (svc_pmt v)) (ts_services t)"
    using r(2) by (simp add: map_update list_update_same_conv i)
  then have "ts_emits t ?t' ps"
    using r(3) sv by (simp add: ts_emits_def ts_file_inv_frame ts_conf_def)
  then have "ts_si t ?t'" unfolding ts_si_def using r(4) pid by (intro exI [of _ ps]) simp
  with that r(1) show ?thesis by (simp add: mpegts_write_pmt_def Let_def)
qed

lemma write_pmts_file:
  "ts_file_inv t \<Longrightarrow> pids_small t \<Longrightarrow> \<forall>i \<in> set is. i < length (ts_services t) \<Longrightarrow>
    \<exists>t'. write_pmts t is = Some t' \<and> ts_si t t'"
proof (induction "is" arbitrary: t)
  case Nil
  then show ?case by (simp add: ts_si_refl)
next
  case (Cons i is')
  have "i < length (ts_services t)" using Cons.prems(3) by simp
  from mpegts_write_pmt_file [OF Cons.prems(1,2) this] obtain t1 where
    t1: "mpegts_write_pmt t i = Some t1" "ts_si t t1" .
  have "length (ts_services t1) = length (ts_services t)"
    using si_pids_conf [OF ts_si_conf [OF t1(2)]] by simp
  then obtain t' where "write_pmts t1 is' = Some t'" "ts_si t1 t'"
    using Cons.IH [OF ts_si_inv [OF t1(2)] pids_small_si [OF t1(2) Cons.prems(2)]] Cons.prems(3)
    by auto
  with t1 ts_si_trans show ?case by fastforce
qed

lemma wirte_pcr_table_file:
  assumes inv: "ts_file_inv t"
  obtains t' where "wirte_pcr_table t pts = Some t'" "ts_si t t'"
proof -
  let ?t = "t\<lparr>pcr_counter := and (pcr_counter t + 1) 0x0f\<rparr>"
  have "ts_file_inv ?t" using inv by (simp add: ts_file_inv_frame)
  then obtain t' where t': "ts_put ?t (pcr_packet (pcr_counter t) pts) = Some t'"
    "ts_file_inv t'" "ts_written t' = ts_written ?t @ pcr_packet (pcr_counter t) pts" "ts_same ?t t'"
    using ts_put_same [of ?t "pcr_packet (pcr_counter t) pts"] by auto
  have "ts_conf t' = ts_conf t" using ts_same_conf [OF t'(4)] by (simp add: ts_conf_def)
  then have "ts_emits t t' [pcr_packet (pcr_counter t) pts]"
    using t' by (simp add: ts_emits_def ts_file_inv_frame)
  then have "ts_si t t'" unfolding ts_si_def by (intro exI) (auto simp: si_pids_def)
  with that t'(1) show ?thesis by (simp add: wirte_pcr_table_def)
qed

lemma retransmit_file:
  assumes inv: "ts_file_inv t" and pids: "pids_small t"
  obtains t' where "retransmit_si_info t pts idx = Some t'" "ts_si t t'"
proof (cases "pat_packet_count t = pat_packet_period t")
  case False
  then show ?thesis
    using that [of t] inv ts_si_refl by (simp add: retransmit_si_info_def ts_file_inv_def)
next
  case True
  let ?t = "t\<lparr>pat_packet_count := 0\<rparr>"
  have sp: "si_pids ?t = si_pids t" by (simp add: si_pids_def)
  have "ts_si t ?t"
    unfolding ts_si_def
    by (intro exI [of _ "[]"]) (use inv in \<open>simp add: ts_emits_def ts_file_inv_frame ts_conf_def\<close>)
  moreover have "ts_file_inv ?t" "pids_small ?t"
    using inv pids sp by (simp_all add: ts_file_inv_frame pids_small_def)
  from mpegts_write_pat_file [OF this] obtain t1 where
    t1: "mpegts_write_pat ?t = Some t1" "ts_si ?t t1" .
  moreover obtain t2 where t2: "write_pmts t1 [0..<length (ts_services t1)] = Some t2" "ts_si t1 t2"
    using write_pmts_file [OF ts_si_inv [OF t1(2)] pids_small_si [OF t1(2) \<open>pids_small ?t\<close>]]
    by force
  moreover from wirte_pcr_table_file [OF ts_si_inv [OF t2(2)]] obtain t3 where
    t3: "wirte_pcr_table t2 pts = Some t3" "ts_si t2 t3" .
  ultimately have "ts_si t t3" using ts_si_trans by blast
  then show ?thesis
    using that t1 t2 t3 True inv by (simp add: retransmit_si_info_def ts_file_inv_def)
qed


lemma ts_emits_trans: "ts_emits t t1 ps \<Longrightarrow> ts_emits t1 t2 qs \<Longrightarrow> ts_emits t t2 (ps @ qs)"
  by (auto simp: ts_emits_def)

lemma ts_emits_puts:
  assumes "ts_file_inv t" "\<forall>p \<in> set ps. length p = 188"
  shows "\<exists>t'. ts_puts t ps = Some t' \<and> ts_emits t t' ps"
  using ts_puts_file [OF assms] ts_same_conf assms(2) by (auto simp: ts_emits_def)

lemma ts_conf_stream:
  assumes "ts_conf t' = ts_conf t" "i < length (ts_streams t)"
  shows "i < length (ts_streams t')"
    "stream_conf (ts_streams t' ! i) = stream_conf (ts_streams t ! i)"
proof -
  have m: "map stream_conf (ts_streams t') = map stream_conf (ts_streams t)"
    using assms(1) by (simp add: ts_conf_def)
  show l: "i < length (ts_streams t')" using arg_cong [OF m, of length] assms(2) by simp
  show "stream_conf (ts_streams t' ! i) = stream_conf (ts_streams t ! i)"
    using arg_cong [OF m, of "\<lambda>l. l ! i"] l assms(2) by simp
qed

lemma ts_conf_set_stream:
  assumes "i < length (ts_streams t)" "stream_conf st = stream_conf (ts_streams t ! i)"
  shows "ts_conf (t\<lparr>ts_streams := (ts_streams t)[i := st]\<rparr>) = ts_conf t"
  using assms by (simp add: ts_conf_def map_update list_update_same_conv)

definition ts_pes_packets :: "ts_mux \<Rightarrow> nat \<Rightarrow> byte list \<Rightarrow> u64 \<Rightarrow> byte list list" where
  "ts_pes_packets t i payload pts =
     (let st = ts_streams t ! i
      in fst (pes_packets (st_pid st) 0
           (pes_header (st_codec st) (st_type st) (length payload) pts) True payload))"

lemma mpegts_write_pes_file:
  assumes inv: "ts_file_inv t" and pids: "pids_small t" and i: "i < length (ts_streams t)"
  obtains t' qs where "mpegts_write_pes t i payload pts idx = Some t'"
    "ts_emits t t' (qs @ ts_pes_packets t i payload pts)" "\<forall>p \<in> set qs. ts_pid p \<in> si_pids t"
proof -
  let ?st = "ts_streams t ! i"
  obtain ps c where ps: "pes_packets (st_pid ?st) 0
      (pes_header (st_codec ?st) (st_type ?st) (length payload) pts) True payload = (ps, c)"
    by fastforce
  have len: "\<forall>p \<in> set ps. length p = 188"
    by (rule pes_packets_length [OF ps], rule order_trans [OF length_pes_header]) simp
  let ?si = "if idx \<noteq> CODEC_TYPE_TEXT
      then do {
        t1 \<leftarrow> retransmit_si_info t pts idx;
        Some (t1\<lparr>pat_packet_count := pat_packet_count t1 + 1\<rparr>)
      }
      else Some t"
  have "\<exists>t1. ?si = Some t1 \<and> ts_si t t1"
  proof (cases "idx = CODEC_TYPE_TEXT")
    case True
    then show ?thesis using ts_si_refl [OF inv] by simp
  next
    case False
    from retransmit_file [OF inv pids] obtain t1 where
      t1: "retransmit_si_info t pts idx = Some t1" "ts_si t t1" .
    have "ts_si t (t1\<lparr>pat_packet_count := pat_packet_count t1 + 1\<rparr>)"
      using t1(2) by (simp add: ts_si_def ts_emits_def ts_file_inv_frame ts_conf_def)
    then show ?thesis using False t1(1) by simp
  qed
  then obtain t1 qs where t1: "?si = Some t1" "ts_emits t t1 qs" "\<forall>p \<in> set qs. ts_pid p \<in> si_pids t"
    by (auto simp only: ts_si_def)
  have inv1: "ts_file_inv t1" and c1: "ts_conf t1 = ts_conf t"
    using t1(2) by (simp_all add: ts_emits_def)
  from ts_emits_puts [OF inv1 len] obtain t2 where t2: "ts_puts t1 ps = Some t2" "ts_emits t1 t2 ps"
    by blast
  define t3 where "t3 = t2\<lparr>ts_streams := (ts_streams t2)[i := ?st\<lparr>st_cc := c\<rparr>]\<rparr>"
  have c2: "ts_conf t2 = ts_conf t" using t2(2) c1 by (simp add: ts_emits_def)
  have "ts_conf t3 = ts_conf t2"
    unfolding t3_def using ts_conf_stream [OF c2 i]
    by (intro ts_conf_set_stream) (simp_all add: stream_conf_def)
  then have e3: "ts_emits t1 t3 ps"
    using t2(2) by (simp add: ts_emits_def t3_def ts_file_inv_frame)
  then have "ts_mode t3 \<noteq> OUTPUT_CALLBACK_BUFFER" by (simp add: ts_emits_def ts_file_inv_def)
  then have "mpegts_write_pes t i payload pts idx = Some t3"
    using t1(1) t2(1) ps by (simp add: mpegts_write_pes_def Let_def t3_def)
  moreover have "ts_pes_packets t i payload pts = ps"
    using ps by (simp add: ts_pes_packets_def)
  ultimately show ?thesis using that t1(3) ts_emits_trans [OF t1(2) e3] by simp
qed

text \<open>What a receiver finds in the packets of one frame.\<close>

lemma ts_pes_packets_demux:
  assumes "payload \<noteq> []" "st_pid (ts_streams t ! i) < 0x2000"
  shows "concat (map ts_payload (filter (\<lambda>p. ts_pid p = pid) (ts_pes_packets t i payload pts))) =
    (if pid = st_pid (ts_streams t ! i)
     then pes_header (st_codec (ts_streams t ! i)) (st_type (ts_streams t ! i)) (length payload) pts
            @ payload
     else [])"
proof -
  let ?st = "ts_streams t ! i"
  let ?hdr = "pes_header (st_codec ?st) (st_type ?st) (length payload) pts"
  obtain ps c where ps: "pes_packets (st_pid ?st) 0 ?hdr True payload = (ps, c)" by fastforce
  have h: "length ?hdr \<le> 184"
    using length_pes_header [of "st_codec ?st" "st_type ?st" "length payload" pts] by linarith
  have "\<forall>p \<in> set ps. ts_pid p = st_pid ?st"
    using pes_packets_payload(2) [OF ps h assms(1)] assms(2) .
  then show ?thesis
    using pes_packets_payload(1) [OF ps h assms(1)] ps
    by (cases "pid = st_pid ?st") (simp_all add: ts_pes_packets_def filter_empty_conv)
qed

text \<open>The end of a file: everything in the cache is written.\<close>

lemma trailer_loop_file:
  "ts_rd t \<le> TS_CACHE_SIZE \<Longrightarrow> 188 dvd ts_rd t \<Longrightarrow> length (ts_cache t) = TS_CACHE_SIZE \<Longrightarrow>
    \<exists>t'. trailer_loop n t = Some t' \<and>
      concat (ts_out t') = concat (ts_out t) @ ring_read (ts_cache t) (ts_rd t) (n * 188)"
proof (induction n arbitrary: t)
  case 0
  then show ?case by simp
next
  case (Suc n)
  let ?N = TS_CACHE_SIZE
  let ?rd = "if ts_rd t > ?N - 1 then 0 else ts_rd t"
  have N: "?N = 192512" by (simp add: TS_CACHE_SIZE_def)
  have rd: "?rd = ts_rd t mod ?N" using Suc.prems(1) by (cases "ts_rd t = ?N") (simp_all add: N)
  have d: "188 dvd ?rd" "?rd < ?N" using Suc.prems(2) by (simp_all add: N)
  have fit: "?rd + 188 \<le> ?N" using aligned_room [of 188 ?N ?rd] d by (simp add: N)
  let ?t = "t\<lparr>ts_out := ts_out t @ [take 188 (drop ?rd (ts_cache t))], ts_rd := ?rd + 188\<rparr>"
  have step: "trailer_loop (Suc n) t = trailer_loop n ?t"
    using fit Suc.prems(3) by (simp add: Let_def mem_simps TS_PACKET_SIZE_def)
  obtain t' where t': "trailer_loop n ?t = Some t'"
    "concat (ts_out t') = concat (ts_out ?t) @ ring_read (ts_cache t) (?rd + 188) (n * 188)"
    using Suc.IH [of ?t] fit d(1) Suc.prems(3) by (auto simp: N)
  have "ring_read (ts_cache t) (ts_rd t) (Suc n * 188) =
      ring_read (ts_cache t) ?rd (188 + n * 188)"
    unfolding rd using ring_read_mod [of "ts_cache t" "ts_rd t"] Suc.prems(3) by simp
  also have "\<dots> = take 188 (drop ?rd (ts_cache t)) @ ring_read (ts_cache t) (?rd + 188) (n * 188)"
    using fit Suc.prems(3) by (simp only: ring_read_add ring_read_prefix)
  finally show ?case using step t' by simp
qed

lemma ts_write_trailer_file:
  assumes inv: "ts_file_inv t"
  shows "\<exists>t'. ts_write_trailer t = Some t' \<and> concat (ts_out t') = ts_written t \<and> cache_size t' = 0"
proof -
  have i: "ts_rd t < TS_CACHE_SIZE" "188 * 128 dvd ts_rd t" "length (ts_cache t) = TS_CACHE_SIZE"
    "188 dvd cache_size t" "cache_size_total t = cache_page_num t * (188 * 128) + cache_size t"
    "ts_mode t \<noteq> OUTPUT_CALLBACK_BUFFER"
    using inv by (simp_all add: ts_file_inv_def)
  let ?n = "cache_size_total t div TS_PACKET_SIZE - cache_page_num t * 128"
  obtain k where k: "cache_size t = 188 * k" using i(4) by blast
  have n: "?n = k" unfolding i(5) k TS_PACKET_SIZE_def by (simp add: algebra_simps)
  from trailer_loop_file [OF less_imp_le [OF i(1)] dvd_mult_left [OF i(2)] i(3), of ?n]
  obtain t' where "trailer_loop ?n t = Some t'"
    "concat (ts_out t') = concat (ts_out t) @ ring_read (ts_cache t) (ts_rd t) (?n * 188)" by blast
  then show ?thesis
    using i(6) unfolding n by (simp add: ts_write_trailer_def n ts_written_def k mult.commute)
qed

end
