(* ===== verification/TsDrv.thy ===== *)
theory TsDrv
  imports TsMux "HOL-Library.Signed_Division"
begin

text \<open>
  The transport stream writer above the packet level: \<open>ts_write_packet\<close> (Mpeg2tsMuxer.c) builds
  the elementary stream bytes of a frame (access unit delimiter and parameter sets for video,
  an ADTS header for AAC) and its time stamp, and the driver (Mpeg2tsMuxerDrv.c) sets up the
  streams and PIDs. The main theorem follows the data from the frames handed in to what a
  receiver demultiplexes from the finished file.

  \<open>stream_index\<close> has the values 0, 1, 2 of video, audio, text; \<open>realloc\<close> and \<open>malloc\<close> succeed.
  The segment rotation for \<open>OUTPUT_M3U8_FILE\<close> is left out: no caller selects that mode.
\<close>

record av_packet =
  pk_pts :: u64
  pk_data0 :: "byte list"
  pk_data1 :: "byte list"
  pk_stream_index :: codec_type
  pk_flags :: u32

record ts_ctx =
  ctx_ts :: ts_mux
  v_strm_flag :: bool
  a_strm_flag :: bool
  t_strm_flag :: bool
  first_video_pts :: bool
  base_video_pts :: u64
  audio_frame_num :: int
  pes_bufsize :: nat

section \<open>Frames\<close>

text \<open>
  The code gathers a frame in \<open>pes_buffer\<close>. The bytes in front of the data are copied before
  the size is checked; the buffer grows by 32 KiB more than the frame needs.
\<close>

definition pes_grow :: "nat \<Rightarrow> nat \<Rightarrow> nat" where
  "pes_grow bufsize total_size = (if bufsize < total_size then total_size + 32 * 1024 else bufsize)"

definition pes_gather :: "ts_ctx \<Rightarrow> byte list \<Rightarrow> av_packet \<Rightarrow> (byte list \<times> ts_ctx) option" where
  "pes_gather c pre pkt =
     (if length pre \<le> pes_bufsize c
      then let es = pre @ pk_data0 pkt @ pk_data1 pkt
           in Some (es, c\<lparr>pes_bufsize := pes_grow (pes_bufsize c) (length es)\<rparr>)
      else None)"

definition be32_bytes :: "u32 \<Rightarrow> byte list" where
  "be32_bytes val =
     (let v1 = or (and (push_bit 8 val) 0xFF00FF00) (and (drop_bit 8 val) 0x00FF00FF);
          v2 = or (drop_bit 16 v1) (push_bit 16 v1)
      in [ucast v2, ucast (drop_bit 8 v2), ucast (drop_bit 16 v2), ucast (drop_bit 24 v2)])"

text \<open>What precedes a video frame; for H.265 the code looks into the frame itself.\<close>

definition h264_prefix :: "ts_stream \<Rightarrow> av_packet \<Rightarrow> byte list" where
  "h264_prefix st pkt =
     be32_bytes 0x00000001 @ [0x09, 0x30] @
     (if st_first st \<or> pk_flags pkt = 1 then st_vos st else [])"

definition h265_prefix :: "ts_stream \<Rightarrow> av_packet \<Rightarrow> byte list option" where
  "h265_prefix st pkt =
     do {
       key \<leftarrow> (if st_first st then Some True
              else if 4 < length (pk_data0 pkt) then Some (pk_data0 pkt ! 4 = 0x26) else None);
       Some (be32_bytes 0x00000001 @ [2 * 35, 1, 0x50] @ (if key then st_vos st else []))
     }"

text \<open>The time stamps of video count from the first frame, in units of 1/90000 s.\<close>

definition video_pts :: "ts_ctx \<Rightarrow> av_packet \<Rightarrow> u64 \<times> ts_ctx" where
  "video_pts c pkt =
     (let c' = (if first_video_pts c
                then c\<lparr>first_video_pts := False, base_video_pts := pk_pts pkt\<rparr> else c)
      in ((pk_pts pkt - base_video_pts c') * 90, c'))"

definition AudioSampleRate :: "u32 list" where
  "AudioSampleRate = [96000, 88200, 64000, 48000, 44100, 32000, 24000, 22050, 16000, 12000,
    11025, 8000, 7350]"

fun rate_index :: "u32 list \<Rightarrow> u32 \<Rightarrow> nat" where
  "rate_index [] r = 0"
| "rate_index (x # xs) r = (if r = x then 0 else Suc (rate_index xs r))"

definition AAC_PROFILE_LC :: u32 where "AAC_PROFILE_LC = 1"

definition ts_adts_header :: "u32 \<Rightarrow> u32 \<Rightarrow> u32 \<Rightarrow> byte list" where
  "ts_adts_header channels sample_rate frame_length =
     (let i = of_nat (rate_index AudioSampleRate sample_rate) :: u32;
          num_data_block = frame_length div 1024
      in [0xFF, 0xF1,
          or (or (ucast (push_bit 6 AAC_PROFILE_LC)) (ucast (push_bit 2 i)))
             (ucast (drop_bit 2 (and channels 0x4))),
          or (ucast (push_bit 6 (and channels 0x3))) (ucast (drop_bit 11 (and frame_length 0x1800))),
          ucast (drop_bit 3 (and frame_length 0x1FF8)),
          or (ucast (push_bit 5 (and frame_length 0x7))) 0x1F,
          or 0xFC (ucast (and num_data_block 0x03))])"

definition aac_pts :: "ts_ctx \<Rightarrow> ts_stream \<Rightarrow> u64 option" where
  "aac_pts c st =
     (if st_sample_rate st = 0 then None
      else Some (word_of_int ((audio_frame_num c * 90000 * 1024) sdiv sint (st_sample_rate st))))"

text \<open>
  The frame a packet gives: its bytes and its time stamp. The result inside is \<open>None\<close> for a
  codec that is not supported; \<open>i\<close> is the stream.
\<close>

definition set_stream :: "ts_ctx \<Rightarrow> nat \<Rightarrow> ts_stream \<Rightarrow> ts_ctx" where
  "set_stream c i st = c\<lparr>ctx_ts := (ctx_ts c)\<lparr>ts_streams := (ts_streams (ctx_ts c))[i := st]\<rparr>\<rparr>"

definition bump_pat_pmt :: "ts_ctx \<Rightarrow> ts_ctx" where
  "bump_pat_pmt c = c\<lparr>ctx_ts := (ctx_ts c)\<lparr>pat_pmt_counter := pat_pmt_counter (ctx_ts c) + 1\<rparr>\<rparr>"

definition h264_frame ::
  "ts_ctx \<Rightarrow> nat \<Rightarrow> av_packet \<Rightarrow> ((byte list \<times> u64) \<times> ts_ctx) option" where
  "h264_frame c i pkt =
     (let st = ts_streams (ctx_ts c) ! i
      in do {
        (es, c1) \<leftarrow> pes_gather (bump_pat_pmt c) (h264_prefix st pkt) pkt;
        let (pts, c2) = video_pts c1 pkt;
        Some ((es, pts), set_stream c2 i (st\<lparr>st_first := False\<rparr>))
      })"

definition h265_frame ::
  "ts_ctx \<Rightarrow> nat \<Rightarrow> av_packet \<Rightarrow> ((byte list \<times> u64) \<times> ts_ctx) option" where
  "h265_frame c i pkt =
     (let st = ts_streams (ctx_ts c) ! i
      in do {
        pre \<leftarrow> h265_prefix st pkt;
        (es, c1) \<leftarrow> pes_gather (bump_pat_pmt c) pre pkt;
        let (pts, c2) = video_pts c1 pkt;
        Some ((es, pts), set_stream c2 i (st\<lparr>st_first := False\<rparr>))
      })"

definition aac_frame ::
  "ts_ctx \<Rightarrow> nat \<Rightarrow> av_packet \<Rightarrow> ((byte list \<times> u64) \<times> ts_ctx) option" where
  "aac_frame c i pkt =
     (let st = ts_streams (ctx_ts c) ! i;
          frame_length = length (pk_data0 pkt) + length (pk_data1 pkt) + 7;
          es = ts_adts_header (st_channels st) (st_sample_rate st) (of_nat frame_length) @
               pk_data0 pkt @ pk_data1 pkt
      in do {
        pts \<leftarrow> aac_pts c st;
        Some ((es, pts), c\<lparr>pes_bufsize := pes_grow (pes_bufsize c) frame_length,
                           audio_frame_num := audio_frame_num c + 1\<rparr>)
      })"

definition adpcm_frame :: "ts_ctx \<Rightarrow> av_packet \<Rightarrow> (byte list \<times> u64) \<times> ts_ctx" where
  "adpcm_frame c pkt =
     ((pk_data0 pkt, pk_pts pkt * 90),
      c\<lparr>pes_bufsize := pes_grow (pes_bufsize c) (length (pk_data0 pkt)),
        audio_frame_num := audio_frame_num c + 1\<rparr>)"

definition ggad_frame :: "ts_ctx \<Rightarrow> av_packet \<Rightarrow> (byte list \<times> u64) \<times> ts_ctx" where
  "ggad_frame c pkt =
     ((pk_data0 pkt, pk_pts pkt),
      c\<lparr>pes_bufsize := pes_grow (pes_bufsize c) (length (pk_data0 pkt))\<rparr>)"

definition ts_frame ::
  "ts_ctx \<Rightarrow> nat \<Rightarrow> av_packet \<Rightarrow> ((byte list \<times> u64) option \<times> ts_ctx) option" where
  "ts_frame c i pkt =
     (case st_codec (ts_streams (ctx_ts c) ! i) of
        CODEC_ID_H264 \<Rightarrow> do { (f, c') \<leftarrow> h264_frame c i pkt; Some (Some f, c') }
      | CODEC_ID_H265 \<Rightarrow> do { (f, c') \<leftarrow> h265_frame c i pkt; Some (Some f, c') }
      | CODEC_ID_AAC \<Rightarrow> do { (f, c') \<leftarrow> aac_frame c i pkt; Some (Some f, c') }
      | CODEC_ID_ADPCM \<Rightarrow> (let (f, c') = adpcm_frame c pkt in Some (Some f, c'))
      | CODEC_ID_GGAD \<Rightarrow> (let (f, c') = ggad_frame c pkt in Some (Some f, c'))
      | CODEC_ID_OTHER \<Rightarrow> Some (None, c))"

text \<open>
  The stream a packet goes to. Without video or without audio the streams move down by one.
  The context has three streams; those that were not set up have no codec.
\<close>

fun type_index :: "codec_type \<Rightarrow> nat" where
  "type_index CODEC_TYPE_VIDEO = 0"
| "type_index CODEC_TYPE_AUDIO = 1"
| "type_index CODEC_TYPE_TEXT = 2"
| "type_index CODEC_TYPE_DATA = 3"

definition real_strm_idx :: "ts_ctx \<Rightarrow> codec_type \<Rightarrow> nat" where
  "real_strm_idx c idx =
     (if (\<not> v_strm_flag c \<or> \<not> a_strm_flag c) \<and> (idx = CODEC_TYPE_TEXT \<or> idx = CODEC_TYPE_AUDIO)
      then type_index idx - 1 else type_index idx)"

definition MAX_STREAMS_IN_FILE :: nat where "MAX_STREAMS_IN_FILE = 3"

text \<open>\<open>ts_write_packet\<close>, with the frame it hands to \<open>mpegts_write_pes\<close>.\<close>

definition ts_write_packet ::
  "ts_ctx \<Rightarrow> av_packet \<Rightarrow> ((nat \<times> byte list \<times> u64) list \<times> ts_ctx) option" where
  "ts_write_packet c pkt =
     (let i = real_strm_idx c (pk_stream_index pkt)
      in if MAX_STREAMS_IN_FILE \<le> i then None
         else if length (ts_streams (ctx_ts c)) \<le> i then Some ([], c)
         else do {
           (f, c1) \<leftarrow> ts_frame c i pkt;
           (case f of
              None \<Rightarrow> Some ([], c1)
            | Some (es, pts) \<Rightarrow> do {
                t \<leftarrow> mpegts_write_pes (ctx_ts c1) i es pts (pk_stream_index pkt);
                Some ([(i, es, pts)], c1\<lparr>ctx_ts := t\<rparr>)
              })
         })"

section \<open>The driver\<close>

definition Mpeg2tsMuxerWritePacket ::
  "ts_ctx \<Rightarrow> av_packet \<Rightarrow> ((nat \<times> byte list \<times> u64) list \<times> ts_ctx) option" where
  "Mpeg2tsMuxerWritePacket c pkt =
     ts_write_packet c (pkt\<lparr>pk_pts := word_of_int (sint (pk_pts pkt) sdiv 1000)\<rparr>)"

text \<open>The context \<open>Mpeg2tsMuxerOpen\<close> returns; \<open>buf\<close> is the fresh memory of the packet cache.\<close>

definition Mpeg2tsMuxerOpen :: "byte list \<Rightarrow> ts_ctx" where
  "Mpeg2tsMuxerOpen buf =
     \<lparr>ctx_ts =
        \<lparr>ts_mode = OUTPUT_TS_FILE, ts_pat = \<lparr>sec_pid = 0, sec_cc = 15\<rparr>,
         ts_services = [\<lparr>svc_pmt = \<lparr>sec_pid = 0x0100, sec_cc = 15\<rparr>, svc_sid = 1,
                         svc_pcr_pid = 0x1fff\<rparr>],
         ts_tsid = 0, ts_streams = [], pat_packet_count = 0, pat_packet_period = 0,
         pat_pmt_counter = 0, pat_pmt_flag = True, pcr_counter = 0, ts_cache = buf,
         ts_wr = 0, ts_rd = 0, cache_size = 0, cache_size_total = 0, cache_page_num = 0,
         ts_out = [], ts_cb = []\<rparr>,
      v_strm_flag = False, a_strm_flag = False, t_strm_flag = False, first_video_pts = True,
      base_video_pts = 0, audio_frame_num = 0, pes_bufsize = 512 * 1024\<rparr>"

datatype venc_codec = VENC_CODEC_H264 | VENC_CODEC_H265 | VENC_CODEC_OTHER

record media_file_inf =
  mi_nWidth :: u32
  mi_venc :: venc_codec
  mi_channels :: u32
  mi_sample_rate :: u32
  mi_audio_encode_type :: u32
  mi_text_encode_type :: u32
  mi_geo_available :: bool

definition ts_new_stream :: "codec_id \<Rightarrow> codec_type \<Rightarrow> u32 \<Rightarrow> u32 \<Rightarrow> ts_stream" where
  "ts_new_stream codec ty ch rate =
     \<lparr>st_codec = codec, st_type = ty, st_channels = ch, st_sample_rate = rate,
      st_pid = (case ty of CODEC_TYPE_VIDEO \<Rightarrow> 0x1011 | CODEC_TYPE_AUDIO \<Rightarrow> 0x1100 | _ \<Rightarrow> 0x300),
      st_cc = 15, st_vos = [], st_first = True\<rparr>"

definition media_streams :: "media_file_inf \<Rightarrow> ts_stream list" where
  "media_streams mi =
     (if mi_nWidth mi \<noteq> 0
      then [ts_new_stream (if mi_venc mi = VENC_CODEC_H265 then CODEC_ID_H265 else CODEC_ID_H264)
              CODEC_TYPE_VIDEO 0 0]
      else []) @
     (if mi_sample_rate mi \<noteq> 0 \<and> mi_channels mi \<noteq> 0
      then [ts_new_stream (if mi_audio_encode_type mi = 0 then CODEC_ID_AAC else CODEC_ID_ADPCM)
              CODEC_TYPE_AUDIO (mi_channels mi) (mi_sample_rate mi)]
      else []) @
     (if mi_text_encode_type mi = 0 \<and> mi_geo_available mi
      then [ts_new_stream CODEC_ID_GGAD CODEC_TYPE_DATA 0 0]
      else [])"

text \<open>
  The command \<open>SETAVPARA\<close>. The code dereferences \<open>pcr_st\<close>, which is the first stream when the
  PCR PID still has its initial value and there is a stream, and null otherwise; the PCR period
  of a first stream that carries data is a division by zero.
\<close>

definition ioctrl_SETAVPARA :: "ts_ctx \<Rightarrow> media_file_inf \<Rightarrow> ts_ctx option" where
  "ioctrl_SETAVPARA c mi =
     (let t = ctx_ts c;
          sts = ts_streams t @ media_streams mi;
          svc = hd (ts_services t)
      in if length sts > MAX_STREAMS_IN_FILE \<or> sts = [] \<or> svc_pcr_pid svc \<noteq> 0x1fff \<or>
            st_type (hd sts) = CODEC_TYPE_DATA
         then None
         else Some (c\<lparr>
           ctx_ts := t\<lparr>ts_streams := sts,
                       ts_services := svc\<lparr>svc_pcr_pid := 0x1000\<rparr> # tl (ts_services t),
                       pat_packet_period := 3, pat_packet_count := 3\<rparr>,
           v_strm_flag := v_strm_flag c \<or> mi_nWidth mi \<noteq> 0,
           a_strm_flag := a_strm_flag c \<or> (mi_sample_rate mi \<noteq> 0 \<and> mi_channels mi \<noteq> 0),
           t_strm_flag := t_strm_flag c \<or> (mi_text_encode_type mi = 0 \<and> mi_geo_available mi)\<rparr>))"

definition Mpeg2tsMuxerWriteVos :: "ts_ctx \<Rightarrow> byte list \<Rightarrow> nat \<Rightarrow> ts_ctx option" where
  "Mpeg2tsMuxerWriteVos c vos i =
     (if i < length (ts_streams (ctx_ts c))
      then Some (set_stream c i ((ts_streams (ctx_ts c) ! i)\<lparr>st_vos := vos\<rparr>))
      else None)"

text \<open>A recording: the packets in turn, with the frames that went into the file.\<close>

fun ts_record :: "ts_ctx \<Rightarrow> av_packet list \<Rightarrow> ((nat \<times> byte list \<times> u64) list \<times> ts_ctx) option" where
  "ts_record c [] = Some ([], c)"
| "ts_record c (p # ps) =
     do {
       (l, c1) \<leftarrow> Mpeg2tsMuxerWritePacket c p;
       (l', c2) \<leftarrow> ts_record c1 ps;
       Some (l @ l', c2)
     }"


section \<open>What stays the same during a recording\<close>

definition conf_ok ::
  "u32 set \<Rightarrow> nat \<Rightarrow> codec_id \<times> codec_type \<times> u32 \<times> u32 \<times> u32 \<times> byte list \<Rightarrow> bool" where
  "conf_ok si n = (\<lambda>(codec, ty, pid, ch, rate, vos).
     codec \<noteq> CODEC_ID_OTHER \<and> pid < 0x2000 \<and> pid \<notin> si \<and> 7 + length vos \<le> n \<and>
     (codec = CODEC_ID_AAC \<longrightarrow> rate \<noteq> 0))"

definition ts_ctx_ok :: "ts_ctx \<Rightarrow> bool" where
  "ts_ctx_ok c \<longleftrightarrow> ts_file_inv (ctx_ts c) \<and> pids_small (ctx_ts c) \<and>
     (\<forall>x \<in> set (map stream_conf (ts_streams (ctx_ts c))). conf_ok (si_pids (ctx_ts c)) (pes_bufsize c) x) \<and>
     distinct (map (\<lambda>(_, _, pid, _). pid) (map stream_conf (ts_streams (ctx_ts c))))"

text \<open>\<open>c'\<close> follows \<open>c\<close>: the packets \<open>ps\<close> were written, and the configuration is the same.\<close>

definition follows :: "ts_ctx \<Rightarrow> ts_ctx \<Rightarrow> byte list list \<Rightarrow> bool" where
  "follows c c' ps \<longleftrightarrow> ts_emits (ctx_ts c) (ctx_ts c') ps \<and> pes_bufsize c \<le> pes_bufsize c' \<and>
     v_strm_flag c' = v_strm_flag c \<and> a_strm_flag c' = a_strm_flag c"

lemma follows_refl: "ts_file_inv (ctx_ts c) \<Longrightarrow> follows c c []"
  by (simp add: follows_def ts_emits_def)

lemma follows_trans: "follows c c1 ps \<Longrightarrow> follows c1 c2 qs \<Longrightarrow> follows c c2 (ps @ qs)"
  unfolding follows_def by (auto intro: ts_emits_trans)

lemma follows_conf: "follows c c' ps \<Longrightarrow> ts_conf (ctx_ts c') = ts_conf (ctx_ts c)"
  by (simp add: follows_def ts_emits_def)

lemma follows_ok:
  assumes f: "follows c c' ps" and ok: "ts_ctx_ok c"
  shows "ts_ctx_ok c'"
proof -
  have m: "map stream_conf (ts_streams (ctx_ts c')) = map stream_conf (ts_streams (ctx_ts c))"
    using follows_conf [OF f] by (simp add: ts_conf_def)
  have si: "si_pids (ctx_ts c') = si_pids (ctx_ts c)"
    using si_pids_conf [OF follows_conf [OF f]] by simp
  have "conf_ok (si_pids (ctx_ts c')) (pes_bufsize c') x"
    if "conf_ok (si_pids (ctx_ts c)) (pes_bufsize c) x" for x
    using that f si by (auto simp: conf_ok_def follows_def split: prod.splits)
  then show ?thesis
    using ok f unfolding ts_ctx_ok_def m si
    by (simp add: pids_small_def si follows_def ts_emits_def)
qed

lemma follows_stream:
  assumes "follows c c' ps" "i < length (ts_streams (ctx_ts c))"
  shows "i < length (ts_streams (ctx_ts c'))"
    "st_codec (ts_streams (ctx_ts c') ! i) = st_codec (ts_streams (ctx_ts c) ! i)"
    "st_type (ts_streams (ctx_ts c') ! i) = st_type (ts_streams (ctx_ts c) ! i)"
    "st_pid (ts_streams (ctx_ts c') ! i) = st_pid (ts_streams (ctx_ts c) ! i)"
  using ts_conf_stream [OF follows_conf [OF assms(1)] assms(2)]
  by (simp_all add: stream_conf_def)

lemma follows_length:
  "follows c c' ps \<Longrightarrow> length (ts_streams (ctx_ts c')) = length (ts_streams (ctx_ts c))"
  using si_pids_conf [OF follows_conf] by blast

lemma follows_real_idx: "follows c c' ps \<Longrightarrow> real_strm_idx c' idx = real_strm_idx c idx"
  by (simp add: follows_def real_strm_idx_def)

lemma ts_ctx_ok_stream:
  assumes "ts_ctx_ok c" "i < length (ts_streams (ctx_ts c))"
  shows "st_codec (ts_streams (ctx_ts c) ! i) \<noteq> CODEC_ID_OTHER"
    "st_pid (ts_streams (ctx_ts c) ! i) < 0x2000"
    "st_pid (ts_streams (ctx_ts c) ! i) \<notin> si_pids (ctx_ts c)"
    "7 + length (st_vos (ts_streams (ctx_ts c) ! i)) \<le> pes_bufsize c"
    "st_codec (ts_streams (ctx_ts c) ! i) = CODEC_ID_AAC \<Longrightarrow>
       st_sample_rate (ts_streams (ctx_ts c) ! i) \<noteq> 0"
proof -
  have "stream_conf (ts_streams (ctx_ts c) ! i) \<in> set (map stream_conf (ts_streams (ctx_ts c)))"
    using assms(2) by simp
  then have "conf_ok (si_pids (ctx_ts c)) (pes_bufsize c) (stream_conf (ts_streams (ctx_ts c) ! i))"
    using assms(1) unfolding ts_ctx_ok_def by blast
  then show "st_codec (ts_streams (ctx_ts c) ! i) \<noteq> CODEC_ID_OTHER"
    "st_pid (ts_streams (ctx_ts c) ! i) < 0x2000"
    "st_pid (ts_streams (ctx_ts c) ! i) \<notin> si_pids (ctx_ts c)"
    "7 + length (st_vos (ts_streams (ctx_ts c) ! i)) \<le> pes_bufsize c"
    "st_codec (ts_streams (ctx_ts c) ! i) = CODEC_ID_AAC \<Longrightarrow>
       st_sample_rate (ts_streams (ctx_ts c) ! i) \<noteq> 0"
    by (simp_all add: conf_ok_def stream_conf_def)
qed

lemma ts_ctx_ok_pids:
  assumes "ts_ctx_ok c" "i < length (ts_streams (ctx_ts c))" "j < length (ts_streams (ctx_ts c))"
    "i \<noteq> j"
  shows "st_pid (ts_streams (ctx_ts c) ! i) \<noteq> st_pid (ts_streams (ctx_ts c) ! j)"
proof -
  have "distinct (map st_pid (ts_streams (ctx_ts c)))"
    using assms(1) by (simp add: ts_ctx_ok_def stream_conf_def comp_def)
  then show ?thesis using assms(2-4) by (auto simp: distinct_conv_nth)
qed

section \<open>Frames carry the data\<close>

lemma follows_set_stream:
  assumes "ts_file_inv (ctx_ts c)" "i < length (ts_streams (ctx_ts c))"
    "stream_conf st = stream_conf (ts_streams (ctx_ts c) ! i)"
  shows "follows c (set_stream c i st) []"
  using assms ts_conf_set_stream [OF assms(2,3)]
  by (simp add: follows_def set_stream_def ts_emits_def ts_file_inv_frame)

lemma follows_bump: "ts_file_inv (ctx_ts c) \<Longrightarrow> follows c (bump_pat_pmt c) []"
  by (simp add: follows_def bump_pat_pmt_def ts_emits_def ts_file_inv_def ts_written_def ts_conf_def)

text \<open>The video frames: \<open>pre\<close> fits into the buffer, so nothing is written behind it.\<close>

lemma video_frame:
  assumes ok: "ts_ctx_ok c" and i: "i < length (ts_streams (ctx_ts c))"
    and pre: "length pre \<le> 7 + length (st_vos (ts_streams (ctx_ts c) ! i))"
  obtains c1 pts c2 where
    "pes_gather (bump_pat_pmt c) pre pkt = Some (pre @ pk_data0 pkt @ pk_data1 pkt, c1)"
    "video_pts c1 pkt = (pts, c2)"
    "follows c (set_stream c2 i ((ts_streams (ctx_ts c) ! i)\<lparr>st_first := False\<rparr>)) []"
proof -
  have inv: "ts_file_inv (ctx_ts c)" using ok by (simp add: ts_ctx_ok_def)
  let ?c1 = "(bump_pat_pmt c)\<lparr>pes_bufsize := pes_grow (pes_bufsize c)
    (length (pre @ pk_data0 pkt @ pk_data1 pkt))\<rparr>"
  have g: "pes_gather (bump_pat_pmt c) pre pkt = Some (pre @ pk_data0 pkt @ pk_data1 pkt, ?c1)"
    using pre ts_ctx_ok_stream(4) [OF ok i] by (simp add: pes_gather_def bump_pat_pmt_def)
  obtain pts c2 where v: "video_pts ?c1 pkt = (pts, c2)" by fastforce
  then have c2: "ctx_ts c2 = ctx_ts (bump_pat_pmt c)" "pes_bufsize c2 = pes_bufsize ?c1"
    "v_strm_flag c2 = v_strm_flag c" "a_strm_flag c2 = a_strm_flag c"
    by (auto simp: video_pts_def Let_def bump_pat_pmt_def split: if_splits)
  have "follows c c2 []"
    using follows_bump [OF inv] c2 by (simp add: follows_def pes_grow_def)
  moreover have "follows c2 (set_stream c2 i ((ts_streams (ctx_ts c) ! i)\<lparr>st_first := False\<rparr>)) []"
  proof (rule follows_set_stream)
    show "ts_file_inv (ctx_ts c2)" using \<open>follows c c2 []\<close> by (simp add: follows_def ts_emits_def)
    show "i < length (ts_streams (ctx_ts c2))" using i c2(1) by (simp add: bump_pat_pmt_def)
    show "stream_conf ((ts_streams (ctx_ts c) ! i)\<lparr>st_first := False\<rparr>) =
        stream_conf (ts_streams (ctx_ts c2) ! i)"
      using c2(1) by (simp add: bump_pat_pmt_def stream_conf_def)
  qed
  ultimately show ?thesis using that [OF g v] follows_trans by fastforce
qed

lemma length_be32_bytes [simp]: "length (be32_bytes v) = 4"
  by (simp add: be32_bytes_def Let_def)

lemma length_ts_adts_header [simp]: "length (ts_adts_header ch rate n) = 7"
  by (simp add: ts_adts_header_def Let_def)

definition frame_data :: "codec_id \<Rightarrow> av_packet \<Rightarrow> byte list" where
  "frame_data codec pkt =
     pk_data0 pkt @ (if codec = CODEC_ID_ADPCM \<or> codec = CODEC_ID_GGAD then [] else pk_data1 pkt)"

lemma ts_frame_ok:
  assumes ok: "ts_ctx_ok c" and i: "i < length (ts_streams (ctx_ts c))"
    and data: "5 \<le> length (pk_data0 pkt)"
  obtains pre pts c1 where
    "ts_frame c i pkt =
       Some (Some (pre @ frame_data (st_codec (ts_streams (ctx_ts c) ! i)) pkt, pts), c1)"
    "follows c c1 []"
proof (cases "st_codec (ts_streams (ctx_ts c) ! i)")
  case CODEC_ID_H264
  let ?pre = "h264_prefix (ts_streams (ctx_ts c) ! i) pkt"
  have "length ?pre \<le> 7 + length (st_vos (ts_streams (ctx_ts c) ! i))"
    by (simp add: h264_prefix_def)
  from video_frame [OF ok i this] obtain c1 pts c2 where v:
    "pes_gather (bump_pat_pmt c) ?pre pkt = Some (?pre @ pk_data0 pkt @ pk_data1 pkt, c1)"
    "video_pts c1 pkt = (pts, c2)"
    "follows c (set_stream c2 i ((ts_streams (ctx_ts c) ! i)\<lparr>st_first := False\<rparr>)) []" .
  show ?thesis
    by (rule that [of ?pre pts]) (use v CODEC_ID_H264 in
      \<open>simp_all add: ts_frame_def h264_frame_def Let_def frame_data_def\<close>)
next
  case CODEC_ID_H265
  obtain pre where p: "h265_prefix (ts_streams (ctx_ts c) ! i) pkt = Some pre"
    "length pre \<le> 7 + length (st_vos (ts_streams (ctx_ts c) ! i))"
    using data by (cases "st_first (ts_streams (ctx_ts c) ! i)") (auto simp: h265_prefix_def)
  from video_frame [OF ok i p(2)] obtain c1 pts c2 where v:
    "pes_gather (bump_pat_pmt c) pre pkt = Some (pre @ pk_data0 pkt @ pk_data1 pkt, c1)"
    "video_pts c1 pkt = (pts, c2)"
    "follows c (set_stream c2 i ((ts_streams (ctx_ts c) ! i)\<lparr>st_first := False\<rparr>)) []" .
  show ?thesis
    by (rule that [of pre pts]) (use v p(1) CODEC_ID_H265 in
      \<open>simp_all add: ts_frame_def h265_frame_def Let_def frame_data_def\<close>)
next
  case CODEC_ID_AAC
  then show ?thesis
    using that ts_ctx_ok_stream(5) [OF ok i] ok
    by (fastforce simp: ts_frame_def aac_frame_def aac_pts_def Let_def frame_data_def follows_def
        ts_emits_def ts_ctx_ok_def pes_grow_def)
next
  case CODEC_ID_ADPCM
  then show ?thesis
    using that [of "[]"] ok
    by (fastforce simp: ts_frame_def adpcm_frame_def Let_def frame_data_def follows_def
        ts_emits_def ts_ctx_ok_def pes_grow_def)
next
  case CODEC_ID_GGAD
  then show ?thesis
    using that [of "[]"] ok
    by (fastforce simp: ts_frame_def ggad_frame_def Let_def frame_data_def follows_def
        ts_emits_def ts_ctx_ok_def pes_grow_def)
next
  case CODEC_ID_OTHER
  then show ?thesis using ts_ctx_ok_stream(1) [OF ok i] by simp
qed


text \<open>What the receiver should find for stream \<open>i\<close>: each of its frames behind its PES header.\<close>

definition pes_of :: "ts_ctx \<Rightarrow> nat \<Rightarrow> nat \<times> byte list \<times> u64 \<Rightarrow> byte list" where
  "pes_of c i = (\<lambda>(j, es, pts).
     if j = i then pes_header (st_codec (ts_streams (ctx_ts c) ! i))
         (st_type (ts_streams (ctx_ts c) ! i)) (length es) pts @ es
     else [])"

text \<open>The entry of the log for a packet: its stream, and its data behind what the muxer adds.\<close>

definition carries :: "ts_ctx \<Rightarrow> nat \<times> byte list \<times> u64 \<Rightarrow> av_packet \<Rightarrow> bool" where
  "carries c = (\<lambda>(i, es, pts) pkt.
     i = real_strm_idx c (pk_stream_index pkt) \<and>
     (\<exists>pre. es = pre @ frame_data (st_codec (ts_streams (ctx_ts c) ! i)) pkt))"

definition has_stream :: "ts_ctx \<Rightarrow> av_packet \<Rightarrow> bool" where
  "has_stream c pkt \<longleftrightarrow> real_strm_idx c (pk_stream_index pkt) < length (ts_streams (ctx_ts c))"

lemma carries_pts [simp]:
  "carries c e (pkt\<lparr>pk_pts := v\<rparr>) = carries c e pkt"
  "has_stream c (pkt\<lparr>pk_pts := v\<rparr>) = has_stream c pkt"
  by (cases e) (simp_all add: carries_def has_stream_def frame_data_def)

lemma follows_spec:
  assumes "follows c c1 ps"
  shows "i < length (ts_streams (ctx_ts c)) \<Longrightarrow> pes_of c1 i = pes_of c i"
    and "has_stream c1 pkt = has_stream c pkt"
    and "has_stream c pkt \<Longrightarrow> carries c1 e pkt = carries c e pkt"
  using follows_stream [OF assms] follows_length [OF assms] follows_real_idx [OF assms]
  by (auto simp: pes_of_def has_stream_def carries_def split: prod.splits)

lemma ts_demux_si:
  "\<forall>p \<in> set qs. ts_pid p \<in> si \<Longrightarrow> pid \<notin> si \<Longrightarrow> filter (\<lambda>p. ts_pid p = pid) qs = []"
  by (auto simp: filter_empty_conv)

text \<open>One packet.\<close>

lemma write_packet_ok:
  assumes ok: "ts_ctx_ok c" and idx: "pk_stream_index pkt \<noteq> CODEC_TYPE_DATA"
    and data: "5 \<le> length (pk_data0 pkt)"
  obtains log c' ps where "ts_write_packet c pkt = Some (log, c')" "follows c c' ps"
    "list_all2 (carries c) log (filter (has_stream c) [pkt])"
    "\<And>i. i < length (ts_streams (ctx_ts c)) \<Longrightarrow>
       concat (map ts_payload (filter (\<lambda>p. ts_pid p = st_pid (ts_streams (ctx_ts c) ! i)) ps)) =
       concat (map (pes_of c i) log)"
proof -
  let ?i = "real_strm_idx c (pk_stream_index pkt)"
  have i3: "?i < MAX_STREAMS_IN_FILE"
    using idx by (cases "pk_stream_index pkt") (auto simp: real_strm_idx_def MAX_STREAMS_IN_FILE_def)
  show ?thesis
  proof (cases "?i < length (ts_streams (ctx_ts c))")
    case False
    then show ?thesis
      using that [of "[]" c "[]"] i3 follows_refl [of c] ok
      by (simp add: ts_write_packet_def Let_def has_stream_def ts_ctx_ok_def)
  next
    case True
    let ?codec = "st_codec (ts_streams (ctx_ts c) ! ?i)"
    from ts_frame_ok [OF ok True data] obtain pre pts c1 where
      f: "ts_frame c ?i pkt = Some (Some (pre @ frame_data ?codec pkt, pts), c1)" "follows c c1 []" .
    let ?es = "pre @ frame_data ?codec pkt"
    have es: "?es \<noteq> []" using data by (auto simp: frame_data_def)
    note ok1 = follows_ok [OF f(2) ok] and st1 = follows_stream [OF f(2)]
    have inv1: "ts_file_inv (ctx_ts c1)" "pids_small (ctx_ts c1)"
      using ok1 by (simp_all add: ts_ctx_ok_def)
    from mpegts_write_pes_file [OF inv1 st1(1) [OF True]] obtain t qs where
      t: "mpegts_write_pes (ctx_ts c1) ?i ?es pts (pk_stream_index pkt) = Some t"
      "ts_emits (ctx_ts c1) t (qs @ ts_pes_packets (ctx_ts c1) ?i ?es pts)"
      "\<forall>p \<in> set qs. ts_pid p \<in> si_pids (ctx_ts c1)" .
    let ?c2 = "c1\<lparr>ctx_ts := t\<rparr>" and ?ps = "qs @ ts_pes_packets (ctx_ts c1) ?i ?es pts"
    have w: "ts_write_packet c pkt = Some ([(?i, ?es, pts)], ?c2)"
      using f(1) t(1) i3 True by (simp add: ts_write_packet_def Let_def)
    have "follows c1 ?c2 ?ps" using t(2) by (simp add: follows_def)
    then have fo: "follows c ?c2 ?ps" using follows_trans [OF f(2)] by fastforce
    have l: "list_all2 (carries c) [(?i, ?es, pts)] (filter (has_stream c) [pkt])"
      using True by (simp add: has_stream_def carries_def)
    have "concat (map ts_payload (filter (\<lambda>p. ts_pid p = st_pid (ts_streams (ctx_ts c) ! k)) ?ps)) =
        concat (map (pes_of c k) [(?i, ?es, pts)])" if k: "k < length (ts_streams (ctx_ts c))" for k
    proof -
      have "st_pid (ts_streams (ctx_ts c) ! k) \<notin> si_pids (ctx_ts c1)"
        using ts_ctx_ok_stream(3) [OF ok1 st1(1) [OF k]] st1(4) [OF k] by simp
      then have none: "filter (\<lambda>p. ts_pid p = st_pid (ts_streams (ctx_ts c) ! k)) qs = []"
        using ts_demux_si [OF t(3)] by simp
      have same: "st_pid (ts_streams (ctx_ts c) ! k) = st_pid (ts_streams (ctx_ts c) ! ?i) \<longleftrightarrow> k = ?i"
        using ts_ctx_ok_pids [OF ok k True] by auto
      show ?thesis
        using ts_pes_packets_demux [OF es ts_ctx_ok_stream(2) [OF ok1 st1(1) [OF True]],
            of "st_pid (ts_streams (ctx_ts c) ! k)" pts]
          st1(2-4) [OF True] none
        by (cases "k = ?i") (simp_all add: same pes_of_def)
    qed
    then show ?thesis using that [OF w fo l] by blast
  qed
qed

text \<open>A recording.\<close>

definition pkt_ok :: "av_packet \<Rightarrow> bool" where
  "pkt_ok pkt \<longleftrightarrow> pk_stream_index pkt \<noteq> CODEC_TYPE_DATA \<and> 5 \<le> length (pk_data0 pkt)"

lemma ts_record_ok:
  "ts_ctx_ok c \<Longrightarrow> list_all pkt_ok pkts \<Longrightarrow>
    \<exists>log c' ps. ts_record c pkts = Some (log, c') \<and> follows c c' ps \<and>
      list_all2 (carries c) log (filter (has_stream c) pkts) \<and>
      (\<forall>i < length (ts_streams (ctx_ts c)).
        concat (map ts_payload (filter (\<lambda>p. ts_pid p = st_pid (ts_streams (ctx_ts c) ! i)) ps)) =
        concat (map (pes_of c i) log))"
proof (induction pkts arbitrary: c)
  case Nil
  then show ?case
    by (intro exI [of _ "[]"] exI [of _ c]) (simp add: follows_refl ts_ctx_ok_def)
next
  case (Cons pkt pkts)
  let ?p = "pkt\<lparr>pk_pts := word_of_int (sint (pk_pts pkt) sdiv 1000)\<rparr>"
  have p: "pk_stream_index ?p \<noteq> CODEC_TYPE_DATA" "5 \<le> length (pk_data0 ?p)"
    using Cons.prems(2) by (simp_all add: pkt_ok_def)
  from write_packet_ok [OF Cons.prems(1) p] obtain l1 c1 ps1 where
    w: "ts_write_packet c ?p = Some (l1, c1)" "follows c c1 ps1"
    "list_all2 (carries c) l1 (filter (has_stream c) [?p])"
    "\<And>i. i < length (ts_streams (ctx_ts c)) \<Longrightarrow>
       concat (map ts_payload (filter (\<lambda>p. ts_pid p = st_pid (ts_streams (ctx_ts c) ! i)) ps1)) =
       concat (map (pes_of c i) l1)" by blast
  obtain l2 c2 ps2 where r: "ts_record c1 pkts = Some (l2, c2)" "follows c1 c2 ps2"
    "list_all2 (carries c1) l2 (filter (has_stream c1) pkts)"
    "\<forall>i < length (ts_streams (ctx_ts c1)).
       concat (map ts_payload (filter (\<lambda>p. ts_pid p = st_pid (ts_streams (ctx_ts c1) ! i)) ps2)) =
       concat (map (pes_of c1 i) l2)"
    using Cons.IH [OF follows_ok [OF w(2) Cons.prems(1)]] Cons.prems(2) by auto
  note sp = follows_spec [OF w(2)]
  have "list_all2 (carries c) l1 (filter (has_stream c) [pkt])"
    using w(3) by (auto simp: list_all2_Cons2 split: if_splits)
  moreover have "list_all2 (carries c) l2 (filter (has_stream c) pkts)"
  proof (rule list.rel_mono_strong)
    show "list_all2 (carries c1) l2 (filter (has_stream c) pkts)" using r(3) sp(2) by (simp cong: filter_cong)
  qed (use sp(3) in auto)
  ultimately have "list_all2 (carries c) (l1 @ l2) (filter (has_stream c) (pkt # pkts))"
    using list_all2_appendI by fastforce
  moreover have "ts_record c (pkt # pkts) = Some (l1 @ l2, c2)"
    using w(1) r(1) by (simp add: Mpeg2tsMuxerWritePacket_def)
  moreover have "follows c c2 (ps1 @ ps2)" using follows_trans [OF w(2) r(2)] .
  moreover have "concat (map ts_payload
      (filter (\<lambda>p. ts_pid p = st_pid (ts_streams (ctx_ts c) ! i)) (ps1 @ ps2))) =
      concat (map (pes_of c i) (l1 @ l2))" if "i < length (ts_streams (ctx_ts c))" for i
    using w(4) [OF that] r(4) [rule_format, OF follows_stream(1) [OF w(2) that]]
      follows_stream(4) [OF w(2) that] sp(1) [OF that] by simp
  ultimately show ?case by blast
qed

text \<open>The set-up gives a good context.\<close>

lemma media_streams_ok:
  "st \<in> set (media_streams mi) \<Longrightarrow> st_vos st = [] \<and> st_codec st \<noteq> CODEC_ID_OTHER \<and>
    st_pid st \<in> {0x1011, 0x1100, 0x300} \<and> (st_codec st = CODEC_ID_AAC \<longrightarrow> st_sample_rate st \<noteq> 0)"
  by (auto simp: media_streams_def ts_new_stream_def split: if_splits)

lemma media_streams_distinct: "distinct (map st_pid (media_streams mi))"
  by (auto simp: media_streams_def ts_new_stream_def)

lemma ioctrl_SETAVPARA_ok:
  assumes buf: "length buf = TS_CACHE_SIZE"
    and set: "ioctrl_SETAVPARA (Mpeg2tsMuxerOpen buf) mi = Some c"
  shows "ts_ctx_ok c" "ts_written (ctx_ts c) = []" "ts_streams (ctx_ts c) = media_streams mi"
    "pes_bufsize c = 524288"
proof -
  have c: "ctx_ts c = (ctx_ts (Mpeg2tsMuxerOpen buf))\<lparr>ts_streams := media_streams mi,
        ts_services := [\<lparr>svc_pmt = \<lparr>sec_pid = 0x0100, sec_cc = 15\<rparr>, svc_sid = 1,
                         svc_pcr_pid = 0x1000\<rparr>], pat_packet_period := 3, pat_packet_count := 3\<rparr>"
    and n: "pes_bufsize c = 524288"
    using set by (auto simp: ioctrl_SETAVPARA_def Mpeg2tsMuxerOpen_def Let_def split: if_splits)
  show "pes_bufsize c = 524288" by (rule n)
  show "ts_written (ctx_ts c) = []" "ts_streams (ctx_ts c) = media_streams mi"
    by (simp_all add: c ts_written_def Mpeg2tsMuxerOpen_def)
  have "ts_file_inv (ctx_ts c)"
    using buf by (simp add: c ts_file_inv_def Mpeg2tsMuxerOpen_def TS_CACHE_SIZE_def)
  moreover have si: "si_pids (ctx_ts c) = {0x1000, 0, 0x100}"
    by (simp add: c si_pids_def Mpeg2tsMuxerOpen_def insert_commute)
  moreover have "pids_small (ctx_ts c)" by (simp add: pids_small_def si)
  moreover have "conf_ok (si_pids (ctx_ts c)) (pes_bufsize c) (stream_conf st)"
    if "st \<in> set (media_streams mi)" for st
    using media_streams_ok [OF that] by (auto simp: conf_ok_def stream_conf_def si n)
  ultimately show "ts_ctx_ok c"
    using media_streams_distinct [of mi] by (auto simp: ts_ctx_ok_def c stream_conf_def comp_def)
qed

lemma Mpeg2tsMuxerWriteVos_ok:
  assumes ok: "ts_ctx_ok c" and vos: "7 + length vos \<le> pes_bufsize c"
    and w: "Mpeg2tsMuxerWriteVos c vos i = Some c'"
  shows "ts_ctx_ok c'" "ts_written (ctx_ts c') = ts_written (ctx_ts c)"
proof -
  let ?s = "(ts_streams (ctx_ts c) ! i)\<lparr>st_vos := vos\<rparr>"
  have i: "i < length (ts_streams (ctx_ts c))" and c': "c' = set_stream c i ?s"
    using w by (simp_all add: Mpeg2tsMuxerWriteVos_def split: if_splits)
  let ?sts = "ts_streams (ctx_ts c)"
  have si: "si_pids (ctx_ts c') = si_pids (ctx_ts c)" by (simp add: c' set_stream_def si_pids_def)
  have p: "map st_pid (?sts[i := ?s]) = map st_pid ?sts"
    using i by (simp add: map_update list_update_same_conv)
  have "conf_ok (si_pids (ctx_ts c)) (pes_bufsize c) (stream_conf ?s)"
    using ts_ctx_ok_stream [OF ok i] vos by (simp add: conf_ok_def stream_conf_def)
  then have "\<forall>s \<in> set (?sts[i := ?s]). conf_ok (si_pids (ctx_ts c)) (pes_bufsize c) (stream_conf s)"
    using ok set_update_subset_insert [of ?sts i ?s] by (auto simp: ts_ctx_ok_def)
  moreover have "distinct (map st_pid (?sts[i := ?s]))"
    using ok unfolding p by (simp add: ts_ctx_ok_def stream_conf_def comp_def)
  ultimately show "ts_ctx_ok c'"
    using ok si
    by (simp add: ts_ctx_ok_def pids_small_def c' set_stream_def ts_file_inv_frame stream_conf_def
        comp_def)
  show "ts_written (ctx_ts c') = ts_written (ctx_ts c)"
    by (simp add: c' set_stream_def ts_file_inv_frame)
qed

text \<open>
  C1: A transport stream recorded to a file gives every frame back. After \<open>SETAVPARA\<close> and the
  parameter sets of stream 0, any sequence of packets (with at least five bytes each, as the
  H.265 path reads) is written without a fault; the finished file is a whole number of 188-byte
  packets, and demultiplexing the PID of a stream yields exactly its frames in order, each
  behind its PES header, each holding the data of its packet.
\<close>

theorem ts_recording_demultiplexes:
  assumes "length buf = TS_CACHE_SIZE"
    and "ioctrl_SETAVPARA (Mpeg2tsMuxerOpen buf) mi = Some c0"
    and "length vos \<le> 524281"
    and "Mpeg2tsMuxerWriteVos c0 vos 0 = Some c"
    and "list_all pkt_ok pkts"
  shows "\<exists>log c' t. ts_record c pkts = Some (log, c') \<and>
    list_all2 (carries c) log (filter (has_stream c) pkts) \<and>
    ts_write_trailer (ctx_ts c') = Some t \<and> 188 dvd length (concat (ts_out t)) \<and>
    (\<forall>i < length (ts_streams (ctx_ts c)).
       ts_demux (st_pid (ts_streams (ctx_ts c) ! i)) (concat (ts_out t)) =
       concat (map (pes_of c i) log))"
proof -
  note c0 = ioctrl_SETAVPARA_ok [OF assms(1,2)]
  have "7 + length vos \<le> pes_bufsize c0" using assms(3) c0(4) by simp
  note c = Mpeg2tsMuxerWriteVos_ok [OF c0(1) this assms(4)]
  obtain log c' ps where r: "ts_record c pkts = Some (log, c')" "follows c c' ps"
    "list_all2 (carries c) log (filter (has_stream c) pkts)"
    "\<forall>i < length (ts_streams (ctx_ts c)).
       concat (map ts_payload (filter (\<lambda>p. ts_pid p = st_pid (ts_streams (ctx_ts c) ! i)) ps)) =
       concat (map (pes_of c i) log)"
    using ts_record_ok [OF c(1) assms(5)] by blast
  have e: "ts_file_inv (ctx_ts c')" "ts_written (ctx_ts c') = concat ps" "\<forall>p \<in> set ps. length p = 188"
    using r(2) c(2) c0(2) by (auto simp: follows_def ts_emits_def)
  obtain t where t: "ts_write_trailer (ctx_ts c') = Some t" "concat (ts_out t) = concat ps"
    using ts_write_trailer_file [OF e(1)] e(2) by auto
  have "length (concat ps) = 188 * length ps"
    using e(3) by (induction ps) auto
  then show ?thesis
    using r(1,3,4) t ts_demux_concat [OF e(3)] by (intro exI [of _ log] exI [of _ c'] exI [of _ t]) simp
qed


lemma ts_recording_demultiplexes_witness:
  "\<exists>c0 c log c' t.
    ioctrl_SETAVPARA (Mpeg2tsMuxerOpen (replicate TS_CACHE_SIZE 0))
      \<lparr>mi_nWidth = 1920, mi_venc = VENC_CODEC_H264, mi_channels = 1, mi_sample_rate = 8000,
       mi_audio_encode_type = 0, mi_text_encode_type = 1, mi_geo_available = False\<rparr> = Some c0 \<and>
    Mpeg2tsMuxerWriteVos c0 [0, 0, 0, 1, 0x67] 0 = Some c \<and>
    ts_record c [\<lparr>pk_pts = 0, pk_data0 = [0, 0, 0, 1, 0x65], pk_data1 = [7],
                  pk_stream_index = CODEC_TYPE_VIDEO, pk_flags = 1\<rparr>] = Some (log, c') \<and>
    list_all2 (carries c) log [\<lparr>pk_pts = 0, pk_data0 = [0, 0, 0, 1, 0x65], pk_data1 = [7],
                  pk_stream_index = CODEC_TYPE_VIDEO, pk_flags = 1\<rparr>] \<and>
    ts_write_trailer (ctx_ts c') = Some t \<and> 188 dvd length (concat (ts_out t)) \<and>
    ts_demux (st_pid (ts_streams (ctx_ts c) ! 0)) (concat (ts_out t)) =
      concat (map (pes_of c 0) log)"
proof -
  let ?buf = "replicate TS_CACHE_SIZE (0 :: byte)"
  let ?mi = "\<lparr>mi_nWidth = 1920, mi_venc = VENC_CODEC_H264, mi_channels = 1, mi_sample_rate = 8000,
       mi_audio_encode_type = 0, mi_text_encode_type = 1, mi_geo_available = False\<rparr>"
  let ?p = "\<lparr>pk_pts = 0, pk_data0 = [0, 0, 0, 1, 0x65], pk_data1 = [7],
                  pk_stream_index = CODEC_TYPE_VIDEO, pk_flags = 1\<rparr>"
  let ?vos = "[0, 0, 0, 1, 0x67] :: byte list"
  have "length (media_streams ?mi) = 2" by (simp add: media_streams_def ts_new_stream_def)
  moreover obtain c0 where c0: "ioctrl_SETAVPARA (Mpeg2tsMuxerOpen ?buf) ?mi = Some c0"
    by (simp add: ioctrl_SETAVPARA_def Mpeg2tsMuxerOpen_def media_streams_def ts_new_stream_def
        MAX_STREAMS_IN_FILE_def Let_def)
  ultimately have "length (ts_streams (ctx_ts c0)) = 2"
    using ioctrl_SETAVPARA_ok(3) [OF _ c0] by simp
  then obtain c where c: "Mpeg2tsMuxerWriteVos c0 ?vos 0 = Some c"
    "length (ts_streams (ctx_ts c)) = 2"
    by (simp add: Mpeg2tsMuxerWriteVos_def set_stream_def)
  have "v_strm_flag c \<and> a_strm_flag c"
    using c0 c(1) by (auto simp: ioctrl_SETAVPARA_def Mpeg2tsMuxerOpen_def Mpeg2tsMuxerWriteVos_def
        set_stream_def Let_def split: if_splits)
  then have "has_stream c ?p"
    using c(2) by (simp add: has_stream_def real_strm_idx_def)
  then show ?thesis
    using ts_recording_demultiplexes [OF _ c0 _ c(1), of "[?p]"] c0 c
    by (fastforce simp: pkt_ok_def)
qed

end
