(* ===== verification/TsReceiver.thy ===== *)
theory TsReceiver
  imports TsDrv
begin

text \<open>
  What a receiver makes of the transport stream: sections are reassembled and their checksum
  tested, the program map is parsed back into the streams, time stamps and clock references are
  read back, and the continuity counters of a frame are those of consecutive packets. The last
  section states what happens to a frame larger than the packet cache in the callback mode.
\<close>

section \<open>Sections\<close>

definition r16 :: "byte \<Rightarrow> byte \<Rightarrow> u32" where
  "r16 hi lo = or (push_bit 8 (ucast hi)) (ucast lo)"

lemma r16_put16: "r16 (ucast (drop_bit 8 v)) (ucast v) = take_bit 16 v"
  by (rule bit_word_eqI) (auto simp: r16_def bit_simps)

lemma pid_field: "pid < 0x2000 \<Longrightarrow> take_bit 13 (take_bit 16 (or 0xe000 pid)) = (pid :: u32)"
  by (simp add: take_bit_take_bit take_bit_or pid_13)

lemma take_bit_small: "n < 2 ^ k \<Longrightarrow> take_bit k (of_nat n :: u32) = of_nat n"
  by (metis of_nat_take_bit take_bit_nat_eq_self)

lemma len_field: "n < 4096 \<Longrightarrow> take_bit 12 (take_bit 16 (or 0xb000 (of_nat n))) = (of_nat n :: u32)"
  using take_bit_small [of n 12] by (simp add: take_bit_take_bit take_bit_or)

text \<open>The bytes of a section behind its pointer field, if its checksum is right.\<close>

definition read_section :: "byte list \<Rightarrow> byte list option" where
  "read_section bs =
     (let sec = drop 1 bs;
          len = 3 + unat (take_bit 12 (r16 (sec ! 1) (sec ! 2)));
          whole = take len sec
      in if length whole = len \<and> GenerateCRC32 whole = 0 then Some (drop 8 (take (len - 4) whole))
         else None)"

lemma section_packets_payload:
  "section_packets pid cc first buf = (ps, c) \<Longrightarrow> buf \<noteq> [] \<Longrightarrow>
    \<exists>k. concat (map ts_payload ps) = (if first then [0] else []) @ buf @ replicate k 0xff"
proof (induction "length buf" arbitrary: cc first buf ps rule: less_induct)
  case less
  obtain ps' where
    r: "section_packets pid (and (cc + 1) 0xf) False (drop (section_len first buf) buf) = (ps', c)"
    "ps = section_packet pid (and (cc + 1) 0xf) first (take (section_len first buf) buf) # ps'"
    using less.prems by (rule section_packets_step)
  have sl: "0 < section_len first buf" "section_len first buf \<le> length buf"
    using less.prems(2) by (simp_all add: section_len_def TS_PACKET_SIZE_def)
  show ?case
  proof (cases "drop (section_len first buf) buf = []")
    case True
    then have "ps' = []" using r(1) by (simp add: section_packets_Nil)
    then show ?thesis using r(2) True by (auto simp: ts_payload_section)
  next
    case False
    then have "section_len first buf = (if first then 183 else 184)"
      by (auto simp: section_len_def TS_PACKET_SIZE_def min_def split: if_splits)
    then have p: "ts_payload (section_packet pid (and (cc + 1) 0xf) first
        (take (section_len first buf) buf)) =
        (if first then [0] else []) @ take (section_len first buf) buf"
      using sl by (simp add: ts_payload_section)
    have "length (drop (section_len first buf) buf) < length buf" using sl by simp
    from less.hyps [OF this r(1) False] obtain k where
      "concat (map ts_payload ps') = drop (section_len first buf) buf @ replicate k 0xff" by auto
    then show ?thesis using r(2) p by (intro exI [of _ k]) simp
  qed
qed

lemma length_section_header [simp]: "length (section_header tid id' v sn lsn len) = 8"
  by (simp add: section_header_def put16_def)

lemma length_crc_bytes [simp]: "length (crc_bytes c) = 4"
  by (simp add: crc_bytes_def)

lemma section_header_len:
  "section_header tid id' v sn lsn len ! 1 = ucast (drop_bit 8 (or 0xb000 (of_nat (len + 9) :: u32)))"
  "section_header tid id' v sn lsn len ! 2 = ucast (or 0xb000 (of_nat (len + 9) :: u32))"
  by (simp_all add: section_header_def put16_def add.commute)

lemma read_section_ok:
  assumes "length buf + 12 \<le> 1024"
  shows "read_section (0 # (section_header tid id' v sn lsn (length buf) @ buf) @
      crc_bytes (GenerateCRC32 (section_header tid id' v sn lsn (length buf) @ buf)) @
      replicate k 0xff) = Some buf"
proof -
  let ?h = "section_header tid id' v sn lsn (length buf)"
  let ?crc = "crc_bytes (GenerateCRC32 (?h @ buf))"
  let ?sec = "(?h @ buf) @ ?crc @ replicate k 0xff"
  have "take_bit 12 (r16 (?h ! 1) (?h ! 2)) = (of_nat (length buf + 9) :: u32)"
    unfolding section_header_len r16_put16 using assms by (intro len_field) simp
  moreover have u: "unat (of_nat (length buf + 9) :: u32) = length buf + 9"
    by (simp only: unat_of_nat) (use assms in simp)
  ultimately have len: "unat (take_bit 12 (r16 (?sec ! 1) (?sec ! 2))) = length buf + 9"
    using u by (simp add: nth_append)
  have whole: "take (length buf + 12) ?sec = (?h @ buf) @ ?crc" by simp
  have "GenerateCRC32 ((?h @ buf) @ ?crc) = 0" by (rule GenerateCRC32_append)
  moreover have "drop 8 (take (length buf + 8) ((?h @ buf) @ ?crc)) = buf" by simp
  ultimately show ?thesis
    using len whole by (simp add: read_section_def Let_def)
qed


text \<open>
  C13: A table written to a file reaches the receiver: the packets carry the section's PID, and
  reassembling their payloads gives a section with a right checksum and the bytes handed in.
\<close>

theorem section_is_received:
  assumes inv: "ts_file_inv t" and pid: "sec_pid s < 0x2000" and len: "length buf + 12 \<le> 1024"
  shows "\<exists>s' t' ps. mpegts_write_section1 t s tid id' v sn lsn buf = Some (True, s', t') \<and>
    ts_written t' = ts_written t @ concat ps \<and> (\<forall>p \<in> set ps. length p = 188 \<and> ts_pid p = sec_pid s) \<and>
    read_section (concat (map ts_payload ps)) = Some buf"
proof -
  let ?d = "section_header tid id' v sn lsn (length buf) @ buf"
  let ?b = "?d @ [0, 0, 0, 0]"
  obtain ps c where ps:
    "section_packets (sec_pid s) (sec_cc s) True (?d @ crc_bytes (GenerateCRC32 ?d)) = (ps, c)"
    by fastforce
  have l: "\<forall>p \<in> set ps. length p = 188" using section_packets_length [OF ps] .
  from ts_puts_file [OF inv l] obtain t' where
    t': "ts_puts t ps = Some t'" "ts_written t' = ts_written t @ concat ps" by blast
  have tk: "take (length ?b - 4) ?b = ?d" by simp
  have "mpegts_write_section1 t s tid id' v sn lsn buf = Some (True, s\<lparr>sec_cc := c\<rparr>, t')"
    using len ps t'(1) by (simp add: mpegts_write_section1_def mpegts_write_section_def Let_def tk
        del: append_assoc)
  moreover obtain k where
    "concat (map ts_payload ps) = [0] @ (?d @ crc_bytes (GenerateCRC32 ?d)) @ replicate k 0xff"
    using section_packets_payload [OF ps] by (auto simp: crc_bytes_def)
  then have "read_section (concat (map ts_payload ps)) = Some buf"
    using read_section_ok [OF len, of tid id' v sn lsn k] by simp
  ultimately show ?thesis using t'(2) l section_packets_pid [OF ps pid] by blast
qed

section \<open>The program map\<close>

text \<open>The streams of a program map: stream type and PID of each, its descriptors skipped.\<close>

function read_es :: "byte list \<Rightarrow> (byte \<times> u32) list" where
  "read_es bs =
     (case bs of
        ty # p1 # p2 # d1 # d2 # rest \<Rightarrow>
          (ty, take_bit 13 (r16 p1 p2)) # read_es (drop (unat (take_bit 12 (r16 d1 d2))) rest)
      | _ \<Rightarrow> [])"
  by pat_completeness auto
termination by (relation "measure length") auto

declare read_es.simps [simp del]

definition read_pmt :: "byte list \<Rightarrow> u32 \<times> (byte \<times> u32) list" where
  "read_pmt bs =
     (take_bit 13 (r16 (bs ! 0) (bs ! 1)),
      read_es (drop (4 + unat (take_bit 12 (r16 (bs ! 2) (bs ! 3)))) bs))"

lemma read_es_Cons:
  "read_es (ty # p1 # p2 # d1 # d2 # rest) =
    (ty, take_bit 13 (r16 p1 p2)) # read_es (drop (unat (take_bit 12 (r16 d1 d2))) rest)"
  by (subst read_es.simps) simp

lemma desc_len: "take_bit 12 (r16 0xf0 0xf000) = 0" "take_bit 12 (r16 0xf0 0xf004) = 4"
  by (simp_all add: r16_def)

lemma read_pid:
  assumes "pid < 0x2000"
  shows "take_bit 13 (r16 (ucast (or 0xe0 (drop_bit 8 pid))) (ucast (or 0xe000 pid))) = pid"
  using pid_field [OF assms] r16_put16 [of "or 0xe000 pid"] by simp

definition es_entry :: "ts_stream \<Rightarrow> byte \<times> u32" where
  "es_entry st = (ucast (stream_type (- 1) (st_codec st)), st_pid st)"

lemma read_pmt_streams:
  "\<forall>st \<in> set sts. st_codec st \<noteq> CODEC_ID_OTHER \<and> st_pid st < 0x2000 \<Longrightarrow>
    read_es (pmt_streams old sts) = map es_entry sts"
proof (induction sts arbitrary: old)
  case Nil
  then show ?case by (simp add: read_es.simps)
next
  case (Cons st sts)
  have "stream_type old (st_codec st) = stream_type (- 1) (st_codec st)"
    using Cons.prems by (cases "st_codec st") (simp_all add: stream_type_def)
  then show ?case
    using Cons.IH Cons.prems read_pid [of "st_pid st"]
    by (simp add: Let_def put16_def read_es_Cons desc_len es_entry_def)
qed

lemma read_pmt_data:
  assumes "\<forall>st \<in> set sts. st_codec st \<noteq> CODEC_ID_OTHER \<and> st_pid st < 0x2000"
    and "svc_pcr_pid svc < 0x2000"
  shows "read_pmt (pmt_data svc sts) = (svc_pcr_pid svc, map es_entry sts)"
  using read_pmt_streams [OF assms(1)] read_pid [OF assms(2)]
  by (simp add: read_pmt_def pmt_data_def put16_def desc_len)

lemma length_pmt_data: "length (pmt_data svc sts) \<le> 4 + 9 * length sts"
proof -
  have "length (pmt_streams old sts) \<le> 9 * length sts" for old
    by (induction sts arbitrary: old) (auto simp: Let_def put16_def intro: trans_le_add2)
  then show ?thesis by (simp add: pmt_data_def put16_def)
qed

text \<open>
  C12: The program map written to a file tells the receiver the streams: parsing the reassembled
  section gives the PCR PID and, for every stream in order, its stream type and its PID.
\<close>

theorem pmt_is_received:
  assumes inv: "ts_file_inv t" and i: "i < length (ts_services t)"
    and pids: "sec_pid (svc_pmt (ts_services t ! i)) < 0x2000"
      "svc_pcr_pid (ts_services t ! i) < 0x2000"
    and sts: "\<forall>st \<in> set (ts_streams t). st_codec st \<noteq> CODEC_ID_OTHER \<and> st_pid st < 0x2000"
    and n: "length (ts_streams t) \<le> 112"
  shows "\<exists>t' ps sec. mpegts_write_pmt t i = Some t' \<and>
    ts_written t' = ts_written t @ concat ps \<and>
    read_section (concat (map ts_payload ps)) = Some sec \<and>
    read_pmt sec = (svc_pcr_pid (ts_services t ! i), map es_entry (ts_streams t))"
proof -
  let ?svc = "ts_services t ! i"
  let ?d = "pmt_data ?svc (ts_streams t)"
  let ?b = "section_header PMT_TID (svc_sid ?svc) 1 0 0 (length ?d) @ ?d"
  have len: "length ?d + 12 \<le> 1024" using length_pmt_data [of ?svc "ts_streams t"] n by linarith
  obtain ps c where ps: "section_packets (sec_pid (svc_pmt ?svc)) (sec_cc (svc_pmt ?svc)) True
      (?b @ crc_bytes (GenerateCRC32 ?b)) = (ps, c)"
    by fastforce
  from ts_puts_file [OF inv section_packets_length [OF ps]] obtain t' where
    t': "ts_puts t ps = Some t'" "ts_written t' = ts_written t @ concat ps" by blast
  have tk: "take (length (?b @ [0, 0, 0, 0]) - 4) (?b @ [0, 0, 0, 0]) = ?b" by simp
  let ?t' = "t'\<lparr>ts_services := (ts_services t')[i := ?svc\<lparr>svc_pmt := (svc_pmt ?svc)\<lparr>sec_cc := c\<rparr>\<rparr>]\<rparr>"
  have "mpegts_write_pmt t i = Some ?t'"
    using len ps t'(1)
    by (simp add: mpegts_write_pmt_def mpegts_write_section1_def mpegts_write_section_def Let_def tk
        del: append_assoc)
  moreover have "ts_written ?t' = ts_written t @ concat ps" using t'(2) by (simp add: ts_file_inv_frame)
  moreover obtain k where
    "concat (map ts_payload ps) = [0] @ (?b @ crc_bytes (GenerateCRC32 ?b)) @ replicate k 0xff"
    using section_packets_payload [OF ps] by (auto simp: crc_bytes_def)
  then have "read_section (concat (map ts_payload ps)) = Some ?d"
    using read_section_ok [OF len, of PMT_TID "svc_sid ?svc" 1 0 0 k] by simp
  ultimately show ?thesis using read_pmt_data [OF sts pids(2)] by blast
qed

section \<open>Time stamps\<close>

definition read_pts :: "byte list \<Rightarrow> u64" where
  "read_pts bs =
     or (push_bit 30 (and (drop_bit 1 (ucast (bs ! 0))) 7))
        (or (push_bit 15 (drop_bit 1 (or (push_bit 8 (ucast (bs ! 1))) (ucast (bs ! 2)))))
            (drop_bit 1 (or (push_bit 8 (ucast (bs ! 3))) (ucast (bs ! 4)))))"

definition read_pcr :: "byte list \<Rightarrow> u64" where
  "read_pcr p =
     or (push_bit 25 (ucast (p ! 6))) (or (push_bit 17 (ucast (p ! 7)))
       (or (push_bit 9 (ucast (p ! 8))) (or (push_bit 1 (ucast (p ! 9))) (drop_bit 7 (ucast (p ! 10))))))"


lemma mask_bits:
  "and x 7 = take_bit 3 (x :: u64)" "and x 0x7fff = take_bit 15 (x :: u64)"
  by (simp_all add: take_bit_eq_mask mask_eq_exp_minus_1)

lemma join_bytes: "or (push_bit 8 (ucast (ucast (drop_bit 8 v) :: byte))) (ucast (ucast v :: byte)) =
    take_bit 16 (v :: u64)"
  by (rule bit_word_eqI) (auto simp: bit_simps)

lemmas bit_only = bit_drop_bit_eq bit_take_bit_iff bit_or_iff bit_push_bit_iff bit_1_iff
  bit_unsigned_iff comp_def

lemma pts_marker_word:
  "drop_bit 1 (take_bit 16 (or (push_bit 1 (take_bit 15 x)) 1)) = take_bit 15 (x :: u64)"
proof (rule bit_word_eqI)
  fix n :: nat
  assume "n < LENGTH(64)"
  then show "bit (drop_bit 1 (take_bit 16 (or (push_bit 1 (take_bit 15 x)) 1))) n = bit (take_bit 15 x) n"
    by (simp only: bit_only) auto
qed

lemma pts_marker_byte:
  "take_bit 3 (drop_bit 1 (ucast (ucast (or (or (push_bit 5 1) (push_bit 1 (take_bit 3 x))) 1) :: byte))) =
    take_bit 3 (x :: u64)"
proof (rule bit_word_eqI)
  fix n :: nat
  assume "n < LENGTH(64)"
  then show "bit (take_bit 3 (drop_bit 1 (ucast (ucast (or (or (push_bit 5 1)
      (push_bit 1 (take_bit 3 x))) 1) :: byte) :: u64))) n = bit (take_bit 3 x) n"
    by (simp only: bit_only) auto
qed

lemma pts_join:
  "or (push_bit 30 (take_bit 3 (drop_bit 30 x))) (or (push_bit 15 (take_bit 15 (drop_bit 15 x)))
     (take_bit 15 x)) = take_bit 33 (x :: u64)"
proof (rule bit_word_eqI)
  fix n :: nat
  assume n: "n < LENGTH(64)"
  consider "n < 15" | "15 \<le> n" "n < 30" | "30 \<le> n" by linarith
  then show "bit (or (push_bit 30 (take_bit 3 (drop_bit 30 x)))
      (or (push_bit 15 (take_bit 15 (drop_bit 15 x))) (take_bit 15 x))) n = bit (take_bit 33 x) n"
    by cases (use n in \<open>auto simp: bit_simps\<close>)
qed

lemma read_pts_write: "read_pts (write_pts 2 pts) = take_bit 33 pts"
proof -
  have two: "push_bit 4 (ucast (2 :: u32)) = (push_bit 5 1 :: u64)" by simp
  let ?v2 = "or (push_bit 1 (take_bit 15 (drop_bit 15 pts))) 1"
  let ?v3 = "or (push_bit 1 (take_bit 15 pts)) 1"
  have w: "write_pts 2 pts =
      [ucast (or (or (push_bit 5 1) (push_bit 1 (take_bit 3 (drop_bit 30 pts)))) 1),
       ucast (drop_bit 8 ?v2), ucast ?v2, ucast (drop_bit 8 ?v3), ucast ?v3]"
    unfolding write_pts_def Let_def mask_bits two ..
  have r: "read_pts [a, b, c, d, e] =
      or (push_bit 30 (take_bit 3 (drop_bit 1 (ucast a))))
        (or (push_bit 15 (drop_bit 1 (or (push_bit 8 (ucast b)) (ucast c))))
            (drop_bit 1 (or (push_bit 8 (ucast d)) (ucast e))))" for a b c d e :: byte
    unfolding read_pts_def mask_bits by (simp add: numeral_eq_Suc)
  show ?thesis
    unfolding w r join_bytes pts_marker_word pts_marker_byte by (rule pts_join)
qed


lemma pcr_join:
  "or (push_bit 25 (ucast (ucast (drop_bit 25 x) :: byte)))
    (or (push_bit 17 (ucast (ucast (drop_bit 17 x) :: byte)))
     (or (push_bit 9 (ucast (ucast (drop_bit 9 x) :: byte)))
      (or (push_bit 1 (ucast (ucast (drop_bit 1 x) :: byte)))
       (drop_bit 7 (ucast (ucast (push_bit 7 (take_bit 1 x)) :: byte)))))) = take_bit 33 (x :: u64)"
  (is "?l = _")
proof (rule bit_word_eqI)
  fix n :: nat
  assume n: "n < LENGTH(64)"
  consider "n = 0" | "1 \<le> n" "n < 9" | "9 \<le> n" "n < 17" | "17 \<le> n" "n < 25" | "25 \<le> n" by linarith
  then show "bit ?l n = bit (take_bit 33 x) n"
    unfolding bit_only by cases (use n in auto)
qed

lemma read_pcr_packet: "read_pcr (pcr_packet counter pts) = take_bit 33 pts"
proof -
  have "and pts 1 = take_bit 1 pts" by (simp add: take_bit_eq_mask)
  then show ?thesis
    using pcr_join [of pts]
    by (simp add: read_pcr_def pcr_packet_def numeral_eq_Suc del: push_bit_of_1 take_bit_Suc)
qed

text \<open>
  C29: The receiver's clocks agree with the muxer: the presentation time stamp read from the
  PES header of a frame and the clock reference read from a PCR packet are the low 33 bits of
  the time they were written for.
\<close>

theorem time_stamps_are_received:
  assumes "codec \<noteq> CODEC_ID_GGAD" "codec \<noteq> CODEC_ID_OTHER" "pts \<noteq> - 1"
  shows "read_pts (drop 9 (pes_header codec ty n pts)) = take_bit 33 pts \<and>
    read_pcr (pcr_packet counter pts) = take_bit 33 pts"
proof -
  have "drop_bit 6 (0x80 :: u32) = 2" by simp
  then have h: "drop 9 (pes_header codec ty n pts) = write_pts 2 pts @ [0xff, 0xff]"
    using assms by (cases codec) (simp_all add: pes_header_def Let_def put16_def)
  have "read_pts (write_pts 2 pts @ [0xff, 0xff]) = read_pts (write_pts 2 pts)"
    by (simp add: read_pts_def write_pts_def Let_def numeral_eq_Suc)
  then show ?thesis
    unfolding h by (simp add: read_pts_write read_pcr_packet)
qed

section \<open>Continuity counters\<close>

lemma and_0xf: "and x 0xf = take_bit 4 (x :: u32)"
  by (simp add: take_bit_eq_mask mask_eq_exp_minus_1)

lemma counter_next: "and (and x 0xf + y) 0xf = and (x + y) (0xf :: u32)"
proof -
  have "take_bit 4 (unat (take_bit 4 x + y)) = take_bit 4 (unat (x + y))"
    by (simp add: unsigned_take_bit_eq unat_word_ariths take_bit_eq_mod mod_mod_cancel mod_add_left_eq
        del: unsigned_of_nat)
  then show ?thesis
    unfolding and_0xf by (simp only: word_unat_eq_iff unsigned_take_bit_eq)
qed

lemma counter_byte:
  "take_bit 4 (ucast (ucast (or (push_bit 4 1) (take_bit 4 c)) :: byte)) = take_bit 4 (c :: u32)"
  "take_bit 4 (ucast (ucast (or (or (push_bit 4 1) (take_bit 4 c)) (push_bit 5 1)) :: byte)) =
     take_bit 4 (c :: u32)"
  by (rule bit_word_eqI, simp only: bit_only, force)+

lemma ts_counter_pes: "ts_counter (pes_packet pid (and c 0xf) start hdr chunk) = and c 0xf"
  using counter_byte [of c]
  by (simp add: ts_counter_def pes_packet_def Let_def and_0xf)


lemma start_byte:
  "pid < 0x2000 \<Longrightarrow> bit (ucast (or (drop_bit 8 pid) 0x40) :: byte) 6"
  "pid < 0x2000 \<Longrightarrow> \<not> bit (ucast (drop_bit 8 (pid :: u32)) :: byte) 6"
proof -
  have "(0x40 :: u32) = push_bit 6 1" by simp
  then show "bit (ucast (or (drop_bit 8 pid) 0x40) :: byte) 6" by (simp only: bit_only) simp
  assume "pid < 0x2000"
  then have "\<not> bit pid 14" using pid_13 [of pid] bit_take_bit_iff [of 13 pid 14] by auto
  then show "\<not> bit (ucast (drop_bit 8 pid) :: byte) 6" by (simp only: bit_only) simp
qed

lemma ts_start_pes: "pid < 0x2000 \<Longrightarrow> ts_start (pes_packet pid cc start hdr chunk) = start"
  using start_byte [of pid] by (simp add: ts_start_def pes_packet_def Let_def)

lemma pes_packets_counters_cont:
  "pes_packets pid (and cc 0xf) hdr False payload = (ps, c) \<Longrightarrow>
    map ts_counter ps = map (\<lambda>k. and (cc + 1 + of_nat k) 0xf) [0..<length ps] \<and>
    (pid < 0x2000 \<longrightarrow> map ts_start ps = replicate (length ps) False)"
proof (induction "length payload" arbitrary: cc payload ps rule: less_induct)
  case less
  show ?case
  proof (cases "payload = []")
    case True
    with less.prems show ?thesis by (simp add: pes_packets_Nil)
  next
    case False
    with less.prems obtain ps' where
      r: "pes_packets pid (and (cc + 1) 0xf) hdr False (drop (pes_len [] payload) payload) = (ps', c)"
      "ps = pes_packet pid (and (cc + 1) 0xf) False [] (take (pes_len [] payload) payload) # ps'"
      by (auto elim: pes_packets_step simp: counter_next)
    have "length (drop (pes_len [] payload) payload) < length payload"
      using False by (simp add: pes_len_def TS_PACKET_SIZE_def)
    from less.hyps [OF this r(1)] r(2) show ?thesis
      by (simp add: ts_counter_pes ts_start_pes upt_conv_Cons map_Suc_upt [symmetric] comp_def
          add.assoc add.commute add.left_commute del: upt_Suc)
  qed
qed

lemma ts_pes_packets_counters:
  fixes t i payload pts
  assumes "payload \<noteq> []" "st_pid (ts_streams t ! i) < 0x2000"
  defines "ps \<equiv> ts_pes_packets t i payload pts"
  shows "map ts_counter ps = map (\<lambda>k. and (1 + of_nat k) 0xf) [0..<length ps]"
    and "map ts_start ps = True # replicate (length ps - 1) False"
    and "\<forall>p \<in> set ps. ts_pid p = st_pid (ts_streams t ! i)"
proof -
  let ?st = "ts_streams t ! i"
  let ?hdr = "pes_header (st_codec ?st) (st_type ?st) (length payload) pts"
  obtain qs c where qs: "pes_packets (st_pid ?st) 0 ?hdr True payload = (qs, c)" by fastforce
  then obtain ps' where
    r: "pes_packets (st_pid ?st) (and 1 0xf) ?hdr False (drop (pes_len ?hdr payload) payload) = (ps', c)"
    "qs = pes_packet (st_pid ?st) (and 1 0xf) True ?hdr (take (pes_len ?hdr payload) payload) # ps'"
    using assms(1) by (auto elim: pes_packets_step)
  note tail = pes_packets_counters_cont [OF r(1)]
  have f: "ts_counter (pes_packet (st_pid ?st) (and 1 0xf) True ?hdr chunk) = and 1 0xf" for chunk
    by (rule ts_counter_pes)
  have e: "ps = qs" using qs by (simp add: ps_def ts_pes_packets_def)
  show "map ts_counter ps = map (\<lambda>k. and (1 + of_nat k) 0xf) [0..<length ps]"
    using tail r(2) f unfolding e
    by (simp add: upt_conv_Cons map_Suc_upt [symmetric] comp_def add.assoc del: upt_Suc)
  show "map ts_start ps = True # replicate (length ps - 1) False"
    using tail r(2) assms(2) unfolding e by (simp add: ts_start_pes)
  have "length ?hdr \<le> 184"
    using length_pes_header [of "st_codec ?st" "st_type ?st" "length payload" pts] by linarith
  from pes_packets_payload(2) [OF qs this assms(1,2)]
  show "\<forall>p \<in> set ps. ts_pid p = st_pid ?st" unfolding e .
qed

text \<open>
  C28: whatever counter the frame before left in the stream, the packets that
  \<open>mpegts_write_pes\<close> writes for a frame with the PID of the stream count 1, 2, 3, ... modulo 16,
  and only the first of them is marked as the start of the frame (in the file modes, with PIDs of
  13 bits and a PID that no table has).
\<close>

theorem frame_counters:
  assumes "ts_file_inv t" and "pids_small t" and "i < length (ts_streams t)" and "payload \<noteq> []"
    and "st_pid (ts_streams t ! i) < 0x2000" and "st_pid (ts_streams t ! i) \<notin> si_pids t"
  shows "\<exists>t' pkts frame. mpegts_write_pes t i payload pts idx = Some t' \<and>
    ts_written t' = ts_written t @ concat pkts \<and> (\<forall>p \<in> set pkts. length p = 188) \<and>
    frame = filter (\<lambda>p. ts_pid p = st_pid (ts_streams t ! i)) pkts \<and>
    map ts_counter frame = map (\<lambda>k. and (1 + of_nat k) 0xf) [0..<length frame] \<and>
    map ts_start frame = True # replicate (length frame - 1) False"
proof -
  let ?ps = "ts_pes_packets t i payload pts"
  from mpegts_write_pes_file [OF assms(1-3)] obtain t' qs where
    w: "mpegts_write_pes t i payload pts idx = Some t'" "ts_emits t t' (qs @ ?ps)"
      "\<forall>p \<in> set qs. ts_pid p \<in> si_pids t" .
  note c = ts_pes_packets_counters [OF assms(4,5), of pts]
  have "filter (\<lambda>p. ts_pid p = st_pid (ts_streams t ! i)) (qs @ ?ps) = ?ps"
    using w(3) c(3) assms(6) by (auto simp: filter_empty_conv filter_id_conv)
  then show ?thesis
    using w(1,2) c(1,2) by (intro exI [of _ t'] exI [of _ "qs @ ?ps"] exI [of _ ?ps]) (simp add: ts_emits_def)
qed

section \<open>Frames larger than the cache\<close>

text \<open>In the callback mode nothing leaves the cache before the end of a frame.\<close>

definition grows :: "ts_mux \<Rightarrow> ts_mux \<Rightarrow> bool" where
  "grows t t' \<longleftrightarrow> ts_mode t' = ts_mode t \<and> length (ts_cache t') = length (ts_cache t) \<and>
     cache_size t \<le> cache_size t'"

lemma grows_refl: "grows t t"
  by (simp add: grows_def)

lemma grows_trans: "grows t t1 \<Longrightarrow> grows t1 t2 \<Longrightarrow> grows t t2"
  by (simp add: grows_def)

lemma ts_put_grows:
  "ts_mode t = OUTPUT_CALLBACK_BUFFER \<Longrightarrow> ts_put t p = Some t' \<Longrightarrow>
    grows t t' \<and> cache_size t' = cache_size t + 188"
  by (auto simp: ts_put_def grows_def Let_def TS_PACKET_SIZE_def bind_eq_Some_conv)

lemma ts_puts_grows:
  "ts_mode t = OUTPUT_CALLBACK_BUFFER \<Longrightarrow> ts_puts t ps = Some t' \<Longrightarrow>
    grows t t' \<and> cache_size t' = cache_size t + 188 * length ps"
proof (induction ps arbitrary: t)
  case (Cons p ps)
  then obtain t1 where t1: "ts_put t p = Some t1" "ts_puts t1 ps = Some t'"
    by (auto simp: bind_eq_Some_conv)
  then have "grows t t1 \<and> cache_size t1 = cache_size t + 188"
    using ts_put_grows Cons.prems(1) by blast
  moreover from this have "ts_mode t1 = OUTPUT_CALLBACK_BUFFER"
    using Cons.prems(1) by (simp add: grows_def)
  ultimately show ?case using Cons.IH [OF _ t1(2)] grows_trans by auto
qed (simp add: grows_refl)

lemma section1_grows:
  "ts_mode t = OUTPUT_CALLBACK_BUFFER \<Longrightarrow>
    mpegts_write_section1 t s tid id' v sn lsn buf = Some (b, s', t') \<Longrightarrow> grows t t'"
  using ts_puts_grows
  by (auto simp: mpegts_write_section1_def mpegts_write_section_def Let_def bind_eq_Some_conv
      grows_refl split: if_splits prod.splits)

lemma pat_grows: "ts_mode t = OUTPUT_CALLBACK_BUFFER \<Longrightarrow> mpegts_write_pat t = Some t' \<Longrightarrow> grows t t'"
  using section1_grows
  by (fastforce simp: mpegts_write_pat_def bind_eq_Some_conv grows_def split: prod.splits)

lemma pmt_grows: "ts_mode t = OUTPUT_CALLBACK_BUFFER \<Longrightarrow> mpegts_write_pmt t i = Some t' \<Longrightarrow> grows t t'"
  using section1_grows
  by (fastforce simp: mpegts_write_pmt_def Let_def bind_eq_Some_conv grows_def split: prod.splits)

lemma pmts_grows:
  "ts_mode t = OUTPUT_CALLBACK_BUFFER \<Longrightarrow> write_pmts t is = Some t' \<Longrightarrow> grows t t'"
proof (induction "is" arbitrary: t)
  case (Cons i is')
  then obtain t1 where t1: "mpegts_write_pmt t i = Some t1" "write_pmts t1 is' = Some t'"
    by (auto simp: bind_eq_Some_conv)
  then have g: "grows t t1" using pmt_grows Cons.prems(1) by blast
  then have "ts_mode t1 = OUTPUT_CALLBACK_BUFFER" using Cons.prems(1) by (simp add: grows_def)
  then show ?case using Cons.IH [OF _ t1(2)] grows_trans [OF g] by blast
qed (simp add: grows_refl)

lemma grows_mode: "grows t t' \<Longrightarrow> ts_mode t' = ts_mode t"
  by (simp add: grows_def)

lemma retransmit_grows:
  assumes m: "ts_mode t = OUTPUT_CALLBACK_BUFFER" and r: "retransmit_si_info t pts idx = Some t'"
  shows "grows t t'"
proof -
  let ?t = "t\<lparr>pat_pmt_counter := 0, pat_pmt_flag := False\<rparr>"
  obtain t1 where t1: "(if pat_pmt_counter t = 4 \<or> pat_pmt_flag t
      then do { t1 \<leftarrow> mpegts_write_pat ?t; write_pmts t1 [0..<length (ts_services t1)] }
      else Some t) = Some t1"
    "(if idx = CODEC_TYPE_VIDEO then wirte_pcr_table t1 pts else Some t1) = Some t'"
    using r m by (auto simp: retransmit_si_info_def bind_eq_Some_conv)
  have g: "grows t t1"
  proof (cases "pat_pmt_counter t = 4 \<or> pat_pmt_flag t")
    case True
    then obtain t2 where t2: "mpegts_write_pat ?t = Some t2"
      "write_pmts t2 [0..<length (ts_services t2)] = Some t1"
      using t1(1) by (auto simp: bind_eq_Some_conv)
    have g2: "grows ?t t2" using pat_grows [OF _ t2(1)] m by simp
    then have "grows t2 t1" using pmts_grows [OF _ t2(2)] m by (simp add: grows_mode)
    then show ?thesis using g2 by (simp add: grows_def)
  qed (use t1(1) in \<open>simp add: grows_refl\<close>)
  have "grows t1 t'"
  proof (cases "idx = CODEC_TYPE_VIDEO")
    case True
    then have "ts_put (t1\<lparr>pcr_counter := and (pcr_counter t1 + 1) 0x0f\<rparr>)
        (pcr_packet (pcr_counter t1) pts) = Some t'"
      using t1(2) by (simp add: wirte_pcr_table_def)
    from ts_put_grows [OF _ this] g m show ?thesis by (simp add: grows_def)
  qed (use t1(2) in \<open>simp add: grows_refl\<close>)
  then show ?thesis using grows_trans [OF g] by blast
qed

text \<open>The number of packets of a frame.\<close>

lemma pes_packets_count:
  "pes_packets pid cc hdr start payload = (ps, c) \<Longrightarrow> length payload \<le> 184 * length ps"
proof (induction "length ps" arbitrary: cc start payload ps)
  case 0
  then show ?case by (cases "payload = []") (auto elim: pes_packets_step)
next
  case (Suc n)
  show ?case
  proof (cases "payload = []")
    case False
    let ?h = "if start then hdr else []"
    from Suc.prems False obtain ps' where
      r: "pes_packets pid (and (cc + 1) 0xf) hdr False (drop (pes_len ?h payload) payload) = (ps', c)"
      "length ps = Suc (length ps')"
      by (auto elim: pes_packets_step)
    have "length payload - pes_len ?h payload \<le> 184 * length ps'"
      using Suc.hyps(1) [OF _ r(1)] Suc.hyps(2) r(2) by simp
    moreover have "pes_len ?h payload \<le> 184" by (simp add: pes_len_def TS_PACKET_SIZE_def)
    ultimately show ?thesis using r(2) by linarith
  qed simp
qed

text \<open>
  C32: A frame of more than 184 KiB in the callback mode: the packets wrap over the first ones, and
  the final read of \<open>cache_size\<close> bytes goes past the end of the cache.
\<close>

theorem callback_frame_overruns_cache:
  assumes m: "ts_mode t = OUTPUT_CALLBACK_BUFFER" and l: "length (ts_cache t) = TS_CACHE_SIZE"
    and n: "184 * 1024 < length payload"
  shows "mpegts_write_pes t i payload pts idx = None"
proof (rule ccontr)
  assume "mpegts_write_pes t i payload pts idx \<noteq> None"
  let ?st = "ts_streams t ! i"
  obtain ps c where ps: "pes_packets (st_pid ?st) 0
      (pes_header (st_codec ?st) (st_type ?st) (length payload) pts) True payload = (ps, c)"
    by fastforce
  with \<open>mpegts_write_pes t i payload pts idx \<noteq> None\<close> obtain t1 t2 xs where
    t1: "(if idx \<noteq> CODEC_TYPE_TEXT
        then do {
          t1 \<leftarrow> retransmit_si_info t pts idx;
          Some (t1\<lparr>pat_packet_count := pat_packet_count t1 + 1\<rparr>)
        }
        else Some t) = Some t1" and t2: "ts_puts t1 ps = Some t2"
    and rd: "ts_mode t2 = OUTPUT_CALLBACK_BUFFER \<Longrightarrow> mem_read (ts_cache t2) (ts_rd t2) (cache_size t2) = Some xs"
    by (auto simp: mpegts_write_pes_def Let_def bind_eq_Some_conv split: if_splits)
  have g: "grows t t1"
    using t1 retransmit_grows [OF m]
    by (auto simp: bind_eq_Some_conv grows_refl grows_def split: if_splits)
  then have "ts_mode t1 = OUTPUT_CALLBACK_BUFFER" using m by (simp add: grows_mode)
  note p = ts_puts_grows [OF this t2]
  have "length (ts_cache t2) = TS_CACHE_SIZE" "ts_mode t2 = OUTPUT_CALLBACK_BUFFER"
    using p g l m by (simp_all add: grows_def)
  moreover have "1024 < length ps" using pes_packets_count [OF ps] n by linarith
  ultimately show False using rd p by (simp add: TS_CACHE_SIZE_def)
qed


section \<open>Concrete instances\<close>

lemma open_file_inv:
  "length buf = TS_CACHE_SIZE \<Longrightarrow> ts_file_inv ((ctx_ts (Mpeg2tsMuxerOpen buf))\<lparr>ts_streams := sts\<rparr>)"
  by (simp add: Mpeg2tsMuxerOpen_def ts_file_inv_def TS_CACHE_SIZE_def)

lemma section_is_received_witness:
  "\<exists>s' t' ps.
    mpegts_write_section1 (ctx_ts (Mpeg2tsMuxerOpen (replicate TS_CACHE_SIZE 0)))
      \<lparr>sec_pid = 0x100, sec_cc = 15\<rparr> 2 1 1 0 0 [1, 2, 3] = Some (True, s', t') \<and>
    ts_written t' = concat ps \<and> read_section (concat (map ts_payload ps)) = Some [1, 2, 3]"
proof -
  let ?t = "ctx_ts (Mpeg2tsMuxerOpen (replicate TS_CACHE_SIZE 0))"
  have "ts_file_inv ?t" using open_file_inv [of "replicate TS_CACHE_SIZE 0" "ts_streams ?t"] by simp
  moreover have "ts_written ?t = []" by (simp add: Mpeg2tsMuxerOpen_def ts_written_def)
  ultimately show ?thesis
    using section_is_received [of ?t "\<lparr>sec_pid = 0x100, sec_cc = 15\<rparr>" "[1, 2, 3]" 2 1 1 0 0] by auto
qed

lemma pmt_is_received_witness:
  "\<exists>t' ps sec.
    mpegts_write_pmt ((ctx_ts (Mpeg2tsMuxerOpen (replicate TS_CACHE_SIZE 0)))\<lparr>ts_streams :=
        [ts_new_stream CODEC_ID_H264 CODEC_TYPE_VIDEO 0 0, ts_new_stream CODEC_ID_ADPCM CODEC_TYPE_AUDIO 2 8000]\<rparr>) 0 = Some t' \<and>
    read_section (concat (map ts_payload ps)) = Some sec \<and>
    read_pmt sec = (0x1fff, [(0x1b, 0x1011), (0x83, 0x1100)])"
proof -
  let ?sts = "[ts_new_stream CODEC_ID_H264 CODEC_TYPE_VIDEO 0 0, ts_new_stream CODEC_ID_ADPCM CODEC_TYPE_AUDIO 2 8000]"
  let ?t = "(ctx_ts (Mpeg2tsMuxerOpen (replicate TS_CACHE_SIZE 0)))\<lparr>ts_streams := ?sts\<rparr>"
  have "ts_file_inv ?t" by (rule open_file_inv) simp
  moreover have "0 < length (ts_services ?t)" "sec_pid (svc_pmt (ts_services ?t ! 0)) < 0x2000"
    "svc_pcr_pid (ts_services ?t ! 0) = 0x1fff"
    by (simp_all add: Mpeg2tsMuxerOpen_def)
  ultimately show ?thesis
    using pmt_is_received [of ?t 0]
    by (auto simp: ts_new_stream_def es_entry_def stream_type_def)
qed

lemma time_stamps_are_received_witness:
  "read_pts (drop 9 (pes_header CODEC_ID_H264 CODEC_TYPE_VIDEO 100 90000)) = take_bit 33 90000"
  using time_stamps_are_received [of CODEC_ID_H264 90000 CODEC_TYPE_VIDEO 100 0] by simp

lemma frame_counters_witness:
  "\<exists>t' pkts frame. mpegts_write_pes ((ctx_ts (Mpeg2tsMuxerOpen (replicate TS_CACHE_SIZE 0)))
      \<lparr>ts_mode := OUTPUT_TS_FILE, ts_streams := [(ts_new_stream CODEC_ID_AAC CODEC_TYPE_AUDIO 2 8000)\<lparr>st_cc := 5\<rparr>]\<rparr>)
      0 [1, 2, 3] 0 CODEC_TYPE_AUDIO = Some t' \<and>
    ts_written t' = concat pkts \<and> frame = filter (\<lambda>p. ts_pid p = 0x1100) pkts \<and>
    map ts_counter frame = map (\<lambda>k. and (1 + of_nat k) 0xf) [0..<length frame]"
proof -
  let ?t = "(ctx_ts (Mpeg2tsMuxerOpen (replicate TS_CACHE_SIZE 0)))
      \<lparr>ts_mode := OUTPUT_TS_FILE, ts_streams := [(ts_new_stream CODEC_ID_AAC CODEC_TYPE_AUDIO 2 8000)\<lparr>st_cc := 5\<rparr>]\<rparr>"
  have "ts_file_inv ?t" "ts_written ?t = []"
    by (simp_all add: Mpeg2tsMuxerOpen_def ts_file_inv_def ts_written_def TS_CACHE_SIZE_def)
  moreover have "si_pids ?t = {0, 0x100, 0x1000}" "st_pid (ts_streams ?t ! 0) = 0x1100"
    by (auto simp: Mpeg2tsMuxerOpen_def si_pids_def ts_new_stream_def)
  ultimately show ?thesis
    using frame_counters [of ?t 0 "[1, 2, 3]" 0 CODEC_TYPE_AUDIO] by (auto simp: pids_small_def)
qed

lemma callback_frame_overruns_cache_witness:
  "mpegts_write_pes ((ctx_ts (Mpeg2tsMuxerOpen (replicate TS_CACHE_SIZE 0)))\<lparr>ts_mode := OUTPUT_CALLBACK_BUFFER,
      ts_streams := [ts_new_stream CODEC_ID_H264 CODEC_TYPE_VIDEO 0 0]\<rparr>) 0
    (replicate (200 * 1024) 0) 0 CODEC_TYPE_VIDEO = None"
  by (rule callback_frame_overruns_cache) (simp_all add: Mpeg2tsMuxerOpen_def)

end
