(* ===== verification/ByteIO.thy ===== *)
theory ByteIO
  imports Prelude
begin

text \<open>
  The byte emitters of the MP4 muxer (libmuxer/mp4_muxer/ByteIOContext.c). Each makes one or
  more \<open>fsWrite\<close> calls on the writer it is given; the value of an emitter is the list of the
  buffers it hands over, in order. The C code stores integers with the byte order of a
  little-endian machine.
\<close>

type_synonym calls = "byte list list"

abbreviation bytes_of :: "calls \<Rightarrow> byte list" where
  "bytes_of \<equiv> concat"

definition blen :: "calls \<Rightarrow> nat" where
  "blen cs = length (concat cs)"

section \<open>The emitters\<close>

text \<open>The four bytes of an \<open>unsigned int\<close> in memory.\<close>

definition le_bytes32 :: "u32 \<Rightarrow> byte list" where
  "le_bytes32 v = [ucast v, ucast (drop_bit 8 v), ucast (drop_bit 16 v), ucast (drop_bit 24 v)]"

definition put_buffer_cache :: "byte list \<Rightarrow> calls" where
  "put_buffer_cache buf = [buf]"

definition put_byte_cache :: "u32 \<Rightarrow> calls" where
  "put_byte_cache b = put_buffer_cache (take 1 (le_bytes32 b))"

definition put_le32_cache :: "u32 \<Rightarrow> calls" where
  "put_le32_cache val = put_buffer_cache (le_bytes32 val)"

definition bswap32 :: "u32 \<Rightarrow> u32" where
  "bswap32 v =
     (let val = or (and (push_bit 8 v) 0xFF00FF00) (and (drop_bit 8 v) 0x00FF00FF)
      in or (drop_bit 16 val) (push_bit 16 val))"

definition put_be32_cache :: "u32 \<Rightarrow> calls" where
  "put_be32_cache val = put_buffer_cache (le_bytes32 (bswap32 val))"

definition put_be16_cache :: "u32 \<Rightarrow> calls" where
  "put_be16_cache val = put_byte_cache (drop_bit 8 val) @ put_byte_cache val"

definition put_be24_cache :: "u32 \<Rightarrow> calls" where
  "put_be24_cache val = put_be16_cache (drop_bit 8 val) @ put_byte_cache val"

text \<open>A tag is a C string without its terminator.\<close>

primrec put_tag_cache :: "string \<Rightarrow> calls" where
  "put_tag_cache [] = []"
| "put_tag_cache (c # cs) = put_byte_cache (of_char c) @ put_tag_cache cs"

section \<open>Big-endian numbers\<close>

definition be32 :: "u32 \<Rightarrow> byte list" where
  "be32 v = [ucast (drop_bit 24 v), ucast (drop_bit 16 v), ucast (drop_bit 8 v), ucast v]"

definition rd32 :: "byte list \<Rightarrow> u32" where
  "rd32 xs = or (push_bit 24 (ucast (xs ! 0))) (or (push_bit 16 (ucast (xs ! 1)))
     (or (push_bit 8 (ucast (xs ! 2))) (ucast (xs ! 3))))"

definition tag_bytes :: "string \<Rightarrow> byte list" where
  "tag_bytes t = map of_char t"

lemma bit_cond_u32:
  "bit (0xFF00FF00 :: u32) n \<longleftrightarrow> 8 \<le> n \<and> n < 16 \<or> 24 \<le> n \<and> n < 32"
  "bit (0x00FF00FF :: u32) n \<longleftrightarrow> n < 8 \<or> 16 \<le> n \<and> n < 24"
proof -
  have a: "(0xFF00FF00 :: u32) = or (push_bit 8 (mask 8)) (push_bit 24 (mask 8))"
    "(0x00FF00FF :: u32) = or (mask 8) (push_bit 16 (mask 8))"
    by (simp_all add: mask_eq_exp_minus_1)
  show "bit (0xFF00FF00 :: u32) n \<longleftrightarrow> 8 \<le> n \<and> n < 16 \<or> 24 \<le> n \<and> n < 32"
    unfolding a(1) bit_or_iff bit_push_bit_iff bit_mask_iff by (auto simp: possible_bit_def)
  show "bit (0x00FF00FF :: u32) n \<longleftrightarrow> n < 8 \<or> 16 \<le> n \<and> n < 24"
    unfolding a(2) bit_or_iff bit_push_bit_iff bit_mask_iff by (auto simp: possible_bit_def)
qed

text \<open>The two swaps of \<open>put_be32_cache\<close> reverse the bytes.\<close>

lemma le_bytes32_bswap32: "le_bytes32 (bswap32 v) = be32 v"
proof -
  have "(ucast (bswap32 v) :: byte) = ucast (drop_bit 24 v)"
    "(ucast (drop_bit 8 (bswap32 v)) :: byte) = ucast (drop_bit 16 v)"
    "(ucast (drop_bit 16 (bswap32 v)) :: byte) = ucast (drop_bit 8 v)"
    "(ucast (drop_bit 24 (bswap32 v)) :: byte) = ucast v"
    by (rule bit_word_eqI, simp only: bswap32_def Let_def bit_or_iff bit_drop_bit_eq bit_push_bit_iff
        bit_and_iff bit_cond_u32 comp_def bit_unsigned_iff,
        auto simp: possible_bit_def dest: bit_imp_le_length)+
  then show ?thesis by (simp add: le_bytes32_def be32_def)
qed

lemma length_be32 [simp]: "length (be32 v) = 4"
  by (simp add: be32_def)

lemma rd32_be32 [simp]: "rd32 (be32 v @ xs) = v"
proof (rule bit_word_eqI)
  fix n assume "n < LENGTH(32)"
  then have n: "n < 32" by simp
  then have "n div 8 < 4" by simp
  then consider "n div 8 = 0" | "n div 8 = 1" | "n div 8 = 2" | "n div 8 = 3" by linarith
  then show "bit (rd32 (be32 v @ xs)) n \<longleftrightarrow> bit v n"
    unfolding rd32_def be32_def append_Cons nth_Cons_0 bit_or_iff bit_push_bit_iff bit_unsigned_iff
    by cases (use n in \<open>auto simp: bit_unsigned_iff bit_drop_bit_eq possible_bit_def dest: bit_imp_le_length\<close>)
qed

lemma rd32_be32' [simp]: "rd32 (be32 v) = v"
  using rd32_be32 [of v "[]"] by simp

section \<open>What the emitters write\<close>

lemma bytes_put_buffer [calls_simps]: "concat (put_buffer_cache b) = b"
  and bytes_put_byte [calls_simps]: "concat (put_byte_cache v) = [ucast v]"
  and bytes_put_le32 [calls_simps]: "concat (put_le32_cache v) = le_bytes32 v"
  and bytes_put_be32 [calls_simps]: "concat (put_be32_cache v) = be32 v"
  and bytes_put_be16 [calls_simps]: "concat (put_be16_cache v) = [ucast (drop_bit 8 v), ucast v]"
  and bytes_put_be24 [calls_simps]:
    "concat (put_be24_cache v) = [ucast (drop_bit 16 v), ucast (drop_bit 8 v), ucast v]"
  by (simp_all add: put_buffer_cache_def put_byte_cache_def put_le32_cache_def put_be32_cache_def
      put_be16_cache_def put_be24_cache_def le_bytes32_bswap32 drop_bit_drop_bit)
    (simp_all add: le_bytes32_def)

lemma bytes_put_tag [calls_simps]: "concat (put_tag_cache t) = tag_bytes t"
  by (induction t) (simp_all add: calls_simps tag_bytes_def unsigned_of_nat of_char_def)

declare put_tag_cache.simps(2) [simp del]

lemma tag_bytes_inject: "tag_bytes s = tag_bytes t \<longleftrightarrow> s = t"
proof -
  have "inj (of_char :: char \<Rightarrow> byte)"
  proof (rule injI)
    fix x y :: char assume "(of_char x :: byte) = of_char y"
    then have "(of_nat (of_char x) :: byte) = of_nat (of_char y)" by (simp only: of_nat_of_char)
    then have "unat (of_nat (of_char x) :: byte) = unat (of_nat (of_char y) :: byte)" by (rule arg_cong)
    then have "(of_char x :: nat) mod 2 ^ LENGTH(8) = of_char y mod 2 ^ LENGTH(8)" by (simp only: unat_of_nat)
    then have "(of_char x :: nat) mod 256 = of_char y mod 256" by simp
    then show "x = y" by (simp only: of_char_mod_256 of_char_eq_iff)
  qed
  then show ?thesis unfolding tag_bytes_def by (rule inj_map_eq_map)
qed

lemma length_tag_bytes [simp]: "length (tag_bytes t) = length t"
  by (simp add: tag_bytes_def)

lemma blen_Nil [simp]: "blen [] = 0"
  and blen_append [simp]: "blen (cs @ ds) = blen cs + blen ds"
  by (simp_all add: blen_def)

lemma blen_put [simp]:
  "blen (put_buffer_cache b) = length b" "blen (put_byte_cache v) = 1"
  "blen (put_le32_cache v) = 4" "blen (put_be32_cache v) = 4" "blen (put_be16_cache v) = 2"
  "blen (put_be24_cache v) = 3" "blen (put_tag_cache t) = length t"
  by (simp_all add: blen_def calls_simps le_bytes32_def)

text \<open>Reading a 32-bit integer of the target back from its bytes.\<close>

definition get_le32 :: "byte list \<Rightarrow> u32" where
  "get_le32 xs = or (ucast (xs ! 0)) (or (push_bit 8 (ucast (xs ! 1)))
     (or (push_bit 16 (ucast (xs ! 2))) (push_bit 24 (ucast (xs ! 3)))))"

lemma length_le_bytes32 [simp]: "length (le_bytes32 v) = 4"
  by (simp add: le_bytes32_def)

lemma get_le32_bytes: "get_le32 (le_bytes32 v @ ys) = v"
proof (rule bit_word_eqI)
  fix n assume n: "n < LENGTH(32)"
  consider "n < 8" | "8 \<le> n" "n < 16" | "16 \<le> n" "n < 24" | "24 \<le> n" "n < 32"
    using n by (auto simp: not_less) (metis not_less)
  then show "bit (get_le32 (le_bytes32 v @ ys)) n \<longleftrightarrow> bit v n"
    by cases (auto simp: get_le32_def le_bytes32_def bit_simps)
qed

lemma bytes_get_le32: "length xs = 4 \<Longrightarrow> le_bytes32 (get_le32 xs) = xs"
proof -
  assume "length xs = 4"
  then obtain a b c d where xs: "xs = [a, b, c, d]"
    by (auto simp: length_Suc_conv numeral_eq_Suc)
  have "(ucast (get_le32 xs) :: byte) = a" "(ucast (drop_bit 8 (get_le32 xs)) :: byte) = b"
    "(ucast (drop_bit 16 (get_le32 xs)) :: byte) = c" "(ucast (drop_bit 24 (get_le32 xs)) :: byte) = d"
    by (rule bit_word_eqI, auto simp: xs get_le32_def bit_simps dest: bit_imp_le_length)+
  then show ?thesis by (simp add: le_bytes32_def xs)
qed

end
