(* ===== verification/Mp4Index.thy ===== *)
theory Mp4Index
  imports Prelude
begin

text \<open>
  The index tables of the MP4 muxer (libmuxer/mp4_muxer/Mp4Muxer.c): for every stream the muxer
  keeps the chunk offsets, the sample sizes, the samples per chunk and the frame durations of
  the whole recording. A table is a ring of words in memory; whenever the ring is full, its
  oldest page goes to the end of a temporary file. The header box reads the pages back from the
  file and the rest from the ring.

  The muxer writes the code of the four tables out each time, with the pointers
  \<open>cache_write_ptr\<close>, \<open>cache_read_ptr\<close> and \<open>cache_end_ptr\<close> of the table; here a pointer is an
  index from \<open>cache_start_ptr\<close>. An access outside the ring of its table, or through the null
  handle of a temporary file, has the value \<open>None\<close>.
\<close>

section \<open>Tables and temporary files\<close>

datatype CHUNKID = STCO_ID | STSZ_ID | STSC_ID | STTS_ID

definition MOV_CACHE_TINY_PAGE_SIZE :: nat where "MOV_CACHE_TINY_PAGE_SIZE = 1024 * 2"

definition cache_size :: "CHUNKID \<Rightarrow> nat" where
  "cache_size k =
     (case k of
        STCO_ID \<Rightarrow> MOV_CACHE_TINY_PAGE_SIZE * 4 * 2
      | STSZ_ID \<Rightarrow> MOV_CACHE_TINY_PAGE_SIZE * 4 * 4
      | STSC_ID \<Rightarrow> MOV_CACHE_TINY_PAGE_SIZE * 4 * 2
      | STTS_ID \<Rightarrow> MOV_CACHE_TINY_PAGE_SIZE * 4 * 4)"

text \<open>The ring, its pointers, the number of words in it, and the words in the temporary file.\<close>

record mov_idx =
  ring :: "nat \<Rightarrow> u32"
  wr :: nat
  rd :: nat
  cached :: nat
  page_file :: "u32 list"

text \<open>
  The temporary files that are open, and the outcomes that the coming attempts to create a file
  or to write a page will have; when they run out, attempts succeed. What a failed write may
  leave behind the pages is overwritten by the next one and never read.
\<close>

record tmp_files =
  tmp_fd :: "(CHUNKID \<times> nat) list"
  tmp_io :: "bool list"

definition next_io :: "tmp_files \<Rightarrow> bool \<times> tmp_files" where
  "next_io t = (case tmp_io t of [] \<Rightarrow> (True, t) | b # bs \<Rightarrow> (b, t\<lparr>tmp_io := bs\<rparr>))"

fun create_files :: "(CHUNKID \<times> nat) list \<Rightarrow> tmp_files \<Rightarrow> bool \<times> tmp_files" where
  "create_files [] t = (True, t)"
| "create_files (f # fs) t =
     (if f \<in> set (tmp_fd t) then create_files fs t
      else (case next_io t of
              (False, t1) \<Rightarrow> (False, t1)
            | (True, t1) \<Rightarrow> create_files fs (t1\<lparr>tmp_fd := f # tmp_fd t1\<rparr>)))"

definition tmp_list :: "(CHUNKID \<times> nat) list" where
  "tmp_list = concat (map (\<lambda>i. [(STSZ_ID, i), (STTS_ID, i), (STCO_ID, i), (STSC_ID, i)]) [0, 1])"

definition movCreateTmpFile :: "tmp_files \<Rightarrow> bool \<times> tmp_files" where
  "movCreateTmpFile t = create_files tmp_list t"

section \<open>Appending to a table\<close>

text \<open>\<open>*cache_write_ptr++ = v\<close>, and the return of the pointer to the start.\<close>

definition idx_store :: "nat \<Rightarrow> u32 \<Rightarrow> mov_idx \<Rightarrow> mov_idx option" where
  "idx_store cap v x =
     (if wr x < cap then Some (x\<lparr>ring := (ring x)(wr x := v), wr := wr x + 1\<rparr>) else None)"

definition idx_wrap :: "nat \<Rightarrow> mov_idx \<Rightarrow> mov_idx" where
  "idx_wrap cap x = (if wr x > cap - 1 then x\<lparr>wr := 0\<rparr> else x)"

text \<open>
  The page that goes to the temporary file when the ring is full. \<open>pages\<close> is the number of
  pages that the file is taken to hold; the page goes behind them, and a gap in the file is
  zeros. \<open>f\<close> is the file's handle. The result says whether the
  muxer goes on, and whether a page was written.
\<close>

definition idx_spill ::
  "nat \<Rightarrow> CHUNKID \<times> nat \<Rightarrow> nat \<Rightarrow> tmp_files \<Rightarrow> mov_idx \<Rightarrow> (bool \<times> bool \<times> tmp_files \<times> mov_idx) option" where
  "idx_spill cap f pages t x =
     (if cached x \<ge> cap
      then
        (case (if (STSZ_ID, 0) \<in> set (tmp_fd t) then (True, t) else movCreateTmpFile t) of
           (False, t1) \<Rightarrow> Some (False, False, t1, x)
         | (True, t1) \<Rightarrow>
             if f \<notin> set (tmp_fd t1) \<or> rd x + MOV_CACHE_TINY_PAGE_SIZE > cap then None
             else (case next_io t1 of
                 (False, t2) \<Rightarrow> Some (False, False, t2, x)
               | (True, t2) \<Rightarrow>
                   let page = map (\<lambda>i. ring x (rd x + i)) [0..<MOV_CACHE_TINY_PAGE_SIZE];
                       rd' = rd x + MOV_CACHE_TINY_PAGE_SIZE
                   in Some (True, True, t2,
                        x\<lparr>page_file := take (pages * MOV_CACHE_TINY_PAGE_SIZE) (page_file x) @
                            replicate (pages * MOV_CACHE_TINY_PAGE_SIZE - length (page_file x)) 0 @ page @
                            drop ((pages + 1) * MOV_CACHE_TINY_PAGE_SIZE) (page_file x),
                          cached := cached x - MOV_CACHE_TINY_PAGE_SIZE,
                          rd := (if rd' > cap - 1 then 0 else rd')\<rparr>)))
      else Some (True, False, t, x))"

section \<open>Reading a table back\<close>

text \<open>
  The loops over \<open>*cache_read_ptr++\<close> in the \<open>stco\<close>, \<open>stsz\<close>, \<open>stsc\<close> and \<open>stts\<close> boxes: without
  pages the pointer runs on, with pages it returns to the start behind the end.
\<close>

fun ring_read :: "nat \<Rightarrow> bool \<Rightarrow> (nat \<Rightarrow> u32) \<Rightarrow> nat \<Rightarrow> nat \<Rightarrow> u32 list option" where
  "ring_read cap wrap r p 0 = Some []"
| "ring_read cap wrap r p (Suc n) =
     (if p < cap
      then do {
        xs \<leftarrow> ring_read cap wrap r (if wrap \<and> p + 1 > cap - 1 then 0 else p + 1) n;
        Some (r p # xs)
      }
      else None)"

definition idx_read :: "nat \<Rightarrow> nat \<Rightarrow> nat \<Rightarrow> mov_idx \<Rightarrow> u32 list option" where
  "idx_read cap pages n x =
     (if pages = 0 then ring_read cap False (ring x) (rd x) n
      else if pages * MOV_CACHE_TINY_PAGE_SIZE > length (page_file x) then None
      else do {
        ys \<leftarrow> ring_read cap True (ring x) (rd x) (n - pages * MOV_CACHE_TINY_PAGE_SIZE);
        Some (take (pages * MOV_CACHE_TINY_PAGE_SIZE) (page_file x) @ ys)
      })"

section \<open>The contract of a table\<close>

text \<open>
  A value for a table whose pages are counted with the table: \<open>(x, p, n)\<close> are the table, its
  pages and its length. The muxer's own operations on the tables are those of \<open>Mp4Mov\<close>.
\<close>

type_synonym idx_state = "mov_idx \<times> nat \<times> nat"

definition idx_push ::
  "nat \<Rightarrow> CHUNKID \<times> nat \<Rightarrow> u32 \<Rightarrow> tmp_files \<times> idx_state \<Rightarrow> (bool \<times> tmp_files \<times> idx_state) option" where
  "idx_push cap f v ts =
     (case ts of (t, x, p, n) \<Rightarrow> do {
        x1 \<leftarrow> idx_store cap v x;
        (ok, spilled, t1, x2) \<leftarrow> idx_spill cap f p t (idx_wrap cap (x1\<lparr>cached := cached x1 + 1\<rparr>));
        Some (ok, t1, x2, if spilled then p + 1 else p, n + 1)
      })"

definition idx_inv :: "nat \<Rightarrow> u32 list \<Rightarrow> idx_state \<Rightarrow> bool" where
  "idx_inv cap vs s =
     (case s of (x, p, n) \<Rightarrow>
        let P = p * MOV_CACHE_TINY_PAGE_SIZE
        in n = length vs \<and> P \<le> n \<and> cached x = n - P \<and> cached x < cap \<and>
           wr x = n mod cap \<and> rd x = P mod cap \<and>
           (\<forall>i < n - P. ring x ((P + i) mod cap) = vs ! (P + i)) \<and>
           page_file x = take P vs)"

locale index_table =
  fixes push :: "'t \<Rightarrow> u32 \<Rightarrow> 's \<Rightarrow> (bool \<times> 's) option"
    and known :: "'t \<Rightarrow> bool"
    and inv :: "('t \<Rightarrow> u32 list) \<Rightarrow> 's \<Rightarrow> bool"
    and read_all :: "'t \<Rightarrow> 's \<Rightarrow> u32 list option"
  assumes push_ok: "inv f s \<Longrightarrow> known t \<Longrightarrow> \<exists>s'. push t v s = Some (True, s') \<and> inv (f(t := f t @ [v])) s'"
    and read_ok: "inv f s \<Longrightarrow> known t \<Longrightarrow> read_all t s = Some (f t)"
begin

fun push_all :: "('t \<times> u32) list \<Rightarrow> 's \<Rightarrow> 's option" where
  "push_all [] s = Some s"
| "push_all ((t, v) # vs) s =
     (case push t v s of Some (True, s') \<Rightarrow> push_all vs s' | _ \<Rightarrow> None)"

lemma push_all_ok:
  "inv f s \<Longrightarrow> \<forall>x \<in> set vs. known (fst x) \<Longrightarrow>
    \<exists>s'. push_all vs s = Some s' \<and> inv (\<lambda>t. f t @ map snd (filter (\<lambda>x. fst x = t) vs)) s'"
proof (induction vs arbitrary: f s)
  case (Cons x vs)
  obtain t v where x: "x = (t, v)" by (cases x)
  have "known t" using Cons.prems(2) x by simp
  from push_ok [OF Cons.prems(1) this, of v] obtain s1
    where s1: "push t v s = Some (True, s1)" "inv (f(t := f t @ [v])) s1" by blast
  have "(\<lambda>u. (f(t := f t @ [v])) u @ map snd (filter (\<lambda>x. fst x = u) vs)) =
      (\<lambda>u. f u @ map snd (filter (\<lambda>x. fst x = u) (x # vs)))"
    by (auto simp: x fun_eq_iff)
  then show ?case using Cons.IH [OF s1(2)] Cons.prems(2) s1(1) by (auto simp: x)
qed simp

lemma read_after_push_all:
  assumes "inv f s" "\<forall>x \<in> set vs. known (fst x)"
  shows "\<exists>s'. push_all vs s = Some s' \<and>
    (\<forall>t. known t \<longrightarrow> read_all t s' = Some (f t @ map snd (filter (\<lambda>x. fst x = t) vs)))"
  using push_all_ok [OF assms] read_ok by blast

end

section \<open>The tables keep the contract\<close>

lemma mod_neq: "a < b \<Longrightarrow> b < a + c \<Longrightarrow> a mod c \<noteq> b mod (c :: nat)"
  using mod_eq_dvd_iff_nat [of a b c] by (auto dest: dvd_imp_le)

lemma ring_read_eq:
  "0 < cap \<Longrightarrow> p < cap \<or> n = 0 \<Longrightarrow> w \<or> p + n \<le> cap \<Longrightarrow>
    ring_read cap w r p n = Some (map (\<lambda>i. r ((p + i) mod cap)) [0..<n])"
proof (induction n arbitrary: p)
  case (Suc n)
  define q where "q = (if w \<and> p + 1 > cap - 1 then 0 else p + 1)"
  have p: "p < cap" using Suc.prems by simp
  have q: "q < cap \<or> n = 0" "w \<or> q + n \<le> cap"
    using Suc.prems p by (auto simp: q_def)
  have q3: "(q + i) mod cap = (p + Suc i) mod cap" for i
  proof (cases "w \<and> p + 1 > cap - 1")
    case True
    then have "Suc p = cap" using p by linarith
    then have "p + Suc i = i + cap" by simp
    then show ?thesis using True by (simp only: q_def mod_add_self2) simp
  qed (auto simp: q_def)
  have "map (\<lambda>i. r ((q + i) mod cap)) [0..<n] = map (\<lambda>i. r ((p + Suc i) mod cap)) [0..<n]"
    by (simp only: q3)
  moreover have "[0..<Suc n] = 0 # map Suc [0..<n]" by (simp add: map_Suc_upt upt_conv_Cons del: upt_Suc)
  ultimately show ?case
    using Suc.IH [OF Suc.prems(1) q(1,2)] p by (simp add: q_def o_def del: upt_Suc)
qed simp

lemma wrap_eq: "m < cap \<Longrightarrow> (if m + 1 > cap - 1 then 0 else m + 1) = (m + 1) mod (cap :: nat)"
  by (cases "m + 1 = cap") auto

lemma map_nth_drop:
  "P + k \<le> length xs \<Longrightarrow> (\<And>i. i < k \<Longrightarrow> g i = xs ! (P + i)) \<Longrightarrow>
    take P xs @ map g [0..<k] = take (P + k) xs"
  by (rule nth_equalityI) (auto simp: nth_append)

lemma page_aligned:
  assumes "PG dvd (cap :: nat)" "0 < cap"
  shows "p * PG mod cap + PG \<le> cap"
proof -
  obtain k where k: "cap = PG * k" using assms(1) by blast
  have "p * PG mod cap = PG * p mod (PG * k)" using k by (simp only: mult.commute)
  then have "p * PG mod cap = PG * (p mod k)" by (simp only: mult_mod_right)
  moreover have "p mod k + 1 \<le> k" using assms(2) k by (simp add: Suc_le_eq)
  then have "PG * (p mod k + 1) \<le> PG * k" by (rule mult_le_mono2)
  ultimately show ?thesis using k by (simp add: algebra_simps)
qed

abbreviation both_streams :: "(CHUNKID \<times> nat) set" where
  "both_streams \<equiv> {STSZ_ID, STTS_ID, STCO_ID, STSC_ID} \<times> {0, 1}"

definition io_ok :: "tmp_files \<Rightarrow> bool" where
  "io_ok t \<longleftrightarrow> (False \<notin> set (tmp_io t)) \<and>
     ((STSZ_ID, 0) \<in> set (tmp_fd t) \<longrightarrow> both_streams \<subseteq> set (tmp_fd t))"

lemma next_io_True:
  "False \<notin> set (tmp_io t) \<Longrightarrow>
    next_io t = (True, t\<lparr>tmp_io := tl (tmp_io t)\<rparr>) \<and> (False \<notin> set (tl (tmp_io t)))"
  by (cases "tmp_io t") (auto simp: next_io_def)

lemma create_files_ok:
  "False \<notin> set (tmp_io t) \<Longrightarrow>
    fst (create_files fs t) \<and> set fs \<union> set (tmp_fd t) \<subseteq> set (tmp_fd (snd (create_files fs t))) \<and>
    (False \<notin> set (tmp_io (snd (create_files fs t))))"
proof (induction fs t rule: create_files.induct)
  case (2 f fs t)
  then show ?case using next_io_True [of t] by auto
qed simp

lemma open_files_ok:
  assumes "io_ok t"
  obtains t1 where
    "(if (STSZ_ID, 0) \<in> set (tmp_fd t) then (True, t) else movCreateTmpFile t) = (True, t1)"
    "both_streams \<subseteq> set (tmp_fd t1)" "False \<notin> set (tmp_io t1)"
proof (cases "(STSZ_ID, 0) \<in> set (tmp_fd t)")
  case True
  then show ?thesis using that [of t] assms by (simp add: io_ok_def)
next
  case False
  have b: "False \<notin> set (tmp_io t)" using assms by (simp add: io_ok_def)
  show ?thesis
  proof (rule that)
    show "(if (STSZ_ID, 0) \<in> set (tmp_fd t) then (True, t) else movCreateTmpFile t) =
        (True, snd (create_files tmp_list t))"
      using create_files_ok [OF b, of tmp_list] False by (simp add: movCreateTmpFile_def prod_eq_iff)
    show "both_streams \<subseteq> set (tmp_fd (snd (create_files tmp_list t)))"
      "False \<notin> set (tmp_io (snd (create_files tmp_list t)))"
      using create_files_ok [OF b, of tmp_list] by (simp_all add: tmp_list_def)
  qed
qed

lemma idx_spill_page:
  assumes "io_ok t" "f \<in> both_streams" "cached x \<ge> cap" "rd x + MOV_CACHE_TINY_PAGE_SIZE \<le> cap"
  obtains t' where "io_ok t'"
    "idx_spill cap f pages t x = Some (True, True, t',
       x\<lparr>page_file := take (pages * MOV_CACHE_TINY_PAGE_SIZE) (page_file x) @
            replicate (pages * MOV_CACHE_TINY_PAGE_SIZE - length (page_file x)) 0 @
            map (\<lambda>i. ring x (rd x + i)) [0..<MOV_CACHE_TINY_PAGE_SIZE] @
            drop ((pages + 1) * MOV_CACHE_TINY_PAGE_SIZE) (page_file x),
         cached := cached x - MOV_CACHE_TINY_PAGE_SIZE,
         rd := (if rd x + MOV_CACHE_TINY_PAGE_SIZE > cap - 1 then 0 else rd x + MOV_CACHE_TINY_PAGE_SIZE)\<rparr>)"
proof -
  from open_files_ok [OF assms(1)] obtain t1 where t1:
    "(if (STSZ_ID, 0) \<in> set (tmp_fd t) then (True, t) else movCreateTmpFile t) = (True, t1)"
    "both_streams \<subseteq> set (tmp_fd t1)" "False \<notin> set (tmp_io t1)" .
  have f: "f \<in> set (tmp_fd t1)" using t1(2) assms(2) by blast
  have io: "next_io t1 = (True, t1\<lparr>tmp_io := tl (tmp_io t1)\<rparr>)" "False \<notin> set (tl (tmp_io t1))"
    using next_io_True [OF t1(3)] by blast+
  show thesis
    by (rule that [of "t1\<lparr>tmp_io := tl (tmp_io t1)\<rparr>"])
      (use t1(2) io(2) in \<open>simp add: io_ok_def\<close>,
        use assms(3,4) f io(1) in \<open>simp add: idx_spill_def t1(1) Let_def\<close>)
qed

lemma idx_push_ok:
  assumes inv: "idx_inv cap vs (x, p, n)" and t: "io_ok t" and f: "f \<in> both_streams"
    and cap: "MOV_CACHE_TINY_PAGE_SIZE dvd cap"
  shows "\<exists>t' s'. idx_push cap f v (t, x, p, n) = Some (True, t', s') \<and> idx_inv cap (vs @ [v]) s' \<and> io_ok t'"
proof -
  let ?P = "p * MOV_CACHE_TINY_PAGE_SIZE"
  have i: "n = length vs" "?P \<le> n" "cached x = n - ?P" "n - ?P < cap" "wr x = n mod cap"
    "rd x = ?P mod cap" "\<And>i. i < n - ?P \<Longrightarrow> ring x ((?P + i) mod cap) = vs ! (?P + i)"
    "page_file x = take ?P vs"
    using inv by (auto simp: idx_inv_def Let_def)
  have c0: "0 < cap" using i(4) by simp
  define x1 where "x1 = idx_wrap cap (x\<lparr>ring := (ring x)(wr x := v), wr := wr x + 1, cached := cached x + 1\<rparr>)"
  have w: "n mod cap < cap" using c0 by simp
  have x1: "wr x1 = (n + 1) mod cap" "rd x1 = ?P mod cap" "cached x1 = n + 1 - ?P"
    "page_file x1 = take ?P (vs @ [v])" "ring x1 = (ring x)(n mod cap := v)"
    using i(1,2,3,6,8) by (simp_all add: x1_def idx_wrap_def i(5))
      (use wrap_eq [OF w] in \<open>simp add: mod_Suc_eq split: if_splits\<close>)
  have r1: "ring x1 ((?P + k) mod cap) = (vs @ [v]) ! (?P + k)" if "k < n + 1 - ?P" for k
  proof (cases "k < n - ?P")
    case True
    then have "(?P + k) mod cap \<noteq> n mod cap" using i(4) by (intro mod_neq) simp_all
    moreover have "?P + k < length vs" using True i(1) by linarith
    ultimately show ?thesis using True i(1,7) x1(5) by (simp add: nth_append)
  next
    case False
    then have "?P + k = n" using that i(2) by linarith
    then show ?thesis using i(1) x1(5) by simp
  qed
  have push: "idx_push cap f v (t, x, p, n) = do {
      (ok, spilled, t1, x2) \<leftarrow> idx_spill cap f p t x1;
      Some (ok, t1, x2, if spilled then p + 1 else p, n + 1)}"
    using i(5) w by (simp add: idx_push_def idx_store_def x1_def)
  show ?thesis
  proof (cases "cap \<le> n + 1 - ?P")
    case False
    then have "idx_push cap f v (t, x, p, n) = Some (True, t, x1, p, n + 1)"
      using x1(3) by (simp add: push idx_spill_def)
    moreover have "idx_inv cap (vs @ [v]) (x1, p, n + 1)"
      using False i(1,2) x1 r1 by (simp add: idx_inv_def Let_def)
    ultimately show ?thesis using t by blast
  next
    case True
    then have full: "n + 1 = ?P + cap" using i(2,4) by linarith
    note al = page_aligned [OF cap c0, of p]
    let ?PG = "MOV_CACHE_TINY_PAGE_SIZE"
    have pg: "ring x1 (rd x1 + k) = (vs @ [v]) ! (?P + k)" if "k < ?PG" for k
    proof -
      have "?P mod cap + k < cap" using al that by linarith
      then have "(?P + k) mod cap = ?P mod cap + k" by (metis mod_add_left_eq mod_less)
      moreover have "k < n + 1 - ?P" using al that full by linarith
      ultimately show ?thesis using r1 [of k] x1(2) by simp
    qed
    from idx_spill_page [OF t f, of cap x1 p] obtain t' where t': "io_ok t'"
      "idx_spill cap f p t x1 = Some (True, True, t',
         x1\<lparr>page_file := take ?P (page_file x1) @ replicate (?P - length (page_file x1)) 0 @ map (\<lambda>i. ring x1 (rd x1 + i)) [0..<?PG] @
              drop ((p + 1) * ?PG) (page_file x1),
            cached := cached x1 - ?PG,
            rd := (if rd x1 + ?PG > cap - 1 then 0 else rd x1 + ?PG)\<rparr>)" (is "_ = Some (_, _, _, ?x2)")
      using True x1(2,3) al by auto
    have "idx_inv cap (vs @ [v]) (?x2, p + 1, n + 1)"
    proof -
      have pos: "0 < ?PG" "?PG \<le> cap" using al by (auto simp: MOV_CACHE_TINY_PAGE_SIZE_def)
      have len: "?P + ?PG \<le> length (vs @ [v])" using full pos i(1) by simp
      have "(if rd x1 + ?PG > cap - 1 then 0 else rd x1 + ?PG) = (?P + ?PG) mod cap"
      proof -
        have "(?P + ?PG) mod cap = (?P mod cap + ?PG) mod cap" by (simp add: mod_add_left_eq)
        then show ?thesis using al pos x1(2) by (cases "?P mod cap + ?PG = cap") auto
      qed
      moreover have "ring x1 ((?P + ?PG + k) mod cap) = (vs @ [v]) ! (?P + ?PG + k)"
        if "k < n + 1 - (?P + ?PG)" for k
        using r1 [of "?PG + k"] that by (simp add: add.assoc)
      moreover have "take ?P (page_file x1) @ replicate (?P - length (page_file x1)) 0 @ map (\<lambda>i. ring x1 (rd x1 + i)) [0..<?PG] @
          drop ((p + 1) * ?PG) (page_file x1) = take (?P + ?PG) (vs @ [v])"
      proof -
        have "take ?P (page_file x1) = take ?P (vs @ [v])" by (simp only: x1(4) take_take min.idem)
        moreover have "drop ((p + 1) * ?PG) (page_file x1) = []" by (simp add: x1(4))
        moreover have "replicate (?P - length (page_file x1)) 0 = ([] :: u32 list)"
          using i(1,2) by (simp add: x1(4))
        ultimately show ?thesis by (simp only: map_nth_drop [OF len pg] append_Nil append_Nil2)
      qed
      ultimately show ?thesis
        using full pos x1(1,3) i(1) len by (simp add: idx_inv_def Let_def add.commute)
    qed
    then show ?thesis using t' by (auto simp: push)
  qed
qed

lemma idx_read_ok:
  assumes inv: "idx_inv cap vs (x, p, n)"
  shows "idx_read cap p n x = Some vs"
proof -
  let ?P = "p * MOV_CACHE_TINY_PAGE_SIZE"
  have i: "n = length vs" "?P \<le> n" "n - ?P < cap" "rd x = ?P mod cap"
    "\<And>i. i < n - ?P \<Longrightarrow> ring x ((?P + i) mod cap) = vs ! (?P + i)" "page_file x = take ?P vs"
    using inv by (auto simp: idx_inv_def Let_def)
  have c0: "0 < cap" using i(3) by simp
  have "?P mod cap < cap" using c0 by simp
  then have r: "ring_read cap w (ring x) (rd x) (n - ?P) = Some (drop ?P vs)" if "w \<or> p = 0" for w
  proof -
    have "(?P mod cap + k) mod cap = (?P + k) mod cap" for k by (simp add: mod_add_left_eq)
    then have "map (\<lambda>k. ring x ((rd x + k) mod cap)) [0..<n - ?P] = drop ?P vs"
      using i(1,2,4,5) by (intro nth_equalityI) auto
    moreover have "w \<or> rd x + (n - ?P) \<le> cap" using that i(3,4) by auto
    ultimately show ?thesis
      using ring_read_eq [OF c0, of "rd x" "n - ?P" w "ring x"] i(4) c0 by simp
  qed
  show ?thesis
    using r [of True] r [of False] i(1,2,6) by (auto simp: idx_read_def)
qed

lemma page_dvd_cache_size: "MOV_CACHE_TINY_PAGE_SIZE dvd cache_size k"
  by (cases k) (simp_all add: cache_size_def)

end
