(* ===== verification/Mp4Mov.thy ===== *)
theory Mp4Mov
  imports ByteIO Mp4Index
begin

text \<open>
  The state of the MP4 muxer and its packets (libmuxer/mp4_muxer/Mp4Muxer.h, Mp4Muxer.c and the
  defaults of Mp4MuxerDrv.c): \<open>mov_write_packet\<close> appends a frame to the media data and enters it
  into the index tables of its stream.

  \<open>streams[i]->codec\<close> and \<open>tracks[i].enc\<close> are the same object from \<open>mov_write_header\<close> on; it is
  the field \<open>enc\<close> of the track. The fields \<open>xxx_size\<close> and \<open>xxx_tiny_pages\<close> of a track are
  functions of the table. Sizes and counts are natural numbers; where the code stores or writes
  32 bits of one, the model takes it modulo \<open>2 ^ 32\<close>. The result of an operation is what it
  returns, the new state and the buffers it hands to \<open>fsWrite\<close>. Memory allocation succeeds.
\<close>

section \<open>Codecs, tracks and the context\<close>

datatype CodecType = CODEC_TYPE_VIDEO | CODEC_TYPE_AUDIO | CODEC_TYPE_TEXT

datatype CodecID =
    CODEC_ID_MPEG4 | CODEC_ID_H264 | CODEC_ID_H265 | CODEC_ID_MJPEG | CODEC_ID_AAC
  | CODEC_ID_MP3 | CODEC_ID_PCM | CODEC_ID_ADPCM | CODEC_ID_GGAD

definition codec_num :: "CodecID \<Rightarrow> u32" where
  "codec_num c =
     (case c of
        CODEC_ID_MPEG4 \<Rightarrow> 32 | CODEC_ID_H264 \<Rightarrow> 33 | CODEC_ID_H265 \<Rightarrow> 34
      | CODEC_ID_MJPEG \<Rightarrow> 108 | CODEC_ID_AAC \<Rightarrow> 64 | CODEC_ID_MP3 \<Rightarrow> 105
      | CODEC_ID_PCM \<Rightarrow> 106 | CODEC_ID_ADPCM \<Rightarrow> 107 | CODEC_ID_GGAD \<Rightarrow> 150)"

record AVCodecContext =
  width :: u32
  height :: u32
  codec_type :: CodecType
  rotate_degree :: u32
  codec_tag :: u32
  codec_id :: CodecID
  channels :: u32
  frame_size :: u32
  frame_rate :: u32
  bits_per_sample :: u32
  sample_rate :: u32

text \<open>
  \<open>hvcc\<close> and \<open>hvcc_size\<close> stand for what \<open>ff_isom_write_hvcc\<close> writes and what
  \<open>FFIsomGetHvccSize\<close> returns for the parameter sets of the track; theory \<open>Hevc\<close> models both, and the
  root theory links them to a track.
\<close>

record MOVTrack =
  enc :: AVCodecContext
  tag :: u32
  vosData :: "byte list"
  hvcc :: calls
  hvcc_size :: u32
  trackDuration :: u32
  track_time :: u32
  track_timescale :: u32
  trackID :: u32
  table_size :: "CHUNKID \<Rightarrow> nat"
  tiny_pages :: "CHUNKID \<Rightarrow> nat"
  keyFrame_num :: nat

definition MAX_STREAMS :: nat where "MAX_STREAMS = 3"
definition KEYFRAME_CACHE_SIZE :: nat where "KEYFRAME_CACHE_SIZE = 8 * 1024 * 16"
definition MOV_HEADER_RESERVE_SIZE :: nat where "MOV_HEADER_RESERVE_SIZE = 1024 * 1024"
definition MOV_GPS_MAX_ENTRY_NUM :: nat where "MOV_GPS_MAX_ENTRY_NUM = 10 * 60 * 2"

datatype gps_pack_method_e = GPS_PACK_IN_TRACK | GPS_PACK_IN_MDAT

text \<open>\<open>gps_pack_method\<close> is a variable of the driver; \<open>gps_entry_buff\<close> is \<open>None\<close> when there is none.\<close>

record MOVContext =
  create_time :: u32
  nb_streams :: nat
  mdat_pos :: nat
  mdat_start_pos :: nat
  mdat_size :: nat
  mov_timescale :: u32
  geo_available :: bool
  gps_pack_method :: gps_pack_method_e
  latitudex10000 :: int
  longitudex10000 :: int
  tracks :: "nat \<Rightarrow> MOVTrack"
  tabs :: "CHUNKID \<Rightarrow> nat \<Rightarrow> mov_idx"
  tmp :: tmp_files
  cache_keyframe :: "nat \<Rightarrow> u32"
  stsc_cnt :: nat
  last_stream_index :: "nat option"
  keyframe_num :: nat
  free_pos :: nat
  gps_entry_buff :: "(nat \<Rightarrow> u32 \<times> u32) option"
  gps_entry_buff_wt :: nat

record AVPacket =
  data0 :: "byte list"
  data1 :: "byte list"
  stream_index :: nat
  flags :: u32
  duration :: u32

definition AVPACKET_FLAG_KEYFRAME :: u32 where "AVPACKET_FLAG_KEYFRAME = 1"

section \<open>The tables of a stream\<close>

definition upd_track :: "nat \<Rightarrow> (MOVTrack \<Rightarrow> MOVTrack) \<Rightarrow> MOVContext \<Rightarrow> MOVContext" where
  "upd_track i f m = m\<lparr>tracks := (tracks m)(i := f (tracks m i))\<rparr>"

definition set_tab :: "CHUNKID \<Rightarrow> nat \<Rightarrow> mov_idx \<Rightarrow> MOVContext \<Rightarrow> MOVContext" where
  "set_tab k i x m = m\<lparr>tabs := (tabs m)(k := (tabs m k)(i := x))\<rparr>"

text \<open>
  \<open>*cache_write_ptr[k][i]++ = v\<close> with the counters, and the end of the ring: the page that goes
  to the file of stream \<open>i\<close> is counted in track \<open>j\<close>.
\<close>

definition mov_store :: "CHUNKID \<Rightarrow> nat \<Rightarrow> u32 \<Rightarrow> MOVContext \<Rightarrow> MOVContext option" where
  "mov_store k i v m = do {
     x \<leftarrow> idx_store (cache_size k) v (tabs m k i);
     Some (upd_track i (\<lambda>t. t\<lparr>table_size := (table_size t)(k := table_size t k + 1)\<rparr>)
             (set_tab k i (x\<lparr>cached := cached x + 1\<rparr>) m))
   }"

definition mov_settle :: "CHUNKID \<Rightarrow> nat \<Rightarrow> nat \<Rightarrow> MOVContext \<Rightarrow> (bool \<times> MOVContext) option" where
  "mov_settle k i j m = do {
     (ok, spilled, t, x) \<leftarrow> idx_spill (cache_size k) (k, i) (tiny_pages (tracks m j) k) (tmp m)
                            (idx_wrap (cache_size k) (tabs m k i));
     let m1 = (set_tab k i x m)\<lparr>tmp := t\<rparr>;
     Some (ok, if spilled
               then upd_track j (\<lambda>t. t\<lparr>tiny_pages := (tiny_pages t)(k := tiny_pages t k + 1)\<rparr>) m1
               else m1)
   }"

section \<open>Packets\<close>

text \<open>
  A packet of another stream than the last one opens a chunk: its offset goes to the table of
  the stream, and the number of samples in the chunk that ends goes to the table of the last
  stream, the page of which is counted in the track of the packet.
\<close>

definition open_chunk :: "nat \<Rightarrow> MOVContext \<Rightarrow> (bool \<times> MOVContext) option" where
  "open_chunk i m =
     (if last_stream_index m \<noteq> Some i
      then do {
        m1 \<leftarrow> mov_store STCO_ID i (of_nat (mdat_size m + mdat_start_pos m)) m;
        (ok, m2) \<leftarrow> (case last_stream_index m1 of
            None \<Rightarrow> Some (True, m1)
          | Some l \<Rightarrow> do {
              m2 \<leftarrow> mov_store STSC_ID l (of_nat (stsc_cnt m1)) m1;
              mov_settle STSC_ID l i m2
            });
        if \<not> ok then Some (False, m2)
        else mov_settle STCO_ID i i (m2\<lparr>stsc_cnt := 0\<rparr>)
      }
      else Some (True, m))"

text \<open>The sizes: a PCM packet counts its samples, any other packet is a sample.\<close>

definition pcm_unit :: "AVCodecContext \<Rightarrow> nat" where
  "pcm_unit c = unat (channels c) * (unat (bits_per_sample c) div 8)"

definition add_size :: "nat \<Rightarrow> nat \<Rightarrow> MOVContext \<Rightarrow> (bool \<times> MOVContext) option" where
  "add_size i sz m =
     (if codec_id (enc (tracks m i)) = CODEC_ID_PCM
      then (if pcm_unit (enc (tracks m i)) = 0 then None
            else let n = sz div pcm_unit (enc (tracks m i));
                     m1 = upd_track i (\<lambda>t. t\<lparr>table_size := (table_size t)(STSZ_ID := table_size t STSZ_ID + n)\<rparr>) m
                 in mov_settle STSZ_ID i i (m1\<lparr>stsc_cnt := stsc_cnt m1 + n\<rparr>))
      else do {
        m1 \<leftarrow> mov_store STSZ_ID i (of_nat sz) m;
        mov_settle STSZ_ID i i (m1\<lparr>stsc_cnt := stsc_cnt m1 + 1\<rparr>)
      })"

text \<open>
  Is a video packet a key frame? The byte behind the start code is fetched for every codec, which
  is \<open>None\<close> when the second part does not have it; of a packet without a first part the variable
  stays unset, \<open>Some None\<close>, and to look at it then is \<open>None\<close> again.
\<close>

definition tmpStrmByte :: "AVPacket \<Rightarrow> byte option option" where
  "tmpStrmByte pkt =
     (if length (data0 pkt) \<ge> 5 then Some (Some (data0 pkt ! 4))
      else if length (data0 pkt) > 0
           then (if 4 - length (data0 pkt) < length (data1 pkt)
                 then Some (Some (data1 pkt ! (4 - length (data0 pkt)))) else None)
           else Some None)"

definition mark_keyframe :: "nat \<Rightarrow> MOVContext \<Rightarrow> MOVContext option" where
  "mark_keyframe i m =
     (let n = keyFrame_num (tracks m i)
      in if n < KEYFRAME_CACHE_SIZE div 4
         then Some (upd_track i (\<lambda>t. t\<lparr>keyFrame_num := n + 1\<rparr>)
                (m\<lparr>cache_keyframe := (cache_keyframe m)(n := of_nat (table_size (tracks m i) STTS_ID))\<rparr>))
         else None)"

definition key_frames :: "nat \<Rightarrow> AVPacket \<Rightarrow> MOVContext \<Rightarrow> (bool \<times> MOVContext) option" where
  "key_frames i pkt m = do {
      set \<leftarrow> tmpStrmByte pkt;
      (case codec_id (enc (tracks m i)) of
        CODEC_ID_H264 \<Rightarrow> do {
          b \<leftarrow> set;
          m1 \<leftarrow> (if and b 0x1f = 5 then mark_keyframe i m else Some m);
          Some (True, m1)
        }
      | CODEC_ID_H265 \<Rightarrow> do {
          m1 \<leftarrow> (if and (flags pkt) AVPACKET_FLAG_KEYFRAME \<noteq> 0 then mark_keyframe i m else Some m);
          Some (True, m1)
        }
      | CODEC_ID_MPEG4 \<Rightarrow> do {
          b \<leftarrow> set;
          m1 \<leftarrow> (if drop_bit 6 b = 0 then mark_keyframe i m else Some m);
          Some (True, m1)
        }
      | CODEC_ID_MJPEG \<Rightarrow> do {
          m1 \<leftarrow> (if keyframe_num m = 0 then mark_keyframe i m else Some m);
          let n = keyframe_num m1 + 1;
          Some (True, m1\<lparr>keyframe_num := if n \<ge> 25 then 0 else n\<rparr>)
        }
      | _ \<Rightarrow> Some (False, m))
    }"

text \<open>A video packet: its duration, and the table of key frames.\<close>

definition video_packet :: "AVPacket \<Rightarrow> MOVContext \<Rightarrow> (bool \<times> MOVContext) option" where
  "video_packet pkt m = do {
     m1 \<leftarrow> mov_store STTS_ID 0 (duration pkt) m;
     (ok, m2) \<leftarrow> mov_settle STTS_ID 0 0 m1;
     if \<not> ok then Some (False, m2) else key_frames 0 pkt m2
   }"

text \<open>The data: the start code of an H.264 or H.265 frame is replaced by the frame's length.\<close>

definition packet_data :: "bool \<Rightarrow> nat \<Rightarrow> AVPacket \<Rightarrow> calls option" where
  "packet_data special sz pkt =
     (let size0 = length (data0 pkt); size1 = length (data1 pkt);
          skip = (if special \<and> 0 < size0 \<and> size0 \<le> 4 then 4 - size0 else 0);
          c0 = (if size0 > 0
                then (if \<not> special then put_buffer_cache (data0 pkt)
                      else put_buffer_cache (le_bytes32 (bswap32 (of_nat sz - 4))) @
                           (if size0 \<le> 4 then [] else put_buffer_cache (drop 4 (data0 pkt))))
                else [])
      in if size1 > 0
         then (if skip \<le> size1 then Some (c0 @ put_buffer_cache (drop skip (data1 pkt))) else None)
         else Some c0)"

text \<open>A packet with GPS data goes to the media data inside a \<open>free\<close> box.\<close>

definition mov_write_free_tag :: "u32 \<Rightarrow> calls" where
  "mov_write_free_tag sz = put_be32_cache sz @ put_tag_cache ''free''"

definition mov_write_gps_packet :: "AVPacket \<Rightarrow> MOVContext \<Rightarrow> (MOVContext \<times> calls) option" where
  "mov_write_gps_packet pkt m =
     (let size = length (data0 pkt) + length (data1 pkt);
          offset = mdat_size m + mdat_start_pos m;
          data_size = 4 + 4 + 4 + 4 + size;
          wt = gps_entry_buff_wt m + 1
      in if size = 0 \<or> data0 pkt = [] then Some (m, [])
         else case gps_entry_buff m of
             None \<Rightarrow> None
           | Some g \<Rightarrow>
               Some (m\<lparr>gps_entry_buff := Some (g(gps_entry_buff_wt m := (of_nat offset, of_nat data_size))),
                       gps_entry_buff_wt := (if wt \<ge> MOV_GPS_MAX_ENTRY_NUM then 0 else wt),
                       mdat_size := mdat_size m + data_size\<rparr>,
                 mov_write_free_tag (of_nat data_size) @ put_tag_cache ''GPS '' @
                 put_buffer_cache (le_bytes32 (of_nat size)) @ put_buffer_cache (data0 pkt)))"

definition mov_write_packet :: "AVPacket \<Rightarrow> MOVContext \<Rightarrow> (int \<times> MOVContext \<times> calls) option" where
  "mov_write_packet pkt m =
     (let i = stream_index pkt;
          codec = codec_id (enc (tracks m i));
          mjpeg = (codec = CODEC_ID_MJPEG);
          size = length (data0 pkt) + length (data1 pkt) + (if mjpeg then 2 else 0)
      in if i \<ge> MAX_STREAMS then None
      else do {
        (ok, m1) \<leftarrow> open_chunk i m;
        if \<not> ok then Some (- 1, m1, [])
        else do {
          let m2 = m1\<lparr>last_stream_index := Some i\<rparr>;
          if i = 2 \<and> gps_pack_method m2 = GPS_PACK_IN_MDAT
          then do { (m3, c) \<leftarrow> mov_write_gps_packet pkt m2; Some (0, m3, c) }
          else do {
            (ok, m3) \<leftarrow> add_size i size m2;
            if \<not> ok then Some (- 1, m3, [])
            else do {
              (ok, m4) \<leftarrow> (if i = 0 then video_packet pkt m3 else Some (True, m3));
              if \<not> ok then Some (- 1, m4, [])
              else do {
                let special = (i = 0 \<and> (codec = CODEC_ID_H264 \<or> codec = CODEC_ID_H265) \<and> size \<noteq> 0);
                c \<leftarrow> packet_data special size pkt;
                Some (0, m4\<lparr>mdat_size := mdat_size m4 + size\<rparr>,
                      c @ (if mjpeg then put_buffer_cache [0xff, 0xd9] else []))
              }
            }
          }
        }
      })"

text \<open>The packet with the index \<open>-1\<close> that the trailer makes: the last chunk ends.\<close>

definition mov_last_packet :: "MOVContext \<Rightarrow> MOVContext option" where
  "mov_last_packet m = do {
     l \<leftarrow> last_stream_index m;
     x \<leftarrow> idx_store (cache_size STSC_ID) (of_nat (stsc_cnt m)) (tabs m STSC_ID l);
     Some (upd_track l (\<lambda>t. t\<lparr>table_size := (table_size t)(STSC_ID := table_size t STSC_ID + 1)\<rparr>)
             (set_tab STSC_ID l x m))
   }"

end
