(* ===== verification/Mp4Samples.thy ===== *)
theory Mp4Samples
  imports Mp4Mov
begin

text \<open>
  What the packets of a recording leave in the MP4 muxer: the media data is the samples in the
  order of the packets, and the index tables describe its chunks, the runs of samples of one
  stream. The recordings are those of one video and one audio stream with a coded audio format;
  the number of samples is not bounded by the size of the tables in memory.
\<close>

section \<open>Tables that change and tables that do not\<close>

definition tab_ok :: "CHUNKID \<Rightarrow> nat \<Rightarrow> u32 list \<Rightarrow> MOVContext \<Rightarrow> bool" where
  "tab_ok k i vs m \<longleftrightarrow>
     idx_inv (cache_size k) vs (tabs m k i, tiny_pages (tracks m i) k, table_size (tracks m i) k)"

text \<open>A value has been stored, the end of the ring has not been looked at yet.\<close>

definition stored :: "CHUNKID \<Rightarrow> nat \<Rightarrow> u32 list \<Rightarrow> u32 \<Rightarrow> MOVContext \<Rightarrow> bool" where
  "stored k i vs v m \<longleftrightarrow>
     (\<exists>x x1 n. idx_inv (cache_size k) vs (x, tiny_pages (tracks m i) k, n) \<and>
        idx_store (cache_size k) v x = Some x1 \<and> tabs m k i = x1\<lparr>cached := cached x1 + 1\<rparr> \<and>
        table_size (tracks m i) k = n + 1)"

text \<open>Only table \<open>k\<close> of stream \<open>i\<close> and the temporary files may have changed.\<close>

definition touch :: "CHUNKID \<Rightarrow> nat \<Rightarrow> MOVContext \<Rightarrow> MOVContext \<Rightarrow> bool" where
  "touch k i m m' \<longleftrightarrow>
     (\<exists>x n p t. m' = (upd_track i
        (\<lambda>t. t\<lparr>table_size := (table_size t)(k := n), tiny_pages := (tiny_pages t)(k := p)\<rparr>)
        (set_tab k i x m))\<lparr>tmp := t\<rparr>)"

text \<open>What no packet changes.\<close>

definition frozen :: "MOVContext \<Rightarrow> MOVContext" where
  "frozen m = m\<lparr>
     tracks := \<lambda>i. (tracks m i)\<lparr>table_size := \<lambda>_. 0, tiny_pages := \<lambda>_. 0, keyFrame_num := 0\<rparr>,
     tabs := \<lambda>_ _. \<lparr>ring = \<lambda>_. 0, wr = 0, rd = 0, cached = 0, page_file = []\<rparr>,
     tmp := \<lparr>tmp_fd = [], tmp_io = []\<rparr>, mdat_size := 0, cache_keyframe := \<lambda>_. 0,
     stsc_cnt := 0, last_stream_index := None, keyframe_num := 0\<rparr>"

lemma frozen_eq_dest:
  assumes "frozen m' = frozen m"
  shows "enc (tracks m' i) = enc (tracks m i)" "tag (tracks m' i) = tag (tracks m i)"
    "vosData (tracks m' i) = vosData (tracks m i)" "hvcc (tracks m' i) = hvcc (tracks m i)"
    "hvcc_size (tracks m' i) = hvcc_size (tracks m i)"
    "nb_streams m' = nb_streams m" "mdat_pos m' = mdat_pos m" "mdat_start_pos m' = mdat_start_pos m"
    "geo_available m' = geo_available m" "gps_pack_method m' = gps_pack_method m" "free_pos m' = free_pos m"
proof -
  have t: "tracks (frozen m') i = tracks (frozen m) i" using assms by simp
  show "enc (tracks m' i) = enc (tracks m i)" using arg_cong [OF t, of enc] by (simp add: frozen_def)
  show "tag (tracks m' i) = tag (tracks m i)" using arg_cong [OF t, of tag] by (simp add: frozen_def)
  show "vosData (tracks m' i) = vosData (tracks m i)" using arg_cong [OF t, of vosData] by (simp add: frozen_def)
  show "hvcc (tracks m' i) = hvcc (tracks m i)" using arg_cong [OF t, of hvcc] by (simp add: frozen_def)
  show "hvcc_size (tracks m' i) = hvcc_size (tracks m i)" using arg_cong [OF t, of hvcc_size] by (simp add: frozen_def)
  show "nb_streams m' = nb_streams m" using arg_cong [OF assms, of nb_streams] by (simp add: frozen_def)
  show "mdat_pos m' = mdat_pos m" using arg_cong [OF assms, of mdat_pos] by (simp add: frozen_def)
  show "mdat_start_pos m' = mdat_start_pos m" using arg_cong [OF assms, of mdat_start_pos] by (simp add: frozen_def)
  show "geo_available m' = geo_available m" using arg_cong [OF assms, of geo_available] by (simp add: frozen_def)
  show "gps_pack_method m' = gps_pack_method m" using arg_cong [OF assms, of gps_pack_method] by (simp add: frozen_def)
  show "free_pos m' = free_pos m" using arg_cong [OF assms, of free_pos] by (simp add: frozen_def)
qed

lemma touchE:
  assumes "touch k i m m'"
  obtains x n p t where "m' = (upd_track i
        (\<lambda>t. t\<lparr>table_size := (table_size t)(k := n), tiny_pages := (tiny_pages t)(k := p)\<rparr>)
        (set_tab k i x m))\<lparr>tmp := t\<rparr>"
  using assms by (auto simp: touch_def)

lemma touchI:
  "m' = (upd_track i
        (\<lambda>t. t\<lparr>table_size := (table_size t)(k := n), tiny_pages := (tiny_pages t)(k := p)\<rparr>)
        (set_tab k i x m))\<lparr>tmp := t\<rparr> \<Longrightarrow> touch k i m m'"
  by (auto simp: touch_def)

lemma touch_frozen: "touch k i m m' \<Longrightarrow> frozen m' = frozen m"
  by (elim touchE) (simp add: frozen_def upd_track_def set_tab_def fun_eq_iff)

lemma touch_sel:
  "touch k i m m' \<Longrightarrow> stsc_cnt m' = stsc_cnt m"
  "touch k i m m' \<Longrightarrow> mdat_size m' = mdat_size m"
  "touch k i m m' \<Longrightarrow> mdat_start_pos m' = mdat_start_pos m"
  "touch k i m m' \<Longrightarrow> last_stream_index m' = last_stream_index m"
  "touch k i m m' \<Longrightarrow> gps_pack_method m' = gps_pack_method m"
  "touch k i m m' \<Longrightarrow> enc (tracks m' j) = enc (tracks m j)"
  "touch k i m m' \<Longrightarrow> keyFrame_num (tracks m' j) = keyFrame_num (tracks m j)"
  by (elim touchE, simp add: upd_track_def set_tab_def)+

lemma touch_tab_ok: "touch k i m m' \<Longrightarrow> (k', i') \<noteq> (k, i) \<Longrightarrow> tab_ok k' i' vs m' = tab_ok k' i' vs m"
  by (elim touchE) (auto simp: tab_ok_def upd_track_def set_tab_def)

lemma touch_stored: "touch k i m m' \<Longrightarrow> (k', i') \<noteq> (k, i) \<Longrightarrow> stored k' i' vs v m' = stored k' i' vs v m"
  by (elim touchE) (auto simp: stored_def upd_track_def set_tab_def)

lemma touch_pages: "touch k i m m' \<Longrightarrow> (k', i') \<noteq> (k, i) \<Longrightarrow> tiny_pages (tracks m' i') k' = tiny_pages (tracks m i') k'"
  by (elim touchE) (auto simp: upd_track_def set_tab_def)

lemma store_ok:
  assumes "tab_ok k i vs m"
  obtains m1 where "mov_store k i v m = Some m1" "stored k i vs v m1" "touch k i m m1"
    "tmp m1 = tmp m" "tiny_pages (tracks m1 i) k = tiny_pages (tracks m i) k"
proof -
  let ?x = "tabs m k i"
  have inv: "idx_inv (cache_size k) vs (?x, tiny_pages (tracks m i) k, table_size (tracks m i) k)"
    using assms by (simp add: tab_ok_def)
  then have "0 < cache_size k" "wr ?x = length vs mod cache_size k"
    by (auto simp: idx_inv_def Let_def)
  then obtain x1 where x1: "idx_store (cache_size k) v ?x = Some x1"
    by (auto simp: idx_store_def)
  define m1 where "m1 = upd_track i (\<lambda>t. t\<lparr>table_size := (table_size t)(k := table_size t k + 1)\<rparr>)
       (set_tab k i (x1\<lparr>cached := cached x1 + 1\<rparr>) m)"
  show thesis
  proof (rule that)
    show "mov_store k i v m = Some m1" by (simp add: mov_store_def x1 m1_def)
    show "stored k i vs v m1" using inv x1 by (auto simp: stored_def m1_def upd_track_def set_tab_def)
    show "touch k i m m1"
      by (rule touchI [where x = "x1\<lparr>cached := cached x1 + 1\<rparr>" and n = "table_size (tracks m i) k + 1"
            and p = "tiny_pages (tracks m i) k" and t = "tmp m"])
        (simp add: m1_def upd_track_def set_tab_def)
  qed (simp_all add: m1_def upd_track_def set_tab_def)
qed

lemma settle_ok:
  assumes s: "stored k i vs v m" and io: "io_ok (tmp m)" and i: "i < 2"
  obtains m2 where "mov_settle k i i m = Some (True, m2)" "tab_ok k i (vs @ [v]) m2"
    "io_ok (tmp m2)" "touch k i m m2"
proof -
  let ?p = "tiny_pages (tracks m i) k"
  from s obtain x x1 n where x: "idx_inv (cache_size k) vs (x, ?p, n)"
    "idx_store (cache_size k) v x = Some x1" "tabs m k i = x1\<lparr>cached := cached x1 + 1\<rparr>"
    "table_size (tracks m i) k = n + 1" by (auto simp: stored_def)
  have "(k, i) \<in> both_streams" using i by (cases k) auto
  from idx_push_ok [OF x(1) io this page_dvd_cache_size, of v] obtain sp t x2 where
    sp: "idx_spill (cache_size k) (k, i) ?p (tmp m) (idx_wrap (cache_size k) (tabs m k i)) = Some (True, sp, t, x2)"
    "idx_inv (cache_size k) (vs @ [v]) (x2, if sp then ?p + 1 else ?p, n + 1)" "io_ok t"
    using x(2,3) by (auto simp: idx_push_def split: bind_splits)
  define m1 where "m1 = (set_tab k i x2 m)\<lparr>tmp := t\<rparr>"
  define m2 where "m2 = (if sp then upd_track i (\<lambda>t. t\<lparr>tiny_pages := (tiny_pages t)(k := tiny_pages t k + 1)\<rparr>) m1 else m1)"
  show thesis
  proof (rule that)
    show "mov_settle k i i m = Some (True, m2)"
      by (simp add: mov_settle_def sp(1) m2_def m1_def Let_def)
    show "tab_ok k i (vs @ [v]) m2" "io_ok (tmp m2)"
      using sp(2,3) x(4) by (auto simp: tab_ok_def m2_def m1_def upd_track_def set_tab_def)
    show "touch k i m m2"
      by (rule touchI [where x = x2 and n = "table_size (tracks m i) k"
            and p = "if sp then ?p + 1 else ?p" and t = t])
        (simp add: m2_def m1_def upd_track_def set_tab_def)
  qed
qed

text \<open>
  A value for a table that counts its pages in its own track: the chunk offsets, the sizes and the
  durations. (The chunk lengths count theirs in the track of the packet, see \<open>open_chunk\<close>.)
\<close>

definition own_pages :: "CHUNKID \<times> nat \<Rightarrow> bool" where
  "own_pages t \<longleftrightarrow> fst t \<noteq> STSC_ID \<and> snd t < 2"

definition table_push :: "CHUNKID \<times> nat \<Rightarrow> u32 \<Rightarrow> MOVContext \<Rightarrow> (bool \<times> MOVContext) option" where
  "table_push t v m = do { m1 \<leftarrow> mov_store (fst t) (snd t) v m; mov_settle (fst t) (snd t) (snd t) m1 }"

definition table_read :: "CHUNKID \<times> nat \<Rightarrow> MOVContext \<Rightarrow> u32 list option" where
  "table_read t m =
     idx_read (cache_size (fst t)) (tiny_pages (tracks m (snd t)) (fst t)) (table_size (tracks m (snd t)) (fst t))
       (tabs m (fst t) (snd t))"

definition tabs_ok :: "(CHUNKID \<times> nat \<Rightarrow> u32 list) \<Rightarrow> MOVContext \<Rightarrow> bool" where
  "tabs_ok f m \<longleftrightarrow> (\<forall>t. own_pages t \<longrightarrow> tab_ok (fst t) (snd t) (f t) m) \<and> io_ok (tmp m)"

interpretation idx: index_table table_push own_pages tabs_ok table_read
proof
  fix f m v and t :: "CHUNKID \<times> nat"
  assume inv: "tabs_ok f m" and t: "own_pages t"
  obtain k i where ki: "t = (k, i)" by (cases t)
  have "tab_ok k i (f t) m" using inv t by (auto simp: tabs_ok_def ki)
  from store_ok [OF this, of v] obtain m1 where
    m1: "mov_store k i v m = Some m1" "stored k i (f t) v m1" "touch k i m m1" "tmp m1 = tmp m" by blast
  then have "io_ok (tmp m1)" "i < 2" using inv t by (simp_all add: tabs_ok_def own_pages_def ki)
  from settle_ok [OF m1(2) this] obtain m2 where
    m2: "mov_settle k i i m1 = Some (True, m2)" "tab_ok k i (f t @ [v]) m2" "io_ok (tmp m2)" "touch k i m1 m2" .
  have "tab_ok (fst u) (snd u) ((f(t := f t @ [v])) u) m2" if "own_pages u" for u
  proof (cases "u = t")
    case False
    then have "(fst u, snd u) \<noteq> (k, i)" by (auto simp: ki)
    then show ?thesis
      using inv that False touch_tab_ok [OF m2(4), of "fst u" "snd u"] touch_tab_ok [OF m1(3), of "fst u" "snd u"]
      unfolding tabs_ok_def by (simp del: split_paired_All)
  qed (use m2(2) ki in simp)
  then have "tabs_ok (f(t := f t @ [v])) m2" using m2(3) unfolding tabs_ok_def by blast
  then show "\<exists>m'. table_push t v m = Some (True, m') \<and> tabs_ok (f(t := f t @ [v])) m'"
    using m1(1) m2(1) by (simp add: table_push_def ki)
next
  fix f m and t :: "CHUNKID \<times> nat"
  show "tabs_ok f m \<Longrightarrow> own_pages t \<Longrightarrow> table_read t m = Some (f t)"
    using idx_read_ok [of "cache_size (fst t)" "f t"]
    unfolding tabs_ok_def tab_ok_def table_read_def by (simp del: split_paired_All)
qed

text \<open>A table that does not become full does not spill, whichever track is to count the page.\<close>

lemma settle_not_full:
  assumes s: "stored k i vs v m" and n: "length vs + 1 < cache_size k" and p: "tiny_pages (tracks m i) k = 0"
  obtains m2 where "mov_settle k i j m = Some (True, m2)" "tab_ok k i (vs @ [v]) m2"
    "tmp m2 = tmp m" "touch k i m m2" "tiny_pages (tracks m2 i) k = 0"
proof -
  from s p obtain x x1 n' where x: "idx_inv (cache_size k) vs (x, 0, n')"
    "idx_store (cache_size k) v x = Some x1" "tabs m k i = x1\<lparr>cached := cached x1 + 1\<rparr>"
    "table_size (tracks m i) k = n' + 1" by (auto simp: stored_def)
  have c: "cached x = length vs" "n' = length vs" using x(1) by (auto simp: idx_inv_def)
  have c1: "cached x1 = cached x" using x(2) by (auto simp: idx_store_def split: if_splits)
  let ?x2 = "idx_wrap (cache_size k) (tabs m k i)"
  have c2: "cached ?x2 = length vs + 1" using x(3) c c1 by (simp add: idx_wrap_def)
  have sp: "idx_spill (cache_size k) f q t ?x2 = Some (True, False, t, ?x2)" for f q t
    using c2 n by (simp add: idx_spill_def)
  have io: "io_ok \<lparr>tmp_fd = [], tmp_io = []\<rparr>" by (simp add: io_ok_def)
  have "idx_inv (cache_size k) (vs @ [v]) (?x2, 0, n' + 1)"
    using idx_push_ok [OF x(1) io _ page_dvd_cache_size, of "(k, 0)" v] x(2,3) sp
    by (cases k) (auto simp: idx_push_def)
  moreover have "touch k i m (set_tab k i ?x2 m)"
    by (rule touchI [where x = ?x2 and n = "table_size (tracks m i) k"
          and p = "tiny_pages (tracks m i) k" and t = "tmp m"])
      (simp add: upd_track_def set_tab_def)
  ultimately show thesis
    by (intro that [of "set_tab k i ?x2 m"])
      (use x(4) p sp in \<open>simp_all add: mov_settle_def Let_def tab_ok_def set_tab_def\<close>)
qed

section \<open>Chunks\<close>

text \<open>A chunk: its stream, its offset in the file, its samples.\<close>

type_synonym chunk = "nat \<times> nat \<times> byte list list"

definition c_stream :: "chunk \<Rightarrow> nat" where "c_stream c = fst c"
definition c_offset :: "chunk \<Rightarrow> nat" where "c_offset c = fst (snd c)"
definition c_samples :: "chunk \<Rightarrow> byte list list" where "c_samples c = snd (snd c)"

lemma c_simps [simp]: "c_stream (i, o', ss) = i" "c_offset (i, o', ss) = o'" "c_samples (i, o', ss) = ss"
  by (simp_all add: c_stream_def c_offset_def c_samples_def)

definition add_sample :: "nat \<Rightarrow> byte list \<Rightarrow> nat \<Rightarrow> chunk list \<Rightarrow> chunk list" where
  "add_sample i b pos cs =
     (if cs \<noteq> [] \<and> c_stream (last cs) = i
      then butlast cs @ [(i, c_offset (last cs), c_samples (last cs) @ [b])]
      else cs @ [(i, pos, [b])])"

definition media :: "chunk list \<Rightarrow> byte list" where
  "media cs = concat (map (concat \<circ> c_samples) cs)"

fun placed :: "nat \<Rightarrow> chunk list \<Rightarrow> bool" where
  "placed p [] = True"
| "placed p (c # cs) \<longleftrightarrow> c_offset c = p \<and> c_samples c \<noteq> [] \<and> placed (p + length (concat (c_samples c))) cs"

definition of_stream :: "nat \<Rightarrow> chunk list \<Rightarrow> chunk list" where
  "of_stream i cs = filter (\<lambda>c. c_stream c = i) cs"

definition offsets :: "chunk list \<Rightarrow> u32 list" where
  "offsets cs = map (of_nat \<circ> c_offset) cs"

definition counts :: "chunk list \<Rightarrow> u32 list" where
  "counts cs = map (of_nat \<circ> length \<circ> c_samples) cs"

definition samples :: "chunk list \<Rightarrow> byte list list" where
  "samples cs = concat (map c_samples cs)"

definition sizes :: "chunk list \<Rightarrow> u32 list" where
  "sizes cs = map (of_nat \<circ> length) (samples cs)"

lemma chunk_simps [simp]:
  "of_stream i [] = []" "of_stream i (c # cs) = (if c_stream c = i then c # of_stream i cs else of_stream i cs)"
  "of_stream i (cs @ ds) = of_stream i cs @ of_stream i ds"
  "offsets [] = []" "offsets (c # cs) = of_nat (c_offset c) # offsets cs" "offsets (cs @ ds) = offsets cs @ offsets ds"
  "counts [] = []" "counts (c # cs) = of_nat (length (c_samples c)) # counts cs" "counts (cs @ ds) = counts cs @ counts ds"
  "samples [] = []" "samples (c # cs) = c_samples c @ samples cs" "samples (cs @ ds) = samples cs @ samples ds"
  "sizes [] = []" "sizes (c # cs) = map (of_nat \<circ> length) (c_samples c) @ sizes cs" "sizes (cs @ ds) = sizes cs @ sizes ds"
  "media [] = []" "media (c # cs) = concat (c_samples c) @ media cs" "media (cs @ ds) = media cs @ media ds"
  by (simp_all add: of_stream_def offsets_def counts_def samples_def sizes_def media_def)

lemma placed_append [simp]: "placed p (cs @ ds) \<longleftrightarrow> placed p cs \<and> placed (p + length (media cs)) ds"
  by (induction cs arbitrary: p) (auto simp: add.assoc)

lemma last_chunk:
  assumes "cs \<noteq> []"
  obtains ds i p ss where "cs = ds @ [(i, p, ss)]"
  using assms by (metis append_butlast_last_id prod_cases3)

text \<open>The chunk offset is the end of the media data, so the media data grows by the sample.\<close>

lemma add_sample_same: "add_sample i b pos (ds @ [(i, p, ss)]) = ds @ [(i, p, ss @ [b])]"
  by (simp add: add_sample_def)

lemma add_sample_new: "cs = [] \<or> c_stream (last cs) \<noteq> i \<Longrightarrow> add_sample i b pos cs = cs @ [(i, pos, [b])]"
  by (auto simp: add_sample_def)

lemma add_sample_media [simp]: "media (add_sample i b pos cs) = media cs @ b"
proof (cases "cs \<noteq> [] \<and> c_stream (last cs) = i")
  case True
  then obtain ds p ss where "cs = ds @ [(i, p, ss)]" by (metis last_chunk last_snoc c_simps(1))
  then show ?thesis by (simp add: add_sample_same)
qed (auto simp: add_sample_new)

lemma add_sample_samples [simp]:
  "samples (of_stream j (add_sample i b pos cs)) = samples (of_stream j cs) @ (if j = i then [b] else [])"
proof (cases "cs \<noteq> [] \<and> c_stream (last cs) = i")
  case True
  then obtain ds p ss where "cs = ds @ [(i, p, ss)]" by (metis last_chunk last_snoc c_simps(1))
  then show ?thesis by (simp add: add_sample_same)
qed (auto simp: add_sample_new)

lemma add_sample_placed:
  assumes "placed base cs" "pos = base + length (media cs)"
  shows "placed base (add_sample i b pos cs)"
proof (cases "cs \<noteq> [] \<and> c_stream (last cs) = i")
  case True
  then obtain ds p ss where "cs = ds @ [(i, p, ss)]" by (metis last_chunk last_snoc c_simps(1))
  then show ?thesis using assms by (simp add: add_sample_same)
qed (use assms in \<open>auto simp: add_sample_new\<close>)

section \<open>What the muxer knows of the chunks\<close>

definition closed :: "nat \<Rightarrow> chunk list \<Rightarrow> chunk list" where
  "closed i cs = of_stream i (butlast cs)"

text \<open>The tables, with the counters of the chunk that is open.\<close>

definition tables :: "MOVContext \<Rightarrow> chunk list \<Rightarrow> bool" where
  "tables m cs \<longleftrightarrow>
     (\<forall>i < 2. tab_ok STCO_ID i (offsets (of_stream i cs)) m \<and>
              tab_ok STSC_ID i (counts (closed i cs)) m \<and>
              tiny_pages (tracks m i) STSC_ID = 0) \<and>
     io_ok (tmp m) \<and>
     last_stream_index m = (if cs = [] then None else Some (c_stream (last cs))) \<and>
     (cs \<noteq> [] \<longrightarrow> stsc_cnt m = length (c_samples (last cs))) \<and>
     (\<forall>c \<in> set cs. c_stream c < 2)"

definition size_tables :: "MOVContext \<Rightarrow> chunk list \<Rightarrow> bool" where
  "size_tables m cs \<longleftrightarrow> (\<forall>i < 2. tab_ok STSZ_ID i (sizes (of_stream i cs)) m)"

definition time_table :: "MOVContext \<Rightarrow> chunk list \<Rightarrow> bool" where
  "time_table m cs \<longleftrightarrow> (\<exists>ds. tab_ok STTS_ID 0 ds m \<and> length ds = length (samples (of_stream 0 cs)))"

definition rec_inv :: "MOVContext \<Rightarrow> chunk list \<Rightarrow> bool" where
  "rec_inv m cs \<longleftrightarrow> tables m cs \<and> size_tables m cs \<and> time_table m cs \<and>
     mdat_size m = length (media cs) \<and> placed (mdat_start_pos m) cs"

lemma upd_simps [simp]:
  "tab_ok k i vs (m\<lparr>stsc_cnt := a\<rparr>) = tab_ok k i vs m" "stored k i vs v (m\<lparr>stsc_cnt := a\<rparr>) = stored k i vs v m"
  "tab_ok k i vs (m\<lparr>last_stream_index := b\<rparr>) = tab_ok k i vs m"
  "stored k i vs v (m\<lparr>last_stream_index := b\<rparr>) = stored k i vs v m"
  "tab_ok k i vs (m\<lparr>mdat_size := c\<rparr>) = tab_ok k i vs m"
  "tab_ok k i vs (m\<lparr>keyframe_num := d\<rparr>) = tab_ok k i vs m"
  "tab_ok k i vs (m\<lparr>cache_keyframe := e\<rparr>) = tab_ok k i vs m"
  "frozen (m\<lparr>stsc_cnt := a\<rparr>) = frozen m" "frozen (m\<lparr>last_stream_index := b\<rparr>) = frozen m"
  "frozen (m\<lparr>mdat_size := c\<rparr>) = frozen m" "frozen (m\<lparr>keyframe_num := d\<rparr>) = frozen m"
  "frozen (m\<lparr>cache_keyframe := e\<rparr>) = frozen m"
  by (simp_all add: tab_ok_def stored_def frozen_def)

definition start_chunk :: "nat \<Rightarrow> nat \<Rightarrow> chunk list \<Rightarrow> chunk list" where
  "start_chunk i pos cs = (if cs \<noteq> [] \<and> c_stream (last cs) = i then cs else cs @ [(i, pos, [])])"

lemma length_closed: "cs \<noteq> [] \<Longrightarrow> length (counts (closed i cs)) < length cs"
proof -
  assume "cs \<noteq> []"
  moreover have "length (of_stream i (butlast cs)) \<le> length (butlast cs)"
    unfolding of_stream_def by (rule length_filter_le)
  ultimately show ?thesis by (cases cs rule: rev_cases) (simp_all add: counts_def closed_def)
qed

lemma closed_snoc: "cs \<noteq> [] \<Longrightarrow>
  closed j (cs @ [c]) = (if j = c_stream (last cs) then closed j cs @ [last cs] else closed j cs)"
  by (cases cs rule: rev_cases) (auto simp: closed_def butlast_append)

lemma open_chunk_ok:
  assumes inv: "tables m cs" and i: "i < 2" and n: "length cs < cache_size STSC_ID"
    and pos: "pos = mdat_size m + mdat_start_pos m"
  obtains m1 where "open_chunk i m = Some (True, m1)"
    "tables (m1\<lparr>last_stream_index := Some i\<rparr>) (start_chunk i pos cs)"
    "frozen m1 = frozen m" "mdat_size m1 = mdat_size m"
    "\<And>j. keyFrame_num (tracks m1 j) = keyFrame_num (tracks m j)"
    "\<And>k j vs. k = STSZ_ID \<or> k = STTS_ID \<Longrightarrow> tab_ok k j vs m1 = tab_ok k j vs m"
proof (cases "cs \<noteq> [] \<and> c_stream (last cs) = i")
  case True
  then have "last_stream_index m = Some i" using inv by (simp add: tables_def)
  moreover have "tables (m\<lparr>last_stream_index := Some i\<rparr>) cs" using True inv by (simp add: tables_def)
  ultimately show thesis
    using True inv by (intro that [of m]) (simp_all add: open_chunk_def start_chunk_def)
next
  case new: False
  have last: "last_stream_index m \<noteq> Some i" using new inv by (auto simp: tables_def)
  have t: "tab_ok STCO_ID j (offsets (of_stream j cs)) m" "tab_ok STSC_ID j (counts (closed j cs)) m"
    "tiny_pages (tracks m j) STSC_ID = 0" if "j < 2" for j
    using inv that by (auto simp: tables_def)
  have io: "io_ok (tmp m)" using inv by (simp add: tables_def)
  from store_ok [OF t(1) [OF i], of "of_nat pos"] obtain ma where
    a: "mov_store STCO_ID i (of_nat pos) m = Some ma"
      "stored STCO_ID i (offsets (of_stream i cs)) (of_nat pos) ma" "touch STCO_ID i m ma" "tmp ma = tmp m" by blast
  obtain mc where c: "(case last_stream_index ma of
            None \<Rightarrow> Some (True, ma)
          | Some l \<Rightarrow> do {
              m2 \<leftarrow> mov_store STSC_ID l (of_nat (stsc_cnt ma)) ma;
              mov_settle STSC_ID l i m2
            }) = Some (True, mc)"
      "stored STCO_ID i (offsets (of_stream i cs)) (of_nat pos) mc" "tmp mc = tmp m"
      "\<And>j. j < 2 \<Longrightarrow> tab_ok STSC_ID j (counts (closed j (cs @ [(i, pos, [])]))) mc"
      "\<And>j. tiny_pages (tracks mc j) STSC_ID = tiny_pages (tracks m j) STSC_ID"
      "frozen mc = frozen m" "mdat_size mc = mdat_size m"
      "\<And>j. keyFrame_num (tracks mc j) = keyFrame_num (tracks m j)"
      "\<And>k j vs. k = STSZ_ID \<or> k = STTS_ID \<or> k = STCO_ID \<and> j \<noteq> i \<Longrightarrow> tab_ok k j vs mc = tab_ok k j vs m"
  proof (cases "cs = []")
    case True
    then have "last_stream_index ma = None" using inv touch_sel(4) [OF a(3)] by (simp add: tables_def)
    then show thesis
      using True a t by (intro that [of ma])
        (auto simp: touch_sel [OF a(3)] touch_tab_ok [OF a(3)] touch_frozen [OF a(3)] touch_pages [OF a(3)] closed_def)
  next
    case False
    define l where "l = c_stream (last cs)"
    have l: "last_stream_index ma = Some l" "stsc_cnt ma = length (c_samples (last cs))" "l < 2"
      using inv touch_sel(1,4) [OF a(3)] False by (auto simp: tables_def l_def)
    have tl: "tab_ok STSC_ID l (counts (closed l cs)) ma" using t(2) [OF l(3)] touch_tab_ok [OF a(3)] by simp
    from store_ok [OF tl, of "of_nat (stsc_cnt ma)"] obtain mb where
      b: "mov_store STSC_ID l (of_nat (stsc_cnt ma)) ma = Some mb"
        "stored STSC_ID l (counts (closed l cs)) (of_nat (stsc_cnt ma)) mb" "touch STSC_ID l ma mb"
        "tmp mb = tmp ma" "tiny_pages (tracks mb l) STSC_ID = tiny_pages (tracks ma l) STSC_ID" by blast
    have "tiny_pages (tracks mb l) STSC_ID = 0"
      using b(5) touch_pages [OF a(3)] t(3) [OF l(3)] by simp
    moreover have "length (counts (closed l cs)) + 1 < cache_size STSC_ID"
      using length_closed [OF False, of l] n by linarith
    ultimately obtain mc where
      c: "mov_settle STSC_ID l i mb = Some (True, mc)"
        "tab_ok STSC_ID l (counts (closed l cs) @ [of_nat (stsc_cnt ma)]) mc" "tmp mc = tmp mb"
        "touch STSC_ID l mb mc" "tiny_pages (tracks mc l) STSC_ID = 0"
      using settle_not_full [OF b(2), of i] by blast
    note tabs = touch_tab_ok [OF c(4)] touch_tab_ok [OF b(3)] touch_tab_ok [OF a(3)]
    show thesis
    proof (rule that [of mc])
      show "tab_ok STSC_ID j (counts (closed j (cs @ [(i, pos, [])]))) mc" if "j < 2" for j
        using c(2) l(2) t(2) [OF that] False
        by (cases "j = l") (simp_all add: closed_snoc l_def [symmetric] tabs)
      show "tiny_pages (tracks mc j) STSC_ID = tiny_pages (tracks m j) STSC_ID" for j
        using c(5) t(3) [OF l(3)]
        by (cases "j = l") (simp_all add: touch_pages [OF c(4)] touch_pages [OF b(3)] touch_pages [OF a(3)])
      show "stored STCO_ID i (offsets (of_stream i cs)) (of_nat pos) mc"
        using a(2) by (simp add: touch_stored [OF c(4)] touch_stored [OF b(3)])
    qed (use l b c a in \<open>auto simp: tabs touch_frozen [OF c(4)] touch_frozen [OF b(3)] touch_frozen [OF a(3)]
        touch_sel [OF c(4)] touch_sel [OF b(3)] touch_sel [OF a(3)]\<close>)
  qed
  let ?md = "mc\<lparr>stsc_cnt := 0\<rparr>"
  have "stored STCO_ID i (offsets (of_stream i cs)) (of_nat pos) ?md" "io_ok (tmp ?md)"
    using c(2,3) io by simp_all
  from settle_ok [OF this i] obtain me where
    e: "mov_settle STCO_ID i i ?md = Some (True, me)"
      "tab_ok STCO_ID i (offsets (of_stream i cs) @ [of_nat pos]) me" "io_ok (tmp me)" "touch STCO_ID i ?md me" .
  show thesis
  proof (rule that [of me])
    show "open_chunk i m = Some (True, me)"
      using last a(1) c(1) e(1) by (simp add: open_chunk_def pos)
    have "tab_ok STCO_ID j (offsets (of_stream j (cs @ [(i, pos, [])]))) me" if "j < 2" for j
      using e(2) t(1) [OF that] c(9) [of STCO_ID j] by (cases "j = i") (simp_all add: touch_tab_ok [OF e(4)])
    moreover have "start_chunk i pos cs = cs @ [(i, pos, [])]" using new by (auto simp: start_chunk_def)
    ultimately show "tables (me\<lparr>last_stream_index := Some i\<rparr>) (start_chunk i pos cs)"
      using e(3) c(4,5) t(3) inv i
      by (auto simp: tables_def touch_tab_ok [OF e(4)] touch_pages [OF e(4)] touch_sel [OF e(4)])
  qed (use c in \<open>simp_all add: touch_frozen [OF e(4)] touch_sel [OF e(4)], auto simp: touch_tab_ok [OF e(4)]\<close>)
qed

section \<open>A packet\<close>

lemma touch_trans: "touch k i m m' \<Longrightarrow> touch k i m' m'' \<Longrightarrow> touch k i m m''"
  by (elim touchE) (auto simp: upd_track_def set_tab_def intro!: touchI)

lemma touch_stsc_cnt:
  assumes "touch k i m m'" shows "touch k i (m\<lparr>stsc_cnt := a\<rparr>) (m'\<lparr>stsc_cnt := a\<rparr>)"
proof -
  from assms obtain x n p t where "m' = (upd_track i
        (\<lambda>t. t\<lparr>table_size := (table_size t)(k := n), tiny_pages := (tiny_pages t)(k := p)\<rparr>)
        (set_tab k i x m))\<lparr>tmp := t\<rparr>" by (rule touchE)
  then show ?thesis
    by (intro touchI [where x = x and n = n and p = p and t = t]) (simp add: upd_track_def set_tab_def)
qed

lemma add_size_ok:
  assumes "tab_ok STSZ_ID i vs m" "io_ok (tmp m)" "i < 2" "codec_id (enc (tracks m i)) \<noteq> CODEC_ID_PCM"
  obtains m1 where "add_size i sz m = Some (True, m1)" "tab_ok STSZ_ID i (vs @ [of_nat sz]) m1"
    "io_ok (tmp m1)" "touch STSZ_ID i (m\<lparr>stsc_cnt := stsc_cnt m + 1\<rparr>) m1"
proof -
  from store_ok [OF assms(1), of "of_nat sz"] obtain ma where
    a: "mov_store STSZ_ID i (of_nat sz) m = Some ma" "stored STSZ_ID i vs (of_nat sz) ma"
      "touch STSZ_ID i m ma" "tmp ma = tmp m" by blast
  let ?mb = "ma\<lparr>stsc_cnt := stsc_cnt ma + 1\<rparr>"
  have "stored STSZ_ID i vs (of_nat sz) ?mb" "io_ok (tmp ?mb)" using a(2,4) assms(2) by simp_all
  from settle_ok [OF this assms(3)] obtain mc where
    c: "mov_settle STSZ_ID i i ?mb = Some (True, mc)" "tab_ok STSZ_ID i (vs @ [of_nat sz]) mc"
      "io_ok (tmp mc)" "touch STSZ_ID i ?mb mc" .
  have "touch STSZ_ID i (m\<lparr>stsc_cnt := stsc_cnt m + 1\<rparr>) mc"
    using touch_trans [OF touch_stsc_cnt [OF a(3), of "stsc_cnt m + 1"]] c(4) touch_sel(1) [OF a(3)] by simp
  then show thesis
    by (intro that [of mc]) (use a(1) c assms(4) in \<open>simp_all add: add_size_def\<close>)
qed

text \<open>Only the table of key frames may have changed.\<close>

definition keys_only :: "MOVContext \<Rightarrow> MOVContext \<Rightarrow> bool" where
  "keys_only m m' \<longleftrightarrow>
     (\<exists>n f k. m' = (upd_track 0 (\<lambda>t. t\<lparr>keyFrame_num := n\<rparr>) m)\<lparr>cache_keyframe := f, keyframe_num := k\<rparr>)"

lemma keys_onlyE:
  assumes "keys_only m m'"
  obtains n f k where
    "m' = (upd_track 0 (\<lambda>t. t\<lparr>keyFrame_num := n\<rparr>) m)\<lparr>cache_keyframe := f, keyframe_num := k\<rparr>"
  using assms by (auto simp: keys_only_def)

lemma keys_onlyI:
  "m' = (upd_track 0 (\<lambda>t. t\<lparr>keyFrame_num := n\<rparr>) m)\<lparr>cache_keyframe := f, keyframe_num := k\<rparr> \<Longrightarrow> keys_only m m'"
  by (auto simp: keys_only_def)

lemma keys_only_same:
  "keys_only m m' \<Longrightarrow> tab_ok k i vs m' = tab_ok k i vs m"
  "keys_only m m' \<Longrightarrow> frozen m' = frozen m"
  "keys_only m m' \<Longrightarrow> tmp m' = tmp m" "keys_only m m' \<Longrightarrow> mdat_size m' = mdat_size m"
  "keys_only m m' \<Longrightarrow> stsc_cnt m' = stsc_cnt m" "keys_only m m' \<Longrightarrow> last_stream_index m' = last_stream_index m"
  "keys_only m m' \<Longrightarrow> tiny_pages (tracks m' i) k = tiny_pages (tracks m i) k"
  by (elim keys_onlyE, simp add: tab_ok_def frozen_def upd_track_def fun_eq_iff)+

lemma keys_only_refl: "keys_only m m"
  by (rule keys_onlyI [where n = "keyFrame_num (tracks m 0)" and f = "cache_keyframe m" and k = "keyframe_num m"])
    (simp add: upd_track_def)

lemma mark_keyframe_ok:
  assumes "keyFrame_num (tracks m 0) < KEYFRAME_CACHE_SIZE div 4"
  obtains m1 where "mark_keyframe 0 m = Some m1" "keys_only m m1"
    "keyFrame_num (tracks m1 0) = keyFrame_num (tracks m 0) + 1" "keyframe_num m1 = keyframe_num m"
proof -
  let ?m1 = "upd_track 0 (\<lambda>t. t\<lparr>keyFrame_num := keyFrame_num (tracks m 0) + 1\<rparr>)
    (m\<lparr>cache_keyframe := (cache_keyframe m)(keyFrame_num (tracks m 0) := of_nat (table_size (tracks m 0) STTS_ID))\<rparr>)"
  have "keys_only m ?m1"
    by (rule keys_onlyI [where n = "keyFrame_num (tracks m 0) + 1" and k = "keyframe_num m"
          and f = "(cache_keyframe m)(keyFrame_num (tracks m 0) := of_nat (table_size (tracks m 0) STTS_ID))"])
      (simp add: upd_track_def)
  then show thesis
    by (rule that [rotated]) (use assms in \<open>simp_all add: mark_keyframe_def Let_def upd_track_def\<close>)
qed

text \<open>May a packet be entered as a key frame? (Of Motion JPEG, every 25th is.)\<close>

definition may_key :: "CodecID \<Rightarrow> AVPacket \<Rightarrow> bool" where
  "may_key c pkt =
     (case c of
        CODEC_ID_H264 \<Rightarrow> (case tmpStrmByte pkt of Some (Some b) \<Rightarrow> and b 0x1f = 5 | _ \<Rightarrow> True)
      | CODEC_ID_H265 \<Rightarrow> and (flags pkt) AVPACKET_FLAG_KEYFRAME \<noteq> 0
      | CODEC_ID_MPEG4 \<Rightarrow> (case tmpStrmByte pkt of Some (Some b) \<Rightarrow> drop_bit 6 b = 0 | _ \<Rightarrow> True)
      | _ \<Rightarrow> True)"

definition video_codec :: "CodecID \<Rightarrow> bool" where
  "video_codec c \<longleftrightarrow> c \<in> {CODEC_ID_H264, CODEC_ID_H265, CODEC_ID_MPEG4, CODEC_ID_MJPEG}"

lemma keys_only_keyframe_num: "keys_only m (m1\<lparr>keyframe_num := k\<rparr>)" if "keys_only m m1"
  using that by (elim keys_onlyE) (auto intro!: keys_onlyI)

lemma key_frames_ok:
  assumes c: "video_codec (codec_id (enc (tracks m 0)))" and b: "tmpStrmByte pkt = Some (Some b)"
    and k: "may_key (codec_id (enc (tracks m 0))) pkt \<Longrightarrow> keyFrame_num (tracks m 0) < KEYFRAME_CACHE_SIZE div 4"
  shows "\<exists>m1. key_frames 0 pkt m = Some (True, m1) \<and> keys_only m m1 \<and>
    keyFrame_num (tracks m1 0) \<le> keyFrame_num (tracks m 0) +
       (if may_key (codec_id (enc (tracks m 0))) pkt then 1 else 0)"
proof (cases "keyFrame_num (tracks m 0) < KEYFRAME_CACHE_SIZE div 4")
  case True
  from mark_keyframe_ok [OF True] obtain m1 where m1: "mark_keyframe 0 m = Some m1" "keys_only m m1"
    "keyFrame_num (tracks m1 0) = keyFrame_num (tracks m 0) + 1" "keyframe_num m1 = keyframe_num m" .
  have r: "keys_only m (m1\<lparr>keyframe_num := x\<rparr>)" "keys_only m (m\<lparr>keyframe_num := x\<rparr>)" "keys_only m m" for x
    by (rule keys_only_keyframe_num keys_only_refl m1(2))+
  consider "codec_id (enc (tracks m 0)) = CODEC_ID_H264" | "codec_id (enc (tracks m 0)) = CODEC_ID_H265"
    | "codec_id (enc (tracks m 0)) = CODEC_ID_MPEG4" | "codec_id (enc (tracks m 0)) = CODEC_ID_MJPEG"
    using c by (auto simp: video_codec_def)
  then show ?thesis
    by cases (simp_all add: key_frames_def may_key_def b m1 r Let_def)
next
  case False
  then have "\<not> may_key (codec_id (enc (tracks m 0))) pkt" using k by blast
  then show ?thesis
    using c b keys_only_refl [of m]
    by (cases "codec_id (enc (tracks m 0))") (auto simp: key_frames_def video_codec_def may_key_def)
qed

text \<open>The bytes a packet puts into the media data.\<close>

definition start_coded :: "CodecID \<Rightarrow> bool" where
  "start_coded c \<longleftrightarrow> c = CODEC_ID_H264 \<or> c = CODEC_ID_H265"

definition sample_of :: "CodecID \<Rightarrow> AVPacket \<Rightarrow> byte list" where
  "sample_of c pkt =
     (let d = data0 pkt @ data1 pkt
      in (if stream_index pkt = 0 \<and> start_coded c
          then be32 (of_nat (length d - 4)) @ drop 4 d else d) @
         (if c = CODEC_ID_MJPEG then [0xff, 0xd9] else []))"

text \<open>A video packet has a byte behind its start code, and a first part.\<close>

definition packet_ok :: "AVPacket \<Rightarrow> bool" where
  "packet_ok pkt \<longleftrightarrow> stream_index pkt < 2 \<and>
     (stream_index pkt = 0 \<longrightarrow> data0 pkt \<noteq> [] \<and> 5 \<le> length (data0 pkt) + length (data1 pkt))"

lemma packet_data_plain:
  "\<exists>c. packet_data False n pkt = Some c \<and> concat c = data0 pkt @ data1 pkt"
  by (auto simp: packet_data_def Let_def calls_simps)

lemma packet_data_special:
  assumes "data0 pkt \<noteq> []" "5 \<le> length (data0 pkt) + length (data1 pkt)"
  shows "\<exists>c. packet_data True (length (data0 pkt) + length (data1 pkt)) pkt = Some c \<and>
    concat c = be32 (of_nat (length (data0 pkt) + length (data1 pkt) - 4)) @ drop 4 (data0 pkt @ data1 pkt)"
proof -
  have "(of_nat (length (data0 pkt) + length (data1 pkt)) - 4 :: u32) =
      of_nat (length (data0 pkt) + length (data1 pkt) - 4)"
    using assms(2) by (simp add: of_nat_diff)
  then show ?thesis
    using assms by (auto simp: packet_data_def Let_def calls_simps le_bytes32_bswap32)
qed

lemma length_sample_of:
  "packet_ok pkt \<Longrightarrow> length (sample_of c pkt) =
     length (data0 pkt) + length (data1 pkt) + (if c = CODEC_ID_MJPEG then 2 else 0)"
  by (auto simp: sample_of_def packet_ok_def start_coded_def Let_def)

lemma tmpStrmByte_Some:
  assumes "packet_ok pkt" "stream_index pkt = 0"
  obtains b where "tmpStrmByte pkt = Some (Some b)"
proof -
  have "data0 pkt \<noteq> []" "5 \<le> length (data0 pkt) + length (data1 pkt)"
    using assms by (auto simp: packet_ok_def)
  then have "length (data0 pkt) \<ge> 5 \<or> length (data0 pkt) > 0 \<and> 4 - length (data0 pkt) < length (data1 pkt)"
    by (auto simp: neq_Nil_conv)
  then show thesis using that by (cases "length (data0 pkt) \<ge> 5") (auto simp: tmpStrmByte_def)
qed

definition codecs_ok :: "MOVContext \<Rightarrow> bool" where
  "codecs_ok m \<longleftrightarrow> video_codec (codec_id (enc (tracks m 0))) \<and>
     codec_id (enc (tracks m 1)) \<notin> {CODEC_ID_PCM, CODEC_ID_MJPEG}"

text \<open>The state after the sizes have been entered.\<close>

lemma sized:
  assumes t: "tables m cs" and s: "size_tables m cs" and tt: "time_table m cs" and i: "i < 2"
    and cs: "cs \<noteq> []" "c_stream (last cs) = i" and codec: "codec_id (enc (tracks m i)) \<noteq> CODEC_ID_PCM"
    and b: "length b = n"
  defines "cs' \<equiv> butlast cs @ [(i, c_offset (last cs), c_samples (last cs) @ [b])]"
  obtains m1 where "add_size i n m = Some (True, m1)" "tables m1 cs'" "size_tables m1 cs'"
    "i \<noteq> 0 \<Longrightarrow> time_table m1 cs'"
    "\<And>ds. i = 0 \<Longrightarrow> tab_ok STTS_ID 0 ds m1 = tab_ok STTS_ID 0 ds m"
    "frozen m1 = frozen m" "mdat_size m1 = mdat_size m"
    "\<And>j. keyFrame_num (tracks m1 j) = keyFrame_num (tracks m j)"
proof -
  obtain ds p ss where c: "cs = ds @ [(i, p, ss)]"
    using last_chunk [OF cs(1)] cs(2) by (metis last_snoc c_simps(1))
  have cs': "cs' = ds @ [(i, p, ss @ [b])]" by (simp add: cs'_def c)
  have "tab_ok STSZ_ID i (sizes (of_stream i cs)) m" "io_ok (tmp m)"
    using s t i by (simp_all add: size_tables_def tables_def)
  from add_size_ok [OF this i codec, of n] obtain m1 where
    m1: "add_size i n m = Some (True, m1)" "tab_ok STSZ_ID i (sizes (of_stream i cs) @ [of_nat n]) m1"
      "io_ok (tmp m1)" "touch STSZ_ID i (m\<lparr>stsc_cnt := stsc_cnt m + 1\<rparr>) m1" .
  note eqs = touch_tab_ok [OF m1(4)] touch_frozen [OF m1(4)] touch_sel [OF m1(4)] touch_pages [OF m1(4)]
  show thesis
  proof (rule that [of m1])
    show "tables m1 cs'"
      using t m1(3) i by (auto simp: tables_def c cs' eqs closed_def offsets_def of_stream_def)
    show "size_tables m1 cs'"
      unfolding size_tables_def
    proof (intro allI impI)
      fix j :: nat assume "j < 2"
      then have "tab_ok STSZ_ID j (sizes (of_stream j cs)) m" using s by (simp add: size_tables_def)
      then show "tab_ok STSZ_ID j (sizes (of_stream j cs')) m1"
        using m1(2) b by (cases "j = i") (simp_all add: c cs' eqs)
    qed
    show "time_table m1 cs'" if "i \<noteq> 0" using tt that by (simp add: time_table_def c cs' eqs)
    show "tab_ok STTS_ID 0 ds m1 = tab_ok STTS_ID 0 ds m" for ds by (simp add: eqs)
  qed (use m1 in \<open>simp_all add: eqs\<close>)
qed

text \<open>A packet appends its sample to the media data and to the chunks.\<close>

lemma mov_packet_ok:
  assumes inv: "rec_inv m cs" and p: "packet_ok pkt" and c: "codecs_ok m" and n: "length cs < cache_size STSC_ID"
    and k: "stream_index pkt = 0 \<Longrightarrow> may_key (codec_id (enc (tracks m 0))) pkt \<Longrightarrow>
      keyFrame_num (tracks m 0) < KEYFRAME_CACHE_SIZE div 4"
  defines "i \<equiv> stream_index pkt" and "b \<equiv> sample_of (codec_id (enc (tracks m (stream_index pkt)))) pkt"
  shows "\<exists>m' c. mov_write_packet pkt m = Some (0, m', c) \<and> bytes_of c = b \<and> frozen m' = frozen m \<and>
    rec_inv m' (add_sample i b (mdat_start_pos m + length (media cs)) cs) \<and>
    keyFrame_num (tracks m' 0) \<le> keyFrame_num (tracks m 0) +
      (if i = 0 \<and> may_key (codec_id (enc (tracks m 0))) pkt then 1 else 0)"
proof -
  let ?codec = "codec_id (enc (tracks m i))"
  let ?sz = "length (data0 pkt) + length (data1 pkt) + (if ?codec = CODEC_ID_MJPEG then 2 else 0)"
  define pos where "pos = mdat_start_pos m + length (media cs)"
  have i: "i < 2" "i \<noteq> 2" "i < MAX_STREAMS" using p by (auto simp: i_def packet_ok_def MAX_STREAMS_def)
  have inv': "tables m cs" "size_tables m cs" "time_table m cs" "mdat_size m = length (media cs)"
    "placed (mdat_start_pos m) cs"
    using inv by (simp_all add: rec_inv_def)
  have lb: "length b = ?sz" using length_sample_of [OF p] by (simp add: b_def i_def)
  have codec: "?codec \<noteq> CODEC_ID_PCM" "i \<noteq> 0 \<Longrightarrow> ?codec \<noteq> CODEC_ID_MJPEG" "i = 0 \<Longrightarrow> video_codec ?codec"
    using c i by (auto simp: codecs_ok_def video_codec_def less_2_cases_iff)
  have "pos = mdat_size m + mdat_start_pos m" by (simp add: pos_def inv'(4))
  from open_chunk_ok [OF inv'(1) i(1) n this] obtain m1 where
    m1: "open_chunk i m = Some (True, m1)" "tables (m1\<lparr>last_stream_index := Some i\<rparr>) (start_chunk i pos cs)"
      "frozen m1 = frozen m" "mdat_size m1 = mdat_size m"
      "\<And>j. keyFrame_num (tracks m1 j) = keyFrame_num (tracks m j)"
      "\<And>k j vs. k = STSZ_ID \<or> k = STTS_ID \<Longrightarrow> tab_ok k j vs m1 = tab_ok k j vs m" by blast
  define m2 where "m2 = m1\<lparr>last_stream_index := Some i\<rparr>"
  let ?cs = "start_chunk i pos cs"
  have cs1: "?cs \<noteq> []" "c_stream (last ?cs) = i" by (auto simp: start_chunk_def)
  have sm: "sizes (of_stream j ?cs) = sizes (of_stream j cs)" "samples (of_stream j ?cs) = samples (of_stream j cs)" for j
    by (simp_all add: start_chunk_def)
  have m2: "tables m2 ?cs" "size_tables m2 ?cs" "time_table m2 ?cs" "frozen m2 = frozen m"
    using m1(2,3,6) inv'(2,3) by (simp_all add: m2_def size_tables_def time_table_def sm)
  note fz = frozen_eq_dest [OF m2(4)]
  have c2: "codec_id (enc (tracks m2 i)) \<noteq> CODEC_ID_PCM" using codec(1) by (simp add: fz)
  define cs' where "cs' = butlast ?cs @ [(i, c_offset (last ?cs), c_samples (last ?cs) @ [b])]"
  have add: "cs' = add_sample i b pos cs" by (auto simp: cs'_def add_sample_def start_chunk_def)
  from sized [OF m2(1-3) i(1) cs1 c2 lb] obtain m3 where
    m3: "add_size i ?sz m2 = Some (True, m3)" "tables m3 cs'" "size_tables m3 cs'"
      "i \<noteq> 0 \<Longrightarrow> time_table m3 cs'" "\<And>ds. i = 0 \<Longrightarrow> tab_ok STTS_ID 0 ds m3 = tab_ok STTS_ID 0 ds m2"
      "frozen m3 = frozen m2" "mdat_size m3 = mdat_size m2"
      "\<And>j. keyFrame_num (tracks m3 j) = keyFrame_num (tracks m2 j)"
    unfolding cs'_def by blast
  have "\<exists>m4. (if i = 0 then video_packet pkt m3 else Some (True, m3)) = Some (True, m4) \<and>
      tables m4 cs' \<and> size_tables m4 cs' \<and> time_table m4 cs' \<and> frozen m4 = frozen m3 \<and>
      mdat_size m4 = mdat_size m3 \<and>
      keyFrame_num (tracks m4 0) \<le> keyFrame_num (tracks m3 0) +
        (if i = 0 \<and> may_key (codec_id (enc (tracks m 0))) pkt then 1 else 0)"
  proof (cases "i = 0")
    case False
    then show ?thesis using m3(2-4) by simp
  next
    case True
    from m2(3) obtain ds where ds: "tab_ok STTS_ID 0 ds m3" "length ds = length (samples (of_stream 0 cs))"
      using m3(5) [OF True] by (auto simp: time_table_def sm)
    from store_ok [OF ds(1), of "duration pkt"] obtain ma where
      a: "mov_store STTS_ID 0 (duration pkt) m3 = Some ma" "stored STTS_ID 0 ds (duration pkt) ma"
        "touch STTS_ID 0 m3 ma" "tmp ma = tmp m3" by blast
    have "io_ok (tmp ma)" using a(4) m3(2) by (simp add: tables_def)
    from settle_ok [OF a(2) this] obtain mb where
      b: "mov_settle STTS_ID 0 0 ma = Some (True, mb)" "tab_ok STTS_ID 0 (ds @ [duration pkt]) mb"
        "io_ok (tmp mb)" "touch STTS_ID 0 ma mb" by auto
    note t = touch_trans [OF a(3) b(4)]
    note eqs = touch_tab_ok [OF t] touch_frozen [OF t] touch_sel [OF t] touch_pages [OF t]
    have e: "enc (tracks mb 0) = enc (tracks m 0)" using frozen_eq_dest(1) m3(6) m2(4) eqs by metis
    obtain y where "tmpStrmByte pkt = Some (Some y)" using tmpStrmByte_Some [OF p] True by (auto simp: i_def)
    moreover have "video_codec (codec_id (enc (tracks mb 0)))" using codec(3) True by (simp add: e)
    moreover have "keyFrame_num (tracks mb 0) < KEYFRAME_CACHE_SIZE div 4"
      if "may_key (codec_id (enc (tracks mb 0))) pkt"
    proof -
      have "may_key (codec_id (enc (tracks m 0))) pkt" using that by (simp only: e)
      then show ?thesis using k True m1(5) by (simp add: eqs m3(8) m2_def i_def)
    qed
    ultimately obtain m4 where m4: "key_frames 0 pkt mb = Some (True, m4)" "keys_only mb m4"
      "keyFrame_num (tracks m4 0) \<le> keyFrame_num (tracks mb 0) +
         (if may_key (codec_id (enc (tracks mb 0))) pkt then 1 else 0)"
      using key_frames_ok by blast
    note ko = keys_only_same [OF m4(2)]
    have "video_packet pkt m3 = Some (True, m4)" using a(1) b(1) m4(1) by (simp add: video_packet_def)
    moreover have "time_table m4 cs'"
      using b(2) ds(2) True by (auto simp: time_table_def ko add intro!: exI [of _ "ds @ [duration pkt]"])
    moreover have "tables m4 cs'" "size_tables m4 cs'"
      using m3(2,3) b(3) by (simp_all add: tables_def size_tables_def ko eqs)
    ultimately show ?thesis using True m4(3) [unfolded e] by (auto simp: ko eqs)
  qed
  then obtain m4 where m4: "(if i = 0 then video_packet pkt m3 else Some (True, m3)) = Some (True, m4)"
      "tables m4 cs'" "size_tables m4 cs'" "time_table m4 cs'" "frozen m4 = frozen m3"
      "mdat_size m4 = mdat_size m3"
      "keyFrame_num (tracks m4 0) \<le> keyFrame_num (tracks m3 0) +
        (if i = 0 \<and> may_key (codec_id (enc (tracks m 0))) pkt then 1 else 0)" by blast
  let ?special = "i = 0 \<and> (?codec = CODEC_ID_H264 \<or> ?codec = CODEC_ID_H265) \<and> ?sz \<noteq> 0"
  have "\<exists>c. packet_data ?special ?sz pkt = Some c \<and>
      concat (c @ (if ?codec = CODEC_ID_MJPEG then put_buffer_cache [0xff, 0xd9] else [])) = b"
  proof (cases "i = 0 \<and> start_coded ?codec")
    case True
    then have "data0 pkt \<noteq> []" "5 \<le> length (data0 pkt) + length (data1 pkt)" "?special" "?codec \<noteq> CODEC_ID_MJPEG"
      using p by (auto simp: i_def packet_ok_def start_coded_def)
    with packet_data_special [of pkt] True show ?thesis by (auto simp: b_def sample_of_def i_def Let_def)
  next
    case False
    then have "\<not> ?special" by (auto simp: start_coded_def)
    with packet_data_plain [of ?sz pkt] False show ?thesis
      by (auto simp: b_def sample_of_def i_def Let_def calls_simps)
  qed
  then obtain c where c: "packet_data ?special ?sz pkt = Some c"
    "concat (c @ (if ?codec = CODEC_ID_MJPEG then put_buffer_cache [0xff, 0xd9] else [])) = b" by blast
  let ?m' = "m4\<lparr>mdat_size := mdat_size m4 + ?sz\<rparr>"
  have step: "mov_write_packet pkt m = Some (0, ?m', c @ (if ?codec = CODEC_ID_MJPEG then put_buffer_cache [0xff, 0xd9] else []))"
    using i m1(1) m3(1) m4(1) c(1) by (simp add: mov_write_packet_def Let_def i_def [symmetric] m2_def)
  have ms: "mdat_start_pos m4 = mdat_start_pos m"
    using frozen_eq_dest(8) m4(5) m3(6) m2(4) by metis
  have md: "mdat_size m4 = length (media cs)" using m4(6) m3(7) m1(4) inv'(4) by (simp add: m2_def)
  have "rec_inv ?m' cs'"
    unfolding rec_inv_def
  proof (intro conjI)
    show "tables ?m' cs'" "size_tables ?m' cs'" "time_table ?m' cs'"
      using m4(2-4) by (simp_all add: tables_def size_tables_def time_table_def)
    show "mdat_size ?m' = length (media cs')" using md lb by (simp add: add)
    show "placed (mdat_start_pos ?m') cs'"
      using add_sample_placed [OF inv'(5)] by (simp add: add ms pos_def)
  qed
  moreover have "frozen ?m' = frozen m" using m4(5) m3(6) m2(4) by simp
  moreover have "keyFrame_num (tracks ?m' 0) \<le> keyFrame_num (tracks m 0) +
      (if i = 0 \<and> may_key (codec_id (enc (tracks m 0))) pkt then 1 else 0)"
    using m4(7) m3(8) m1(5) by (simp add: m2_def)
  ultimately show ?thesis using step c(2) by (auto simp: add pos_def)
qed

end
