(* ===== verification/Avc.thy ===== *)
theory Avc
  imports ByteIO
begin

text \<open>
  The H.264 byte stream parser of the MP4 muxer (libmuxer/mp4_muxer/avc.c): the search for a
  start code, which looks at four bytes at a time, the conversion of a byte stream to units
  with a length in front, and the \<open>avcC\<close> record with its size computation.

  A pointer into the data is an index; \<open>al\<close> is the address of the data modulo 4, on which the
  first loop of the search depends. The search reads at an index \<open>i\<close> only when \<open>i\<close> is less
  than the end it is given. An operation has the value \<open>None\<close> when it would leave the buffer.
\<close>

section \<open>The search for a start code\<close>

definition is_code :: "byte list \<Rightarrow> nat \<Rightarrow> bool" where
  "is_code d p \<longleftrightarrow> d ! p = 0 \<and> d ! (p + 1) = 0 \<and> d ! (p + 2) = 1"

definition load32 :: "byte list \<Rightarrow> nat \<Rightarrow> u32" where
  "load32 d p = ucast (d ! p) + 2 ^ 8 * ucast (d ! (p + 1)) + 2 ^ 16 * ucast (d ! (p + 2)) +
     2 ^ 24 * ucast (d ! (p + 3))"

definition has_zero :: "u32 \<Rightarrow> bool" where
  "has_zero x \<longleftrightarrow> and (and (x - 0x01010101) (not x)) 0x80808080 \<noteq> 0"

text \<open>The loops over single bytes; \<open>Inr\<close> is the pointer at which the loop ends.\<close>

function byte_scan :: "byte list \<Rightarrow> nat \<Rightarrow> nat \<Rightarrow> nat + nat" where
  "byte_scan d p lim =
     (if p < lim then if is_code d p then Inl p else byte_scan d (p + 1) lim else Inr p)"
  by pat_completeness auto
termination by (relation "measure (\<lambda>(_, p, lim). lim - p)") auto

text \<open>The loop over words.\<close>

definition word_check :: "byte list \<Rightarrow> nat \<Rightarrow> nat option" where
  "word_check d p =
     (if has_zero (load32 d p) then
        if d ! (p + 1) = 0 \<and> d ! p = 0 \<and> d ! (p + 2) = 1 then Some p
        else if d ! (p + 1) = 0 \<and> d ! (p + 2) = 0 \<and> d ! (p + 3) = 1 then Some (p + 1)
        else if d ! (p + 3) = 0 \<and> d ! (p + 2) = 0 \<and> d ! (p + 4) = 1 then Some (p + 2)
        else if d ! (p + 3) = 0 \<and> d ! (p + 4) = 0 \<and> d ! (p + 5) = 1 then Some (p + 3)
        else None
      else None)"

function word_scan :: "byte list \<Rightarrow> nat \<Rightarrow> nat \<Rightarrow> nat + nat" where
  "word_scan d p lim =
     (if p < lim
      then (case word_check d p of Some q \<Rightarrow> Inl q | None \<Rightarrow> word_scan d (p + 4) lim)
      else Inr p)"
  by pat_completeness auto
termination by (relation "measure (\<lambda>(_, p, lim). lim - p)") auto

declare byte_scan.simps [simp del] word_scan.simps [simp del]

definition ff_avc_find_startcode_internal :: "nat \<Rightarrow> byte list \<Rightarrow> nat \<Rightarrow> nat \<Rightarrow> nat" where
  "ff_avc_find_startcode_internal al d p e =
     (let a = p + 4 - (al + p) mod 4
      in case byte_scan d p (min a (e - 3)) of
           Inl q \<Rightarrow> q
         | Inr p1 \<Rightarrow> (case word_scan d p1 (e - 6) of
              Inl q \<Rightarrow> q
            | Inr p2 \<Rightarrow> (case byte_scan d p2 (e - 3) of Inl q \<Rightarrow> q | Inr _ \<Rightarrow> e)))"

definition ff_avc_find_startcode :: "nat \<Rightarrow> byte list \<Rightarrow> nat \<Rightarrow> nat \<Rightarrow> nat" where
  "ff_avc_find_startcode al d p e =
     (let out = ff_avc_find_startcode_internal al d p e
      in if p < out \<and> out < e \<and> d ! (out - 1) = 0 then out - 1 else out)"

subsection \<open>The reference search\<close>

text \<open>The first start code that has a byte behind it, or the end.\<close>

function find_code :: "byte list \<Rightarrow> nat \<Rightarrow> nat \<Rightarrow> nat" where
  "find_code d p e =
     (if p + 3 < e then if is_code d p then p else find_code d (p + 1) e else e)"
  by pat_completeness auto
termination by (relation "measure (\<lambda>(_, p, e). e - p)") auto

declare find_code.simps [simp del]

text \<open>A word with a zero byte is seen by the test on whole words.\<close>

lemma bit_unat_odd: "bit (x :: u32) n \<longleftrightarrow> odd (unat x div 2 ^ n)"
  by (metis bit_iff_odd bit_unsigned_iff possible_bit_nat)

lemma odd_div: "h \<le> Y mod (2 * h) \<Longrightarrow> 0 < h \<Longrightarrow> odd (Y div (h :: nat))"
proof -
  assume h: "h \<le> Y mod (2 * h)" "0 < h"
  have "Y mod (2 * h) = h * (Y div h mod 2) + Y mod h" by (rule mod_mult2_eq [of Y h 2, simplified mult.commute [of h 2]])
  moreover have "Y mod h < h" using h(2) by simp
  ultimately have "Y div h mod 2 \<noteq> 0" using h(1) by (metis add.left_neutral mult_0_right not_less)
  then show ?thesis by presburger
qed

text \<open>Subtracting one from a zero byte sets its top bit, whatever is borrowed below it.\<close>

lemma borrow_top:
  fixes x :: u32
  assumes x: "unat x = X + 2 * h * Q" and c: "2 ^ 32 - unat c = D + 2 * h * R"
    and le: "h \<le> X + D" "X + D < 2 * h" and h: "2 * h dvd 2 ^ 32" "h = 2 ^ n"
  shows "bit (x - c) n"
proof -
  have "unat (x - c) = (unat x + (2 ^ 32 - unat c)) mod 2 ^ 32"
  proof (cases "c \<le> x")
    case True
    then have le: "unat c \<le> unat x" by (simp add: word_le_nat_alt)
    then have "unat x + (2 ^ 32 - unat c) = (unat x - unat c) + 2 ^ 32"
      using u32_less [of c] by simp
    moreover have "unat x - unat c < 2 ^ 32" using u32_less [of x] by simp
    ultimately show ?thesis using le by (simp only: unat_minus_le mod_add_self2 mod_less)
  next
    case False
    then have "unat x < unat c" by (simp add: word_le_nat_alt)
    then have "unat x + (2 ^ 32 - unat c) < 2 ^ 32" "unat x + (2 ^ 32 - unat c) = unat x + 2 ^ 32 - unat c"
      using u32_less [of c] by simp_all
    then show ?thesis using False by (simp add: unat_sub_if')
  qed
  then have "unat (x - c) mod (2 * h) = (X + 2 * h * Q + (D + 2 * h * R)) mod (2 * h)"
    using h(1) by (simp only: x c mod_mod_cancel)
  also have "\<dots> = (X + D + 2 * h * (Q + R)) mod (2 * h)" by (simp add: algebra_simps)
  also have "\<dots> = X + D" using le(2) by simp
  finally have "h \<le> unat (x - c) mod (2 * h)" using le(1) by simp
  from odd_div [OF this] show ?thesis by (simp add: bit_unat_odd h(2))
qed

lemma has_zero_at:
  fixes x :: u32
  assumes x: "unat x = X + 2 * h * Q" and c: "(0xFEFEFEFF :: nat) = D + 2 * h * R"
    and le: "h \<le> X + D" "X + D < 2 * h" "X < h" and h: "2 * h dvd 2 ^ 32" "h = 2 ^ n"
    and m: "bit (0x80808080 :: u32) n"
  shows "has_zero x"
proof -
  have "2 ^ 32 - unat (0x01010101 :: u32) = D + 2 * h * R" using c by simp
  from borrow_top [OF x this le(1,2) h] have "bit (x - 0x01010101) n" .
  moreover have "unat x div 2 ^ n = 2 * Q"
  proof -
    have "unat x = X + 2 ^ n * (2 * Q)" using x h(2) by simp
    then show ?thesis using le(3) h(2) by simp
  qed
  then have "\<not> bit x n" by (simp add: bit_unat_odd)
  moreover have "n < 32" using m bit_imp_le_length by force
  ultimately have "bit (and (and (x - 0x01010101) (not x)) 0x80808080) n"
    using m unfolding bit_and_iff bit_not_iff by simp
  then show ?thesis unfolding has_zero_def by (metis bit_0_eq bot_apply bot_bool_def)
qed

lemma unat_load32:
  "unat (load32 d p) = unat (d ! p) + 2 ^ 8 * unat (d ! (p + 1)) + 2 ^ 16 * unat (d ! (p + 2)) +
     2 ^ 24 * unat (d ! (p + 3))"
proof -
  have b: "unat (d ! i) < 256" for i using unsigned_less [of "d ! i"] by simp
  have u: "unat (ucast (d ! i) :: u32) = unat (d ! i)" for i by (simp add: unsigned_ucast_eq take_bit_nat_eq_self less_trans [OF b])
  show ?thesis
    using b [of p] b [of "p + 1"] b [of "p + 2"] b [of "p + 3"]
    by (simp add: load32_def unat_word_ariths u)
qed

lemma has_zero_load:
  assumes "d ! p = 0 \<or> d ! (p + 1) = 0 \<or> d ! (p + 2) = 0 \<or> d ! (p + 3) = 0"
  shows "has_zero (load32 d p)"
proof -
  have b: "unat (d ! i) < 256" for i using unsigned_less [of "d ! i"] by simp
  note b4 = b [of p] b [of "p + 1"] b [of "p + 2"] b [of "p + 3"]
  note x = unat_load32 [of d p]
  consider "d ! p = 0" | "d ! (p + 1) = 0" | "d ! (p + 2) = 0" | "d ! (p + 3) = 0" using assms by blast
  then show ?thesis
  proof cases
    case 1
    show ?thesis
      by (rule has_zero_at [where X = "0" and
            h = "2 ^ 7" and n = 7 and D = "0xFF" and R = "0xFEFEFE" and
            Q = "unat (d ! (p + 1)) + 2 ^ 8 * unat (d ! (p + 2)) + 2 ^ 16 * unat (d ! (p + 3))"])
        (use 1 x b4 in \<open>simp_all add: bit_unat_odd\<close>)
  next
    case 2
    show ?thesis
      by (rule has_zero_at [where X = "unat (d ! p)" and
            h = "2 ^ 15" and n = 15 and D = "0xFEFF" and R = "0xFEFE" and
            Q = "unat (d ! (p + 2)) + 2 ^ 8 * unat (d ! (p + 3))"])
        (use 2 x b4 in \<open>simp_all add: bit_unat_odd\<close>)
  next
    case 3
    show ?thesis
      by (rule has_zero_at [where X = "unat (d ! p) + 2 ^ 8 * unat (d ! (p + 1))" and
            h = "2 ^ 23" and n = 23 and D = "0xFEFEFF" and R = "0xFE" and
            Q = "unat (d ! (p + 3))"])
        (use 3 x b4 in \<open>simp_all add: bit_unat_odd\<close>)
  next
    case 4
    show ?thesis
      by (rule has_zero_at [where X = "unat (d ! p) + 2 ^ 8 * unat (d ! (p + 1)) + 2 ^ 16 * unat (d ! (p + 2))" and
            h = "2 ^ 31" and n = 31 and D = "0xFEFEFEFF" and R = "0" and
            Q = "0"])
        (use 4 x b4 in \<open>simp_all add: bit_unat_odd\<close>)
  qed
qed


subsection \<open>The search is exact\<close>

lemma find_code_here: "is_code d p \<Longrightarrow> p + 3 < e \<Longrightarrow> find_code d p e = p"
  by (subst find_code.simps) simp

lemma find_code_next: "\<not> is_code d p \<Longrightarrow> p + 3 < e \<Longrightarrow> find_code d p e = find_code d (p + 1) e"
  by (subst find_code.simps) simp

lemma find_code_end: "e \<le> p + 3 \<Longrightarrow> find_code d p e = e"
  by (subst find_code.simps) simp

lemma byte_scan_spec:
  "lim + 3 \<le> e \<or> lim = 0 \<Longrightarrow>
    (case byte_scan d p lim of Inl q \<Rightarrow> find_code d p e = q
     | Inr q \<Rightarrow> find_code d p e = find_code d q e \<and> p \<le> q \<and> lim \<le> q)"
proof (induction d p lim rule: byte_scan.induct)
  case (1 d p lim)
  show ?case
  proof (cases "p < lim \<and> \<not> is_code d p")
    case True
    then have "p + 3 < e" using 1(2) by auto
    with 1 True show ?thesis
      by (subst byte_scan.simps) (auto simp: find_code_next split: sum.splits)
  next
    case False
    then show ?thesis
      using 1(2) by (subst byte_scan.simps) (auto simp: find_code_here split: sum.splits)
  qed
qed

lemma word_check_None:
  assumes "word_check d p = None" "p + 6 < e"
  shows "find_code d p e = find_code d (p + 4) e"
proof -
  note z = has_zero_load [of d p]
  have "\<not> is_code d p" "\<not> is_code d (p + 1)" "\<not> is_code d (p + 2)" "\<not> is_code d (p + 3)"
    using assms(1) z by (auto simp: word_check_def is_code_def numeral_eq_Suc split: if_splits)
  then show ?thesis
    using assms(2) by (simp add: find_code_next numeral_eq_Suc)
qed

lemma word_check_Some:
  assumes "word_check d p = Some q" "p + 6 < e"
  shows "find_code d p e = q"
proof -
  have "(\<forall>i. p \<le> i \<and> i < q \<longrightarrow> \<not> is_code d i) \<and> is_code d q \<and> (q = p \<or> q = p + 1 \<or> q = p + 2 \<or> q = p + 3)"
    using assms(1) by (auto simp: word_check_def is_code_def numeral_eq_Suc less_Suc_eq le_less split: if_splits)
  then show ?thesis
    using assms(2) by (auto simp: find_code_next find_code_here numeral_eq_Suc)
qed

lemma word_scan_spec:
  "lim + 6 \<le> e \<or> lim = 0 \<Longrightarrow>
    (case word_scan d p lim of Inl q \<Rightarrow> find_code d p e = q
     | Inr q \<Rightarrow> find_code d p e = find_code d q e)"
proof (induction d p lim rule: word_scan.induct)
  case (1 d p lim)
  show ?case
  proof (cases "p < lim")
    case True
    then have "p + 6 < e" using 1(2) by auto
    with 1 True show ?thesis
      by (subst word_scan.simps)
        (auto simp: word_check_None word_check_Some split: sum.splits option.splits)
  qed (simp add: word_scan.simps)
qed

lemma internal_eq: "ff_avc_find_startcode_internal al d p e = find_code d p e"
proof -
  define a where "a = min (p + 4 - (al + p) mod 4) (e - 3)"
  have l: "a + 3 \<le> e \<or> a = 0" "e - 3 + 3 \<le> e \<or> e - 3 = 0" "e - 6 + 6 \<le> e \<or> e - 6 = 0"
    by (auto simp: a_def)
  show ?thesis
  proof (cases "byte_scan d p a")
    case (Inr q)
    note f = byte_scan_spec [OF l(1), of d p] word_scan_spec [OF l(3), of d q]
    show ?thesis
    proof (cases "word_scan d q (e - 6)")
      case w: (Inr r)
      note g = byte_scan_spec [OF l(2), of d r]
      show ?thesis
        using f g Inr w by (cases "byte_scan d r (e - 3)")
          (auto simp: ff_avc_find_startcode_internal_def a_def [symmetric] find_code_end)
    qed (use f Inr in \<open>simp add: ff_avc_find_startcode_internal_def a_def [symmetric]\<close>)
  qed (use byte_scan_spec [OF l(1), of d p] in
      \<open>simp add: ff_avc_find_startcode_internal_def a_def [symmetric]\<close>)
qed

section \<open>From a byte stream to units with a length in front\<close>

text \<open>\<open>while (nal_start < end && !*(nal_start++));\<close>\<close>

function skip_zeros :: "byte list \<Rightarrow> nat \<Rightarrow> nat \<Rightarrow> nat" where
  "skip_zeros d s e =
     (if s < e then if d ! s = 0 then skip_zeros d (s + 1) e else s + 1 else s)"
  by pat_completeness auto
termination by (relation "measure (\<lambda>(_, s, e). e - s)") auto

declare skip_zeros.simps [simp del]

lemma skip_zeros_gt: "s < e \<Longrightarrow> s < skip_zeros d s e"
proof (induction d s e rule: skip_zeros.induct)
  case (1 d s e)
  then show ?case
    by (subst skip_zeros.simps) (auto simp: skip_zeros.simps [of d "Suc s" e])
qed

lemma find_code_ge: "p \<le> e \<Longrightarrow> p \<le> find_code d p e"
proof (induction d p e rule: find_code.induct)
  case (1 d p e)
  then show ?case by (subst find_code.simps) auto
qed

lemma find_startcode_ge: "p \<le> e \<Longrightarrow> p \<le> ff_avc_find_startcode al d p e"
  using find_code_ge [of p e d] by (auto simp: ff_avc_find_startcode_def Let_def internal_eq)

text \<open>
  The loop of \<open>ff_avc_parse_nal_units\<close>: \<open>cap\<close> is the size of the memory at \<open>buf_out\<close>, \<open>out\<close>
  what has been stored there. The pointer \<open>nal_start\<close> never passes \<open>end\<close>.
\<close>

function parse_loop :: "nat \<Rightarrow> byte list \<Rightarrow> nat \<Rightarrow> nat \<Rightarrow> nat \<Rightarrow> byte list \<Rightarrow> byte list option" where
  "parse_loop al d e cap nal_start0 out =
     (let nal_start = skip_zeros d nal_start0 e
      in if e \<le> nal_start then Some out
         else
           let nal_end = ff_avc_find_startcode al d nal_start e;
               nal_size = nal_end - nal_start;
               unit = le_bytes32 (bswap32 (of_nat nal_size)) @ take nal_size (drop nal_start d)
           in if length out + 4 + nal_size \<le> cap
              then parse_loop al d e cap nal_end (out @ unit)
              else None)"
  by pat_completeness auto
termination
proof (relation "measure (\<lambda>(_, _, e, _, s, _). e - s)", simp)
  fix al d e cap s out s1 n sz and u :: "byte list"
  assume s1: "s1 = skip_zeros d s e" "\<not> e \<le> s1" and n: "n = ff_avc_find_startcode al d s1 e"
  have "s < e" using s1 skip_zeros.simps [of d s e] by (auto split: if_splits)
  moreover have "s1 \<le> n" using s1 n find_startcode_ge by simp
  ultimately show "((al, d, e, cap, n, out @ u), al, d, e, cap, s, out) \<in> measure (\<lambda>(_, _, e, _, s, _). e - s)"
    using skip_zeros_gt [of s e d] s1(1) by simp
qed

declare parse_loop.simps [simp del]

definition ff_avc_parse_nal_units :: "nat \<Rightarrow> nat \<Rightarrow> byte list \<Rightarrow> byte list option" where
  "ff_avc_parse_nal_units al cap buf_in =
     parse_loop al buf_in (length buf_in) cap
       (ff_avc_find_startcode al buf_in 0 (length buf_in)) []"

text \<open>
  \<open>alloc\<close> says whether \<open>av_malloc\<close> succeeds; the value \<open>Some None\<close> is the return of \<open>-1\<close>.
\<close>

definition ff_avc_parse_nal_units_buf :: "bool \<Rightarrow> nat \<Rightarrow> byte list \<Rightarrow> byte list option option" where
  "ff_avc_parse_nal_units_buf alloc al buf_in =
     (if alloc
      then case ff_avc_parse_nal_units al (length buf_in + 1024) buf_in of
             Some out \<Rightarrow> Some (Some out)
           | None \<Rightarrow> None
      else Some None)"

section \<open>The avcC record\<close>

definition rb32 :: "byte list \<Rightarrow> u32" where
  "rb32 d = rd32 d"

definition rb24 :: "byte list \<Rightarrow> u32" where
  "rb24 d = or (push_bit 16 (ucast (d ! 0))) (or (push_bit 8 (ucast (d ! 1))) (ucast (d ! 2)))"

text \<open>The loop of \<open>ff_isom_write_avcc\<close>; \<open>buf\<close> is what lies between \<open>buf\<close> and \<open>end\<close>. A parameter
  set is the memory from its first byte on, with its size.\<close>

type_synonym param = "(byte list \<times> nat) option"

function write_avcc_loop :: "byte list \<Rightarrow> param \<Rightarrow> param \<Rightarrow> param \<times> param" where
  "write_avcc_loop buf sps pps =
     (if length buf > 4
      then
        let size = min (unat (rb32 buf)) (length buf - 4);
            buf1 = drop 4 buf;
            nal_type = and (hd buf1) 0x1f
        in if nal_type = 7 then write_avcc_loop (drop size buf1) (Some (buf1, size)) pps
           else if nal_type = 8 then write_avcc_loop (drop size buf1) sps (Some (buf1, size))
           else write_avcc_loop (drop size buf1) sps pps
      else (sps, pps))"
  by pat_completeness auto
termination by (relation "measure (\<lambda>(b, _, _). length b)") auto

declare write_avcc_loop.simps [simp del]

text \<open>The result is the value returned and what is written.\<close>

definition AVERROR_INVALIDDATA :: int where
  "AVERROR_INVALIDDATA = - 1094995529"

definition ff_isom_write_avcc :: "bool \<Rightarrow> nat \<Rightarrow> byte list \<Rightarrow> (int \<times> calls) option" where
  "ff_isom_write_avcc alloc al data =
     (if length data > 6
      then
        if rb32 data = 0x00000001 \<or> rb24 data = 0x000001
        then do {
          r \<leftarrow> ff_avc_parse_nal_units_buf alloc al data;
          case r of
            None \<Rightarrow> Some (- 1, [])
          | Some buf \<Rightarrow>
              (case write_avcc_loop buf None None of
                 (Some (sps, sps_size), Some (pps, pps_size)) \<Rightarrow>
                   if sps_size < 4 \<or> sps_size > 65535 \<or> pps_size > 65535
                   then Some (AVERROR_INVALIDDATA, [])
                   else Some (0,
                     put_byte_cache 1 @
                     put_byte_cache (ucast (sps ! 1)) @ put_byte_cache (ucast (sps ! 2)) @
                     put_byte_cache (ucast (sps ! 3)) @
                     put_byte_cache 0xff @ put_byte_cache 0xe1 @
                     put_be16_cache (of_nat sps_size) @ put_buffer_cache (take sps_size sps) @
                     put_byte_cache 1 @
                     put_be16_cache (of_nat pps_size) @ put_buffer_cache (take pps_size pps))
               | _ \<Rightarrow> Some (AVERROR_INVALIDDATA, []))
        }
        else Some (0, put_buffer_cache data)
      else Some (0, []))"

text \<open>The loop of \<open>FFIsomGetAvccSize\<close>, with the sizes found; \<open>None\<close> when it reads past the data.\<close>

function avcc_size_loop :: "byte list \<Rightarrow> u32 \<Rightarrow> u32 \<Rightarrow> (u32 \<times> u32) option" where
  "avcc_size_loop buf sps_size pps_size =
     (if buf = [] then Some (sps_size, pps_size)
      else if length buf < 5 then None
      else
        let size = rb32 buf;
            nal_type = and (buf ! 4) 0x1f;
            rest = drop (unat size + 4) buf
        in if nal_type = 7 then avcc_size_loop rest size pps_size
           else if nal_type = 8 then avcc_size_loop rest sps_size size
           else avcc_size_loop rest sps_size pps_size)"
  by pat_completeness auto
termination by (relation "measure (\<lambda>(b, _, _). length b)") auto

declare avcc_size_loop.simps [simp del]

definition FFIsomGetAvccSize :: "bool \<Rightarrow> nat \<Rightarrow> byte list \<Rightarrow> u32 option" where
  "FFIsomGetAvccSize alloc al data =
     (if length data > 6
      then
        if rb32 data = 0x00000001
        then do {
          r \<leftarrow> ff_avc_parse_nal_units_buf alloc al data;
          case r of
            None \<Rightarrow> Some 0
          | Some buf \<Rightarrow> do {
              (sps_size, pps_size) \<leftarrow> avcc_size_loop buf 0 0;
              Some (6 + 2 + sps_size + 1 + 2 + pps_size)
            }
        }
        else Some (of_nat (length data))
      else Some 0)"

section \<open>Byte streams and their units\<close>

text \<open>
  A byte stream: every unit behind a start code of \<open>z\<close> zeros and a one. The units that a reader
  of the MP4 file expects have their length in front.
\<close>

definition annexb :: "(nat \<times> byte list) list \<Rightarrow> byte list" where
  "annexb items = concat (map (\<lambda>(z, n). replicate z 0 @ 1 # n) items)"

definition with_lengths :: "byte list list \<Rightarrow> byte list" where
  "with_lengths ns = concat (map (\<lambda>n. be32 (of_nat (length n)) @ n) ns)"

text \<open>A unit as H.264 allows it: no start code inside and no zero at its end.\<close>

definition good_nal :: "byte list \<Rightarrow> bool" where
  "good_nal n \<longleftrightarrow> n \<noteq> [] \<and> last n \<noteq> 0 \<and> (\<forall>i < length n - 2. \<not> is_code n i)"

definition good_items :: "(nat \<times> byte list) list \<Rightarrow> bool" where
  "good_items items \<longleftrightarrow> (\<forall>(z, n) \<in> set items. (z = 2 \<or> z = 3) \<and> good_nal n)"

lemma annexb_simps [simp]:
  "annexb [] = []" "annexb ((z, n) # items) = replicate z 0 @ 1 # n @ annexb items"
  by (simp_all add: annexb_def)

lemma with_lengths_simps [simp]:
  "with_lengths [] = []"
  "with_lengths (n # ns) = be32 (of_nat (length n)) @ n @ with_lengths ns"
  by (simp_all add: with_lengths_def)

lemma skip_zeros_eq:
  "x \<noteq> 0 \<Longrightarrow> length pre + z < e \<Longrightarrow>
    skip_zeros (pre @ replicate z 0 @ x # rest) (length pre) e = length pre + z + 1"
proof (induction z arbitrary: pre)
  case 0
  then show ?case by (simp add: skip_zeros.simps)
next
  case (Suc z)
  from Suc(1) [of "pre @ [0]"] Suc(2,3) show ?case
    by (subst skip_zeros.simps) simp
qed

lemma find_code_eq:
  "p \<le> q \<Longrightarrow> q + 3 < e \<Longrightarrow> is_code d q \<Longrightarrow> (\<And>i. p \<le> i \<Longrightarrow> i < q \<Longrightarrow> \<not> is_code d i) \<Longrightarrow>
    find_code d p e = q"
proof (induction d p e rule: find_code.induct)
  case (1 d p e)
  then show ?case by (cases "p = q") (auto simp: find_code_here find_code_next)
qed

lemma find_code_none:
  "p \<le> e \<Longrightarrow> (\<And>i. p \<le> i \<Longrightarrow> i + 3 < e \<Longrightarrow> \<not> is_code d i) \<Longrightarrow> find_code d p e = e"
proof (induction d p e rule: find_code.induct)
  case (1 d p e)
  then show ?case by (subst find_code.simps) auto
qed

text \<open>No start code begins in a unit or in the zeros before the next one.\<close>

lemma no_code_in_unit:
  assumes g: "good_nal n" and j: "j + 2 < length n + z"
  shows "\<not> is_code (pre @ n @ replicate z 0 @ rest) (length pre + j)"
proof (cases "j + 2 < length n")
  case True
  then have "\<not> is_code n j" using g by (auto simp: good_nal_def)
  then show ?thesis using True by (simp add: is_code_def nth_append)
next
  case False
  then have "j + 2 - length n < z" using j by simp
  then show ?thesis using False by (simp add: is_code_def nth_append)
qed

lemma find_startcode_unit:
  assumes g: "good_nal n" "good_items items"
  shows "ff_avc_find_startcode al (pre @ n @ annexb items) (length pre)
      (length (pre @ n @ annexb items)) = length pre + length n"
proof (cases items)
  case Nil
  have "find_code (pre @ n) (length pre) (length (pre @ n)) = length (pre @ n)"
  proof (rule find_code_none)
    fix i assume i: "length pre \<le> i" "i + 3 < length (pre @ n)"
    then show "\<not> is_code (pre @ n) i"
      using no_code_in_unit [OF g(1), of "i - length pre" 0 pre "[]"] by simp
  qed simp
  then show ?thesis using Nil by (simp add: ff_avc_find_startcode_def internal_eq)
next
  case (Cons it its)
  obtain z m where it: "it = (z, m)" by (cases it)
  have z: "z = 2 \<or> z = 3" "m \<noteq> []" "n \<noteq> []" "last n \<noteq> 0"
    using g Cons it by (auto simp: good_items_def good_nal_def)
  define d where "d = pre @ n @ replicate z 0 @ 1 # m @ annexb its"
  define q where "q = length pre + length n + z - 2"
  have f: "find_code d (length pre) (length d) = q"
  proof (rule find_code_eq)
    have zero: "d ! (length pre + (length n + k)) = 0" if "k < z" for k
      using that by (simp add: d_def nth_append)
    have one: "d ! (length pre + (length n + z)) = 1" by (simp add: d_def nth_append)
    have "q = length pre + (length n + (z - 2))" using z(1) by (auto simp: q_def)
    then show "is_code d q"
      using z(1) zero [of "z - 2"] zero [of "z - 1"] one by (auto simp: is_code_def numeral_3_eq_3)
    have "0 < length n" "0 < length m" using z by simp_all
    then show "q + 3 < length d" "length pre \<le> q"
      unfolding d_def q_def using z(1) by auto
    fix i assume "length pre \<le> i" "i < q"
    then show "\<not> is_code d i"
      using no_code_in_unit [OF g(1), of "i - length pre" z pre "1 # m @ annexb its"] z(1)
      by (auto simp: d_def q_def)
  qed
  have n0: "0 < length n" using z by simp
  then have n: "length pre < q" using z(1) by (auto simp: q_def)
  have n3: "d ! (length pre + length n) = 0"
    using z(1) by (auto simp: d_def nth_append)
  have n2: "d ! (length pre + length n - 1) = last n"
  proof -
    have "d ! (length pre + (length n - 1)) = n ! (length n - 1)"
      using n0 by (simp only: d_def nth_append_length_plus) (simp add: nth_append)
    then show ?thesis using n0 by (simp add: last_conv_nth)
  qed
  have "ff_avc_find_startcode al d (length pre) (length d) = length pre + length n"
    using z(1)
  proof
    assume z2: "z = 2"
    then have "d ! (q - 1) \<noteq> 0" "q = length pre + length n" using n2 z(4) by (simp_all add: q_def)
    then show ?thesis by (simp add: ff_avc_find_startcode_def internal_eq f)
  next
    assume z3: "z = 3"
    then have q: "q = Suc (length pre + length n)" by (simp add: q_def)
    moreover have "q < length d" using z3 by (simp add: d_def q)
    ultimately show ?thesis using n n3 by (simp add: ff_avc_find_startcode_def internal_eq f)
  qed
  then show ?thesis using Cons it by (simp add: d_def)
qed

lemma parse_loop_annexb:
  "good_items items \<Longrightarrow>
    parse_loop al (pre @ annexb items) (length (pre @ annexb items)) cap (length pre) out =
      (if length out + length (with_lengths (map snd items)) \<le> cap \<or> items = []
       then Some (out @ with_lengths (map snd items)) else None)"
proof (induction items arbitrary: pre out)
  case Nil
  then show ?case by (simp add: parse_loop.simps skip_zeros.simps)
next
  case (Cons it its)
  obtain z n where it: "it = (z, n)" by (cases it)
  have g: "good_nal n" "good_items its" and n0: "n \<noteq> []"
    using Cons.prems it by (auto simp: good_items_def good_nal_def)
  let ?pre = "pre @ replicate z 0 @ [1]"
  have s: "skip_zeros (pre @ annexb (it # its)) (length pre) (length (pre @ annexb (it # its))) = length ?pre"
    using it skip_zeros_eq [of 1 pre z _ "n @ annexb its"] by simp
  have d: "pre @ annexb (it # its) = ?pre @ n @ annexb its" using it by simp
  have step: "parse_loop al (pre @ annexb (it # its)) (length (pre @ annexb (it # its))) cap (length pre) out =
    (if length out + 4 + length n \<le> cap
     then parse_loop al ((?pre @ n) @ annexb its) (length ((?pre @ n) @ annexb its)) cap (length (?pre @ n))
       (out @ be32 (of_nat (length n)) @ n)
     else None)"
    using find_startcode_unit [OF g, of al ?pre] n0 s
    by (subst parse_loop.simps) (simp add: Let_def d le_bytes32_bswap32 it add.assoc)
  show ?case
    unfolding step Cons.IH [OF g(2), of "?pre @ n"] using it by (cases its) (auto split: if_splits)
qed

lemma parse_nal_units_annexb:
  assumes g: "good_items items"
  shows "ff_avc_parse_nal_units al cap (annexb items) =
    (if length (with_lengths (map snd items)) \<le> cap then Some (with_lengths (map snd items)) else None)"
proof -
  have "ff_avc_find_startcode al (annexb items) 0 (length (annexb items)) = 0"
  proof (cases items)
    case Nil
    then show ?thesis by (simp add: ff_avc_find_startcode_def internal_eq find_code.simps)
  next
    case (Cons it its)
    obtain z m where it: "it = (z, m)" by (cases it)
    have z: "z = 2 \<or> z = 3" "m \<noteq> []" using g Cons it by (auto simp: good_items_def good_nal_def)
    have "find_code (annexb items) 0 (length (annexb items)) = z - 2"
      using z Cons it by (intro find_code_eq) (auto simp: is_code_def nth_append numeral_eq_Suc Suc_le_eq)
    then show ?thesis
      using z Cons it by (auto simp: ff_avc_find_startcode_def internal_eq numeral_eq_Suc)
  qed
  then show ?thesis
    using parse_loop_annexb [OF g, of al "[]" cap "[]"] by (auto simp: ff_avc_parse_nal_units_def)
qed

subsection \<open>Reading the units back\<close>

function read_units :: "byte list \<Rightarrow> byte list list" where
  "read_units b =
     (if length b < 4 then []
      else take (unat (rd32 b)) (drop 4 b) # read_units (drop (4 + unat (rd32 b)) b))"
  by pat_completeness auto
termination by (relation "measure length") auto

declare read_units.simps [simp del]

lemma unat_len_u32: "length n < 2 ^ 32 \<Longrightarrow> unat (of_nat (length n) :: u32) = length n"
  by (simp only: unat_of_nat) simp

lemma read_units_with_lengths:
  "\<forall>n \<in> set ns. length n < 2 ^ 32 \<Longrightarrow> read_units (with_lengths ns) = ns"
proof (induction ns)
  case (Cons n ns)
  then show ?case by (subst read_units.simps) (simp add: unat_len_u32)
qed (simp add: read_units.simps)

lemma length_with_lengths: "length (with_lengths ns) = (\<Sum>n\<leftarrow>ns. 4 + length n)"
  by (induction ns) simp_all

lemma length_annexb: "length (annexb items) = (\<Sum>(z, n)\<leftarrow>items. z + 1 + length n)"
  by (induction items) auto

text \<open>With four-byte start codes the output is as long as the input.\<close>

lemma length_four_byte_codes:
  "\<forall>(z, n) \<in> set items. z = 3 \<Longrightarrow> length (with_lengths (map snd items)) = length (annexb items)"
  by (induction items) auto

lemma length_three_byte_codes:
  "\<forall>(z, n) \<in> set items. z = 2 \<Longrightarrow>
    length (with_lengths (map snd items)) = length (annexb items) + length items"
  by (induction items) auto

lemma parse_buf_annexb:
  "good_items items \<Longrightarrow>
    ff_avc_parse_nal_units_buf True al (annexb items) =
      (if length (with_lengths (map snd items)) \<le> length (annexb items) + 1024
       then Some (Some (with_lengths (map snd items))) else None)"
  by (simp add: ff_avc_parse_nal_units_buf_def parse_nal_units_annexb)

subsection \<open>The parameter sets\<close>

text \<open>The last unit of a type.\<close>

definition last_unit :: "byte \<Rightarrow> byte list list \<Rightarrow> byte list option \<Rightarrow> byte list option" where
  "last_unit k ns = fold (\<lambda>n x. if and (hd n) 0x1f = k then Some n else x) ns"

lemma last_unit_simps [simp]:
  "last_unit k [] x = x"
  "last_unit k (n # ns) x = last_unit k ns (if and (hd n) 0x1f = k then Some n else x)"
  by (simp_all add: last_unit_def)

lemma last_unit_in: "last_unit k ns None = Some n \<Longrightarrow> n \<in> set ns"
proof -
  have "last_unit k ns x = Some n \<Longrightarrow> n \<in> set ns \<or> x = Some n" for x
    by (induction ns arbitrary: x) (auto split: if_splits)
  then show "last_unit k ns None = Some n \<Longrightarrow> n \<in> set ns" by blast
qed

text \<open>What a parameter set found by the loop stands for.\<close>

definition param_is :: "param \<Rightarrow> byte list option \<Rightarrow> bool" where
  "param_is p x \<longleftrightarrow> (case p of None \<Rightarrow> x = None
     | Some (b, k) \<Rightarrow> k \<le> length b \<and> x = Some (take k b))"

lemma param_is_simps [simp]:
  "param_is None x \<longleftrightarrow> x = None"
  "param_is (Some (b, k)) x \<longleftrightarrow> k \<le> length b \<and> x = Some (take k b)"
  by (auto simp: param_is_def)

lemma write_avcc_loop_units:
  "\<forall>n \<in> set ns. n \<noteq> [] \<and> length n < 2 ^ 32 \<Longrightarrow> param_is sps x \<Longrightarrow> param_is pps y \<Longrightarrow>
    param_is (fst (write_avcc_loop (with_lengths ns) sps pps)) (last_unit 7 ns x) \<and>
    param_is (snd (write_avcc_loop (with_lengths ns) sps pps)) (last_unit 8 ns y)"
proof (induction ns arbitrary: sps pps x y)
  case Nil
  then show ?case by (simp add: write_avcc_loop.simps)
next
  case (Cons n ns)
  have n: "n \<noteq> []" "length n < 2 ^ 32" and IH: "\<And>sps x pps y. param_is sps x \<Longrightarrow> param_is pps y \<Longrightarrow>
    param_is (fst (write_avcc_loop (with_lengths ns) sps pps)) (last_unit 7 ns x) \<and>
    param_is (snd (write_avcc_loop (with_lengths ns) sps pps)) (last_unit 8 ns y)"
    using Cons.prems Cons.IH by auto
  then have l: "4 < length (with_lengths (n # ns))" by simp
  have step: "write_avcc_loop (with_lengths (n # ns)) sps pps =
    (let nal_type = and (hd n) 0x1f
     in if nal_type = 7 then write_avcc_loop (with_lengths ns) (Some (n @ with_lengths ns, length n)) pps
        else if nal_type = 8 then write_avcc_loop (with_lengths ns) sps (Some (n @ with_lengths ns, length n))
        else write_avcc_loop (with_lengths ns) sps pps)"
    using n l by (subst write_avcc_loop.simps) (simp add: rb32_def unat_len_u32 Let_def)
  show ?case
    unfolding step using IH [of "Some (n @ with_lengths ns, length n)" "Some n" pps y]
      IH [of sps x "Some (n @ with_lengths ns, length n)" "Some n"] IH [of sps x pps y] Cons.prems(2,3)
    by (simp add: Let_def)
qed

lemma avcc_size_loop_units:
  "\<forall>n \<in> set ns. n \<noteq> [] \<and> length n < 2 ^ 32 \<Longrightarrow>
    avcc_size_loop (with_lengths ns) (of_nat (length s)) (of_nat (length p)) =
      Some (of_nat (length (the (last_unit 7 ns (Some s)))), of_nat (length (the (last_unit 8 ns (Some p)))))"
proof (induction ns arbitrary: s p)
  case Nil
  then show ?case by (simp add: avcc_size_loop.simps)
next
  case (Cons n ns)
  have n: "n \<noteq> []" "length n < 2 ^ 32" using Cons.prems by auto
  then have l: "\<not> length (with_lengths (n # ns)) < 5" "with_lengths (n # ns) \<noteq> []"
    by (auto simp: Suc_le_eq)
  have h: "with_lengths (n # ns) ! 4 = hd n"
    using n by (simp add: nth_append hd_conv_nth)
  show ?case
    using n l h Cons.prems Cons.IH [of n p] Cons.IH [of s n] Cons.IH [of s p]
    by (subst avcc_size_loop.simps) (simp add: rb32_def unat_len_u32 Let_def)
qed

text \<open>The record of ISO 14496-15 for one sequence and one picture parameter set.\<close>

definition avcc_record :: "byte list \<Rightarrow> byte list \<Rightarrow> byte list" where
  "avcc_record sps pps =
     [1, sps ! 1, sps ! 2, sps ! 3, 0xff, 0xe1] @
     [of_nat (length sps div 256), of_nat (length sps)] @ sps @
     [1, of_nat (length pps div 256), of_nat (length pps)] @ pps"

definition be16_ok :: "nat \<Rightarrow> bool" where
  "be16_ok n \<longleftrightarrow> (ucast (drop_bit 8 (of_nat n :: u32)) :: byte) = of_nat (n div 256) \<and>
     (ucast (of_nat n :: u32) :: byte) = of_nat n"

lemma be16_ok: "n < 2 ^ 32 \<Longrightarrow> be16_ok n"
proof -
  assume n: "n < 2 ^ 32"
  have u: "unat (of_nat m :: u32) = m" if "m \<le> n" for m
    using n that by (simp only: unat_of_nat) simp
  have "unat (drop_bit 8 (of_nat n :: u32)) = n div 256"
    by (simp only: unat_drop_bit_eq u [OF order_refl]) (simp add: drop_bit_eq_div)
  then have "drop_bit 8 (of_nat n :: u32) = of_nat (n div 256)"
    using u [of "n div 256"] by (simp add: word_unat_eq_iff)
  moreover have "take_bit 32 m = m" if "m \<le> n" for m
    using n that by (simp add: take_bit_nat_eq_self)
  ultimately show ?thesis by (simp add: be16_ok_def unsigned_of_nat)
qed


text \<open>What the two passes over a stream with both parameter sets make of it.\<close>

definition vos_stream :: "(nat \<times> byte list) list \<Rightarrow> byte list \<Rightarrow> byte list \<Rightarrow> bool" where
  "vos_stream items sps pps \<longleftrightarrow>
     good_items items \<and> items \<noteq> [] \<and> 6 < length (annexb items) \<and>
     (\<forall>(z, n) \<in> set items. length n < 2 ^ 32) \<and>
     length (with_lengths (map snd items)) \<le> length (annexb items) + 1024 \<and>
     last_unit 7 (map snd items) None = Some sps \<and> last_unit 8 (map snd items) None = Some pps \<and>
     4 \<le> length sps \<and> length sps \<le> 65535 \<and> length pps \<le> 65535"

lemma rb32_annexb:
  "items \<noteq> [] \<Longrightarrow> good_items items \<Longrightarrow> rb32 (annexb items) = 1 \<longleftrightarrow> fst (hd items) = 3"
  "items \<noteq> [] \<Longrightarrow> good_items items \<Longrightarrow> rb32 (annexb items) = 1 \<or> rb24 (annexb items) = 1"
proof -
  assume "items \<noteq> []" "good_items items"
  then obtain z n its where it: "items = (z, n) # its" "z = 2 \<or> z = 3" "good_nal n"
    by (cases items) (auto simp: good_items_def)
  then obtain x n' where n: "n = x # n'" by (cases n) (auto simp: good_nal_def)
  have "rb32 (0 # 0 # 1 # x # xs) \<noteq> 1" for xs
  proof
    assume "rb32 (0 # 0 # 1 # x # xs) = 1"
    then have "bit (rb32 (0 # 0 # 1 # x # xs)) 8 = bit 1 8" by simp
    then show False
      by (simp add: rb32_def rd32_def bit_or_iff bit_push_bit_iff bit_unsigned_iff bit_1_iff numeral_3_eq_3
          possible_bit_def)
  qed
  then show "rb32 (annexb items) = 1 \<longleftrightarrow> fst (hd items) = 3"
    "rb32 (annexb items) = 1 \<or> rb24 (annexb items) = 1"
    using it n by (auto simp: rb32_def rb24_def rd32_def numeral_3_eq_3 numeral_2_eq_2)
qed

lemma ucast_byte_u32 [simp]: "(ucast (ucast (b :: byte) :: u32) :: byte) = b"
  by (rule bit_word_eqI) (simp add: bit_unsigned_iff possible_bit_def)

lemma avcc_written:
  assumes v: "vos_stream items sps pps"
  obtains c where "ff_isom_write_avcc True al (annexb items) = Some (0, c)"
    "concat c = avcc_record sps pps"
proof -
  have g: "good_items items" "items \<noteq> []" and ns: "\<forall>n \<in> set (map snd items). n \<noteq> [] \<and> length n < 2 ^ 32"
    using v by (auto simp: vos_stream_def good_items_def good_nal_def)
  let ?w = "write_avcc_loop (with_lengths (map snd items)) None None"
  have "param_is (fst ?w) (Some sps)" "param_is (snd ?w) (Some pps)"
    using write_avcc_loop_units [OF ns, of None None None None] v by (simp_all add: vos_stream_def)
  then obtain a b where w: "?w = (Some (a, length sps), Some (b, length pps))"
    "take (length sps) a = sps" "take (length pps) b = pps" "length sps \<le> length a"
    by (cases ?w) (auto simp: param_is_def split: option.splits)
  have nth: "a ! i = sps ! i" if "i < length sps" for i
    using w(2) that by (metis nth_take)
  have "ff_isom_write_avcc True al (annexb items) = Some (0,
     put_byte_cache 1 @ put_byte_cache (ucast (sps ! 1)) @ put_byte_cache (ucast (sps ! 2)) @
     put_byte_cache (ucast (sps ! 3)) @ put_byte_cache 0xff @ put_byte_cache 0xe1 @
     put_be16_cache (of_nat (length sps)) @ put_buffer_cache sps @ put_byte_cache 1 @
     put_be16_cache (of_nat (length pps)) @ put_buffer_cache pps)"
    using v w rb32_annexb(2) [OF g(2,1)]
    by (simp add: ff_isom_write_avcc_def vos_stream_def parse_buf_annexb nth)
  then show thesis
    by (rule that) (use be16_ok [of "length sps"] be16_ok [of "length pps"] v in
        \<open>simp add: calls_simps avcc_record_def be16_ok_def vos_stream_def\<close>)
qed

lemma avcc_size:
  assumes v: "vos_stream items sps pps" and z: "fst (hd items) = 3"
  shows "FFIsomGetAvccSize True al (annexb items) = Some (of_nat (length (avcc_record sps pps)))"
proof -
  have g: "good_items items" "items \<noteq> []" and ns: "\<forall>n \<in> set (map snd items). n \<noteq> [] \<and> length n < 2 ^ 32"
    using v by (auto simp: vos_stream_def good_items_def good_nal_def)
  have l: "last_unit k ns (Some y) = Some (case last_unit k ns None of None \<Rightarrow> y | Some n \<Rightarrow> n)" for k ns y
    by (induction ns arbitrary: y) simp_all
  have "avcc_size_loop (with_lengths (map snd items)) 0 0 = Some (of_nat (length sps), of_nat (length pps))"
    using avcc_size_loop_units [OF ns, of "[]" "[]"] v
      l [of 7 "map snd items" "[]"] l [of 8 "map snd items" "[]"]
    by (simp add: vos_stream_def)
  then show ?thesis
    using v z rb32_annexb(1) [OF g(2,1)]
    by (simp add: FFIsomGetAvccSize_def parse_buf_annexb vos_stream_def avcc_record_def)
qed

lemma avcc_size_short_code:
  assumes v: "vos_stream items sps pps" and z: "fst (hd items) = 2"
  shows "FFIsomGetAvccSize True al (annexb items) = Some (of_nat (length (annexb items)))"
  using v z rb32_annexb(1) [of items] by (simp add: FFIsomGetAvccSize_def vos_stream_def)

section \<open>Properties\<close>

text \<open>
  C16: the search for a start code of avc.c, which tests four bytes at a time with a bit trick
  from the first aligned address on, finds exactly the first start code that has a byte behind
  it, whatever the data, the range and the alignment are.
\<close>

theorem startcode_search_is_exact:
  "ff_avc_find_startcode_internal al d p e = find_code d p e"
  by (rule internal_eq)

text \<open>
  C17: \<open>ff_avc_parse_nal_units_buf\<close> turns a byte stream, with start codes of three or four bytes
  in any order and at any alignment, into the same units with their length in front, and stays
  inside the memory it allocates as long as the short start codes do not take up more than the
  1024 spare bytes.
\<close>

theorem nal_units_are_framed:
  assumes "good_items items" "\<forall>(z, n) \<in> set items. length n < 2 ^ 32"
    and "length (with_lengths (map snd items)) \<le> length (annexb items) + 1024"
  shows "\<exists>buf. ff_avc_parse_nal_units_buf True al (annexb items) = Some (Some buf) \<and>
    read_units buf = map snd items"
proof -
  have "read_units (with_lengths (map snd items)) = map snd items"
    using assms(2) by (intro read_units_with_lengths) auto
  then show ?thesis using assms(1,3) by (simp add: parse_buf_annexb)
qed

definition two_params :: "(nat \<times> byte list) list" where
  "two_params = [(3, [0x67, 0x42, 0, 0x1e]), (2, [0x68, 0xce])]"

lemma two_params_stream: "vos_stream two_params [0x67, 0x42, 0, 0x1e] [0x68, 0xce]"
  by code_simp

lemma nal_units_are_framed_witness:
  "\<exists>buf. ff_avc_parse_nal_units_buf True 1 (annexb two_params) = Some (Some buf) \<and>
    read_units buf = [[0x67, 0x42, 0, 0x1e], [0x68, 0xce]]"
  using nal_units_are_framed [of two_params 1] two_params_stream
  by (simp add: vos_stream_def two_params_def)

text \<open>
  C35: a stream of more than 1024 units with three-byte start codes makes
  \<open>ff_avc_parse_nal_units\<close> write behind the memory allocated for its output: each length takes
  one byte more than the start code it replaces.
\<close>

theorem short_start_codes_overflow:
  assumes "good_items items" "\<forall>(z, n) \<in> set items. z = 2" "1024 < length items"
  shows "ff_avc_parse_nal_units_buf True al (annexb items) = None"
  using assms length_three_byte_codes [of items] by (simp add: parse_buf_annexb)

lemma short_start_codes_overflow_witness:
  "ff_avc_parse_nal_units_buf True 0 (annexb (replicate 1025 (2, [1]))) = None"
  by (rule short_start_codes_overflow) (auto simp: good_items_def good_nal_def)

text \<open>
  C18: for parameter sets that begin with a four-byte start code, \<open>ff_isom_write_avcc\<close> writes the
  decoder configuration record of the last sequence and the last picture parameter set, and
  \<open>FFIsomGetAvccSize\<close>, from which the sizes of all boxes around it are computed, gives its
  length.
\<close>

theorem avcc_record_is_written:
  assumes "vos_stream items sps pps" "fst (hd items) = 3"
  shows "\<exists>c n. ff_isom_write_avcc True al (annexb items) = Some (0, c) \<and>
    bytes_of c = avcc_record sps pps \<and>
    FFIsomGetAvccSize True al (annexb items) = Some n \<and> unat n = blen c"
proof -
  from avcc_written [OF assms(1)] obtain c
    where c: "ff_isom_write_avcc True al (annexb items) = Some (0, c)" "concat c = avcc_record sps pps" .
  have "length (avcc_record sps pps) < 2 ^ 32"
    using assms(1) by (simp add: avcc_record_def vos_stream_def)
  then have "unat (of_nat (length (avcc_record sps pps)) :: u32) = blen c"
    using c(2) unat_len_u32 [of "avcc_record sps pps"] by (simp only: blen_def)
  then show ?thesis using c avcc_size [OF assms] by blast
qed

lemma avcc_record_is_written_witness:
  "\<exists>c n. ff_isom_write_avcc True 2 (annexb two_params) = Some (0, c) \<and>
    bytes_of c = avcc_record [0x67, 0x42, 0, 0x1e] [0x68, 0xce] \<and>
    FFIsomGetAvccSize True 2 (annexb two_params) = Some n \<and> unat n = blen c"
  by (rule avcc_record_is_written [OF two_params_stream]) (simp add: two_params_def)

text \<open>
  C36: for a stream of exactly one sequence and one picture parameter set whose first start code
  has three bytes, which \<open>ff_isom_write_avcc\<close> accepts, \<open>FFIsomGetAvccSize\<close> gives the length of the
  stream, which is less than the length of the record that is written, so the sizes of the boxes are
  wrong.
\<close>

theorem avcc_size_of_short_start_code:
  assumes "vos_stream [(2, sps), (z, pps)] sps pps"
  shows "\<exists>c n. ff_isom_write_avcc True al (annexb [(2, sps), (z, pps)]) = Some (0, c) \<and>
    FFIsomGetAvccSize True al (annexb [(2, sps), (z, pps)]) = Some n \<and> unat n < blen c"
proof -
  let ?d = "annexb [(2, sps), (z, pps)]"
  from avcc_written [OF assms] obtain c
    where c: "ff_isom_write_avcc True al ?d = Some (0, c)" "concat c = avcc_record sps pps" .
  have z: "z = 2 \<or> z = 3" "length sps \<le> 65535" "length pps \<le> 65535"
    using assms by (auto simp: vos_stream_def good_items_def)
  then have "length ?d < 2 ^ 32" "length ?d < blen c"
    using c(2) by (auto simp: blen_def avcc_record_def)
  then have "unat (of_nat (length ?d) :: u32) < blen c"
    using unat_len_u32 [of ?d] by simp
  then show ?thesis using c(1) avcc_size_short_code [OF assms] by auto
qed

lemma avcc_size_of_short_start_code_witness:
  "\<exists>c n. ff_isom_write_avcc True 0 (annexb [(2, [0x67, 0x42, 0, 0x1e]), (3, [0x68, 0xce])]) = Some (0, c) \<and>
    FFIsomGetAvccSize True 0 (annexb [(2, [0x67, 0x42, 0, 0x1e]), (3, [0x68, 0xce])]) = Some n \<and>
    unat n < blen c"
  by (rule avcc_size_of_short_start_code) code_simp

end
