(* ===== verification/Mp4Box.thy ===== *)
theory Mp4Box
  imports Mp4Samples Avc
begin

text \<open>
  The boxes of the MP4 header (libmuxer/mp4_muxer/Mp4Muxer.c, lines 108 to 1778). Every box has
  a function that computes its size before anything is written and a function that writes it.
  A writer that may leave the index tables, or rests on the parameter sets of the track, has the
  value \<open>None\<close> when it does; the other writers always succeed.

  The tables are read back once, by the trailer; the pointers that reading moves are not looked
  at again and stay out of the model.
\<close>

section \<open>The tables of the samples\<close>

definition read_table :: "CHUNKID \<Rightarrow> MOVContext \<Rightarrow> nat \<Rightarrow> u32 list option" where
  "read_table k m i =
     idx_read (cache_size k) (tiny_pages (tracks m i) k) (table_size (tracks m i) k) (tabs m k i)"

text \<open>Streams with GPS text never spill: their boxes read the ring only.\<close>

definition read_ring :: "CHUNKID \<Rightarrow> MOVContext \<Rightarrow> nat \<Rightarrow> u32 list option" where
  "read_ring k m i =
     ring_read (cache_size k) False (ring (tabs m k i)) (rd (tabs m k i)) (table_size (tracks m i) k)"

definition put_all :: "u32 list \<Rightarrow> calls" where
  "put_all vs = concat (map put_be32_cache vs)"

definition movGetStcoTagSize :: "MOVTrack \<Rightarrow> u32" where
  "movGetStcoTagSize t = of_nat ((table_size t STCO_ID + 4) * 4)"

definition mov_write_stco_tag :: "MOVContext \<Rightarrow> nat \<Rightarrow> calls option" where
  "mov_write_stco_tag m i =
     (let t = tracks m i
      in do {
        vs \<leftarrow> (if codec_id (enc t) = CODEC_ID_GGAD then read_ring STCO_ID m i else read_table STCO_ID m i);
        Some (put_be32_cache (movGetStcoTagSize t) @ put_tag_cache ''stco'' @ put_be32_cache 0 @
              put_be32_cache (of_nat (table_size t STCO_ID)) @ put_all vs)
      })"

definition movGetStszTagSize :: "MOVTrack \<Rightarrow> u32" where
  "movGetStszTagSize t =
     (if codec_id (enc t) = CODEC_ID_PCM then 5 * 4 else of_nat ((table_size t STSZ_ID + 5) * 4))"

definition mov_write_stsz_tag :: "MOVContext \<Rightarrow> nat \<Rightarrow> calls option" where
  "mov_write_stsz_tag m i =
     (let t = tracks m i; c = codec_id (enc t);
          head = put_be32_cache (movGetStszTagSize t) @ put_tag_cache ''stsz'' @ put_be32_cache 0 @
            put_be32_cache (if c = CODEC_ID_PCM then channels (enc t) * drop_bit 3 (bits_per_sample (enc t)) else 0) @
            put_be32_cache (of_nat (table_size t STSZ_ID))
      in if c = CODEC_ID_PCM then Some head
         else do {
           vs \<leftarrow> (if c = CODEC_ID_GGAD then read_ring STSZ_ID m i else read_table STSZ_ID m i);
           Some (head @ put_all vs)
         })"

definition movGetStscTagSize :: "MOVTrack \<Rightarrow> u32" where
  "movGetStscTagSize t =
     (if codec_id (enc t) \<noteq> CODEC_ID_GGAD then of_nat ((table_size t STSC_ID * 3 + 4) * 4)
      else (4 + 3) * 4)"

definition stsc_entries :: "u32 list \<Rightarrow> calls" where
  "stsc_entries vs =
     concat (map (\<lambda>(n, v). put_be32_cache (of_nat n + 1) @ put_be32_cache v @ put_be32_cache 1)
       (zip [0..<length vs] vs))"

definition mov_write_stsc_tag :: "MOVContext \<Rightarrow> nat \<Rightarrow> calls option" where
  "mov_write_stsc_tag m i =
     (let t = tracks m i;
          head = put_be32_cache (movGetStscTagSize t) @ put_tag_cache ''stsc'' @ put_be32_cache 0
      in if codec_id (enc t) = CODEC_ID_GGAD
         then Some (head @ put_be32_cache 1 @ put_be32_cache 1 @ put_be32_cache 1 @ put_be32_cache 1)
         else do {
           vs \<leftarrow> read_table STSC_ID m i;
           Some (head @ put_be32_cache (of_nat (table_size t STSC_ID)) @ stsc_entries vs)
         })"

definition movGetStssTagSize :: "MOVTrack \<Rightarrow> u32" where
  "movGetStssTagSize t = of_nat ((keyFrame_num t + 4) * 4)"

definition mov_write_stss_tag :: "MOVContext \<Rightarrow> nat \<Rightarrow> calls" where
  "mov_write_stss_tag m i =
     (let t = tracks m i
      in put_be32_cache (movGetStssTagSize t) @ put_tag_cache ''stss'' @ put_be32_cache 0 @
         put_be32_cache (of_nat (keyFrame_num t)) @
         put_all (map (cache_keyframe m) [0..<keyFrame_num t]))"

text \<open>
  The box of the durations leaves the first one out, which belongs to the frame before the first,
  and ends with a duration of zero.
\<close>

definition movGetSttsTagSize :: "MOVTrack \<Rightarrow> u32" where
  "movGetSttsTagSize t =
     (case codec_type (enc t) of
        CODEC_TYPE_AUDIO \<Rightarrow> 16 + 1 * 8
      | CODEC_TYPE_VIDEO \<Rightarrow> 16 + of_nat (table_size t STTS_ID) * 8
      | CODEC_TYPE_TEXT \<Rightarrow> 16 + 1 * 8)"

definition mov_write_stts_tag :: "MOVContext \<Rightarrow> nat \<Rightarrow> calls option" where
  "mov_write_stts_tag m i =
     (let t = tracks m i;
          head = put_be32_cache (movGetSttsTagSize t) @ put_tag_cache ''stts'' @ put_be32_cache 0
      in case codec_type (enc t) of
           CODEC_TYPE_AUDIO \<Rightarrow>
             Some (head @ put_be32_cache 1 @ put_be32_cache (of_nat (table_size t STSZ_ID)) @
                   put_be32_cache (if codec_id (enc t) = CODEC_ID_PCM then 1 else frame_size (enc t)))
         | CODEC_TYPE_TEXT \<Rightarrow>
             Some (head @ put_be32_cache 1 @ put_be32_cache (of_nat (table_size t STSZ_ID)) @
                   put_be32_cache (track_timescale t))
         | CODEC_TYPE_VIDEO \<Rightarrow> do {
             vs \<leftarrow> read_table STTS_ID m i;
             Some (head @ put_be32_cache (of_nat (table_size t STTS_ID)) @
                   concat (map (\<lambda>v. put_be32_cache 1 @ put_be32_cache v) (tl vs)) @
                   put_be32_cache 1 @ put_be32_cache 0)
           })"

section \<open>Descriptors\<close>

text \<open>\<open>for (i=1; len>>(7*i); i++);\<close> -- five steps leave nothing of 32 bits.\<close>

fun descr_len :: "nat \<Rightarrow> nat \<Rightarrow> u32 \<Rightarrow> nat" where
  "descr_len 0 i len = i"
| "descr_len (Suc fuel) i len = (if drop_bit (7 * i) len \<noteq> 0 then descr_len fuel (i + 1) len else i)"

definition descrLength :: "u32 \<Rightarrow> u32" where
  "descrLength len = len + 1 + of_nat (descr_len 5 1 len)"

definition putDescr_cache :: "u32 \<Rightarrow> u32 \<Rightarrow> calls" where
  "putDescr_cache tg sz =
     (let i = unat (descrLength sz - sz - 2)
      in put_byte_cache tg @
         concat (map (\<lambda>k. put_byte_cache (or (drop_bit (7 * k) sz) 0x80)) (rev [1..<i + 1])) @
         put_byte_cache (and sz 0x7F))"

definition dsi_len :: "MOVTrack \<Rightarrow> u32" where
  "dsi_len t = (if vosData t \<noteq> [] then descrLength (of_nat (length (vosData t))) else 0)"

definition movGetEsdsTagSize :: "MOVTrack \<Rightarrow> u32" where
  "movGetEsdsTagSize t =
     12 + descrLength (3 + descrLength (13 + dsi_len t) + descrLength 1)"

definition mov_write_esds_tag :: "MOVTrack \<Rightarrow> calls" where
  "mov_write_esds_tag t =
     put_be32_cache (movGetEsdsTagSize t) @ put_tag_cache ''esds'' @ put_be32_cache 0 @
     putDescr_cache 0x03 (3 + descrLength (13 + dsi_len t) + descrLength 1) @
     put_be16_cache (trackID t) @ put_byte_cache 0 @
     putDescr_cache 0x04 (13 + dsi_len t) @
     put_byte_cache (codec_num (codec_id (enc t))) @
     put_byte_cache (if codec_type (enc t) = CODEC_TYPE_AUDIO then 0x15 else 0x11) @
     put_byte_cache 0 @ put_be16_cache 0 @ put_be32_cache 0 @ put_be32_cache 0 @
     (if vosData t \<noteq> []
      then putDescr_cache 0x05 (of_nat (length (vosData t))) @ put_buffer_cache (vosData t) else []) @
     putDescr_cache 0x06 1 @ put_byte_cache 0x02"

section \<open>Sample descriptions\<close>

definition MKTAG :: "char \<Rightarrow> char \<Rightarrow> char \<Rightarrow> char \<Rightarrow> u32" where
  "MKTAG a b c d = or (of_char a) (or (push_bit 8 (of_char b)) (or (push_bit 16 (of_char c)) (push_bit 24 (of_char d))))"

definition mov_find_codec_tag :: "MOVTrack \<Rightarrow> u32" where
  "mov_find_codec_tag t =
     (case codec_id (enc t) of
        CODEC_ID_H264 \<Rightarrow> MKTAG (CHR ''a'') (CHR ''v'') (CHR ''c'') (CHR ''1'')
      | CODEC_ID_H265 \<Rightarrow> MKTAG (CHR ''h'') (CHR ''v'') (CHR ''c'') (CHR ''1'')
      | CODEC_ID_MPEG4 \<Rightarrow> MKTAG (CHR ''m'') (CHR ''p'') (CHR ''4'') (CHR ''v'')
      | CODEC_ID_AAC \<Rightarrow> MKTAG (CHR ''m'') (CHR ''p'') (CHR ''4'') (CHR ''a'')
      | CODEC_ID_PCM \<Rightarrow> MKTAG (CHR ''s'') (CHR ''o'') (CHR ''w'') (CHR ''t'')
      | CODEC_ID_ADPCM \<Rightarrow> MKTAG (CHR ''m'') (CHR ''s'') (CHR 0x00) (CHR 0x11)
      | CODEC_ID_MJPEG \<Rightarrow> MKTAG (CHR ''m'') (CHR ''j'') (CHR ''p'') (CHR ''a'')
      | CODEC_ID_GGAD \<Rightarrow> MKTAG (CHR ''t'') (CHR ''e'') (CHR ''x'') (CHR ''t'')
      | _ \<Rightarrow> codec_tag (enc t))"

definition TAG_avc1 :: u32 where "TAG_avc1 = MKTAG (CHR ''a'') (CHR ''v'') (CHR ''c'') (CHR ''1'')"
definition TAG_mp4v :: u32 where "TAG_mp4v = MKTAG (CHR ''m'') (CHR ''p'') (CHR ''4'') (CHR ''v'')"
definition TAG_hvc1 :: u32 where "TAG_hvc1 = MKTAG (CHR ''h'') (CHR ''v'') (CHR ''c'') (CHR ''1'')"
definition TAG_mp4a :: u32 where "TAG_mp4a = MKTAG (CHR ''m'') (CHR ''p'') (CHR ''4'') (CHR ''a'')"

text \<open>The parameter sets lie at the start of memory from \<open>malloc\<close>, so their address is aligned.\<close>

definition movGetAvccTagSize :: "MOVTrack \<Rightarrow> u32 option" where
  "movGetAvccTagSize t = do { n \<leftarrow> FFIsomGetAvccSize True 0 (vosData t); Some (8 + n) }"

definition movGetHvccTagSize :: "MOVTrack \<Rightarrow> u32" where
  "movGetHvccTagSize t = 8 + hvcc_size t"

definition mov_write_avcc_tag :: "MOVTrack \<Rightarrow> calls option" where
  "mov_write_avcc_tag t = do {
     n \<leftarrow> movGetAvccTagSize t;
     (r, c) \<leftarrow> ff_isom_write_avcc True 0 (vosData t);
     Some (put_be32_cache n @ put_tag_cache ''avcC'' @ c)
   }"

definition mov_write_hvcc_tag :: "MOVTrack \<Rightarrow> calls" where
  "mov_write_hvcc_tag t = put_be32_cache (movGetHvccTagSize t) @ put_tag_cache ''hvcC'' @ hvcc t"

definition movGetAudioTagSize :: "MOVTrack \<Rightarrow> u32" where
  "movGetAudioTagSize t =
     16 + 8 + 12 + (if codec_id (enc t) = CODEC_ID_ADPCM then 16 else 0) +
     (if tag t = TAG_mp4a then movGetEsdsTagSize t else 0)"

definition mov_write_audio_tag :: "MOVTrack \<Rightarrow> calls" where
  "mov_write_audio_tag t =
     (let version = (if codec_id (enc t) = CODEC_ID_ADPCM then 1 else 0);
          bytes = frame_size (enc t) * drop_bit 3 (bits_per_sample (enc t))
      in put_be32_cache (movGetAudioTagSize t) @ put_le32_cache (tag t) @
         put_be32_cache 0 @ put_be16_cache 0 @ put_be16_cache 1 @
         put_be16_cache version @ put_be16_cache 0 @ put_be32_cache 0 @
         put_be16_cache (channels (enc t)) @ put_be16_cache (bits_per_sample (enc t)) @ put_be16_cache 0 @
         put_be16_cache 0 @ put_be16_cache (sample_rate (enc t)) @ put_be16_cache 0 @
         (if version = 1
          then put_be32_cache (frame_size (enc t)) @ put_be32_cache bytes @
               put_be32_cache (bytes * channels (enc t)) @ put_be32_cache 2
          else []) @
         (if tag t = TAG_mp4a then mov_write_esds_tag t else []))"

definition movGetTextTagSize :: u32 where
  "movGetTextTagSize = 75"

definition mov_write_text_tag :: "MOVTrack \<Rightarrow> calls" where
  "mov_write_text_tag t =
     put_be32_cache movGetTextTagSize @ put_le32_cache (tag t) @ put_be32_cache 0 @ put_be32_cache 1 @
     put_be32_cache 0x6000 @ put_be32_cache 1 @ put_be32_cache 0 @ put_be32_cache 0 @ put_be32_cache 0 @
     put_be32_cache 0 @ put_be32_cache 0 @ put_be32_cache 0 @ put_be32_cache 0 @ put_be32_cache 0 @
     put_be24_cache 0 @ put_buffer_cache (tag_bytes ''AllWinner custom'')"

definition movGetVideoTagSize :: "MOVTrack \<Rightarrow> u32 option" where
  "movGetVideoTagSize t = do {
     n \<leftarrow> (if tag t = TAG_avc1 then movGetAvccTagSize t
          else if tag t = TAG_mp4v then Some (movGetEsdsTagSize t)
          else if tag t = TAG_hvc1 then Some (movGetHvccTagSize t)
          else Some 0);
     Some (16 + 4 + 12 + 18 + 32 + 4 + n)
   }"

definition mov_write_video_tag :: "MOVTrack \<Rightarrow> calls option" where
  "mov_write_video_tag t = do {
     n \<leftarrow> movGetVideoTagSize t;
     c \<leftarrow> (if tag t = TAG_avc1 then mov_write_avcc_tag t
          else if tag t = TAG_mp4v then Some (mov_write_esds_tag t)
          else if tag t = TAG_hvc1 then Some (mov_write_hvcc_tag t)
          else Some []);
     Some (put_be32_cache n @ put_le32_cache (tag t) @
           put_be32_cache 0 @ put_be16_cache 0 @ put_be16_cache 1 @
           put_be16_cache 0 @ put_be16_cache 0 @ put_be32_cache 0 @ put_be32_cache 0 @ put_be32_cache 0 @
           put_be16_cache (width (enc t)) @ put_be16_cache (height (enc t)) @
           put_be32_cache 0x00480000 @ put_be32_cache 0x00480000 @ put_be32_cache 0 @ put_be16_cache 1 @
           put_byte_cache 0 @ put_buffer_cache (replicate 31 0) @
           put_be16_cache 0x18 @ put_be16_cache 0xffff @ c)
   }"

definition movGetStsdTagSize :: "MOVTrack \<Rightarrow> u32 option" where
  "movGetStsdTagSize t = do {
     n \<leftarrow> (case codec_type (enc t) of
            CODEC_TYPE_VIDEO \<Rightarrow> movGetVideoTagSize t
          | CODEC_TYPE_AUDIO \<Rightarrow> Some (movGetAudioTagSize t)
          | CODEC_TYPE_TEXT \<Rightarrow> Some movGetTextTagSize);
     Some (16 + n)
   }"

definition mov_write_stsd_tag :: "MOVTrack \<Rightarrow> calls option" where
  "mov_write_stsd_tag t = do {
     n \<leftarrow> movGetStsdTagSize t;
     c \<leftarrow> (case codec_type (enc t) of
            CODEC_TYPE_VIDEO \<Rightarrow> mov_write_video_tag t
          | CODEC_TYPE_AUDIO \<Rightarrow> Some (mov_write_audio_tag t)
          | CODEC_TYPE_TEXT \<Rightarrow> Some (mov_write_text_tag t));
     Some (put_be32_cache n @ put_tag_cache ''stsd'' @ put_be32_cache 0 @ put_be32_cache 1 @ c)
   }"

section \<open>The boxes of a track\<close>

definition movGetDrefTagSize :: u32 where "movGetDrefTagSize = 28"

definition mov_write_dref_tag :: calls where
  "mov_write_dref_tag =
     put_be32_cache movGetDrefTagSize @ put_tag_cache ''dref'' @ put_be32_cache 0 @ put_be32_cache 1 @
     put_be32_cache 0xc @ put_tag_cache ''url '' @ put_be32_cache 1"

definition movGetStblTagSize :: "MOVTrack \<Rightarrow> u32 option" where
  "movGetStblTagSize t = do {
     n \<leftarrow> movGetStsdTagSize t;
     Some (8 + n + movGetSttsTagSize t +
           (if codec_type (enc t) = CODEC_TYPE_VIDEO then movGetStssTagSize t else 0) +
           movGetStscTagSize t + movGetStszTagSize t + movGetStcoTagSize t)
   }"

definition mov_write_stbl_tag :: "MOVContext \<Rightarrow> nat \<Rightarrow> calls option" where
  "mov_write_stbl_tag m i =
     (let t = tracks m i
      in do {
        n \<leftarrow> movGetStblTagSize t;
        stsd \<leftarrow> mov_write_stsd_tag t;
        stts \<leftarrow> mov_write_stts_tag m i;
        stsc \<leftarrow> mov_write_stsc_tag m i;
        stsz \<leftarrow> mov_write_stsz_tag m i;
        stco \<leftarrow> mov_write_stco_tag m i;
        Some (put_be32_cache n @ put_tag_cache ''stbl'' @ stsd @ stts @
              (if codec_type (enc t) = CODEC_TYPE_VIDEO then mov_write_stss_tag m i else []) @
              stsc @ stsz @ stco)
      })"

definition movGetDinfTagSize :: u32 where "movGetDinfTagSize = 8 + movGetDrefTagSize"

definition mov_write_dinf_tag :: calls where
  "mov_write_dinf_tag = put_be32_cache movGetDinfTagSize @ put_tag_cache ''dinf'' @ mov_write_dref_tag"

definition movGetSmhdTagSize :: u32 where "movGetSmhdTagSize = 16"

definition mov_write_smhd_tag :: calls where
  "mov_write_smhd_tag =
     put_be32_cache movGetSmhdTagSize @ put_tag_cache ''smhd'' @ put_be32_cache 0 @
     put_be16_cache 0 @ put_be16_cache 0"

definition movGetGminTagSize :: u32 where "movGetGminTagSize = 0x18"

definition mov_write_gmin_tag :: calls where
  "mov_write_gmin_tag =
     put_be32_cache movGetGminTagSize @ put_tag_cache ''gmin'' @ put_be32_cache 0 @
     put_be16_cache 0x40 @ put_be16_cache 0x8000 @ put_be32_cache 0x80008000 @
     put_be16_cache 0 @ put_be16_cache 0"

definition movGetGmhdTextTagSize :: u32 where "movGetGmhdTextTagSize = 0x2c"

definition mov_write_gmhd_text_tag :: calls where
  "mov_write_gmhd_text_tag =
     put_be32_cache movGetGmhdTextTagSize @ put_tag_cache ''text'' @
     put_be32_cache 0x01000000 @ put_be32_cache 0 @ put_be32_cache 0 @ put_be32_cache 0 @
     put_be32_cache 0x01000000 @ put_be32_cache 0 @ put_be32_cache 0 @ put_be32_cache 0 @
     put_be32_cache 0x400000"

definition movGetGmhdTagSize :: u32 where
  "movGetGmhdTagSize = 8 + movGetGminTagSize + movGetGmhdTextTagSize"

definition mov_write_gmhd_tag :: calls where
  "mov_write_gmhd_tag =
     put_be32_cache movGetGmhdTagSize @ put_tag_cache ''gmhd'' @ mov_write_gmin_tag @ mov_write_gmhd_text_tag"

definition movGetVmhdTagSize :: u32 where "movGetVmhdTagSize = 0x14"

definition mov_write_vmhd_tag :: calls where
  "mov_write_vmhd_tag =
     put_be32_cache movGetVmhdTagSize @ put_tag_cache ''vmhd'' @ put_be32_cache 1 @
     put_be32_cache 0 @ put_be32_cache 0"

text \<open>The handler; \<open>None\<close> is the data handler, a track that is null.\<close>

definition hdlr_descr :: "CodecType option \<Rightarrow> string" where
  "hdlr_descr ty =
     (case ty of
        None \<Rightarrow> ''DataHandler''
      | Some CODEC_TYPE_VIDEO \<Rightarrow> ''VideoHandler''
      | Some CODEC_TYPE_AUDIO \<Rightarrow> ''SoundHandler''
      | Some CODEC_TYPE_TEXT \<Rightarrow> ''TextHandler'')"

definition movGetHdlrTagSize :: "CodecType option \<Rightarrow> u32" where
  "movGetHdlrTagSize ty = 32 + 1 + of_nat (length (hdlr_descr ty))"

definition mov_write_hdlr_tag :: "CodecType option \<Rightarrow> calls" where
  "mov_write_hdlr_tag ty =
     (let hdlr = (if ty = None then tag_bytes ''dhlr'' else [0, 0, 0, 0]);
          hdlr_type = (case ty of
              None \<Rightarrow> ''url ''
            | Some CODEC_TYPE_VIDEO \<Rightarrow> ''vide''
            | Some CODEC_TYPE_AUDIO \<Rightarrow> ''soun''
            | Some CODEC_TYPE_TEXT \<Rightarrow> ''text'')
      in put_be32_cache (movGetHdlrTagSize ty) @ put_tag_cache ''hdlr'' @ put_be32_cache 0 @
         put_buffer_cache hdlr @ put_tag_cache hdlr_type @
         put_be32_cache 0 @ put_be32_cache 0 @ put_be32_cache 0 @
         put_byte_cache (of_nat (length (hdlr_descr ty))) @ put_buffer_cache (tag_bytes (hdlr_descr ty)))"

definition media_header :: "CodecType \<Rightarrow> calls" where
  "media_header ty =
     (case ty of CODEC_TYPE_VIDEO \<Rightarrow> mov_write_vmhd_tag
      | CODEC_TYPE_AUDIO \<Rightarrow> mov_write_smhd_tag | CODEC_TYPE_TEXT \<Rightarrow> mov_write_gmhd_tag)"

definition movGetMinfTagSize :: "MOVTrack \<Rightarrow> u32 option" where
  "movGetMinfTagSize t = do {
     n \<leftarrow> movGetStblTagSize t;
     Some (8 + (case codec_type (enc t) of CODEC_TYPE_VIDEO \<Rightarrow> movGetVmhdTagSize
                | CODEC_TYPE_AUDIO \<Rightarrow> movGetSmhdTagSize | CODEC_TYPE_TEXT \<Rightarrow> movGetGmhdTagSize) +
           movGetDinfTagSize + n)
   }"

definition mov_write_minf_tag :: "MOVContext \<Rightarrow> nat \<Rightarrow> calls option" where
  "mov_write_minf_tag m i = do {
     n \<leftarrow> movGetMinfTagSize (tracks m i);
     stbl \<leftarrow> mov_write_stbl_tag m i;
     Some (put_be32_cache n @ put_tag_cache ''minf'' @
           media_header (codec_type (enc (tracks m i))) @ mov_write_dinf_tag @ stbl)
   }"

definition movGetMdhdTagSize :: u32 where "movGetMdhdTagSize = 0x20"

definition mov_write_mdhd_tag :: "MOVTrack \<Rightarrow> calls" where
  "mov_write_mdhd_tag t =
     put_be32_cache movGetMdhdTagSize @ put_tag_cache ''mdhd'' @ put_byte_cache 0 @ put_be24_cache 0 @
     put_be32_cache (track_time t) @ put_be32_cache (track_time t) @
     put_be32_cache (track_timescale t) @ put_be32_cache (trackDuration t) @
     put_be16_cache 0 @ put_be16_cache 0"

definition movGetMdiaTagSize :: "MOVTrack \<Rightarrow> u32 option" where
  "movGetMdiaTagSize t = do {
     n \<leftarrow> movGetMinfTagSize t;
     Some (8 + movGetMdhdTagSize + movGetHdlrTagSize (Some (codec_type (enc t))) + n)
   }"

definition mov_write_mdia_tag :: "MOVContext \<Rightarrow> nat \<Rightarrow> calls option" where
  "mov_write_mdia_tag m i = do {
     n \<leftarrow> movGetMdiaTagSize (tracks m i);
     minf \<leftarrow> mov_write_minf_tag m i;
     Some (put_be32_cache n @ put_tag_cache ''mdia'' @ mov_write_mdhd_tag (tracks m i) @
           mov_write_hdlr_tag (Some (codec_type (enc (tracks m i)))) @ minf)
   }"

text \<open>\<open>None\<close> is the division by zero.\<close>

definition av_rescale_rnd :: "nat \<Rightarrow> nat \<Rightarrow> nat \<Rightarrow> u32 option" where
  "av_rescale_rnd a b c = (if c = 0 then None else Some (of_nat ((a * b + c - 1) div c)))"

definition movGetElstTagSize :: u32 where "movGetElstTagSize = 0x1c"

definition mov_write_elst_tag :: "MOVTrack \<Rightarrow> calls" where
  "mov_write_elst_tag t =
     put_be32_cache movGetElstTagSize @ put_tag_cache ''elst'' @ put_be32_cache 0 @ put_be32_cache 1 @
     put_be32_cache (frame_rate (enc t) * of_nat (table_size t STSZ_ID)) @
     put_be32_cache 0x010000 @ put_be32_cache 0x00010000"

definition movGetEdtsTagSize :: u32 where "movGetEdtsTagSize = 8 + movGetElstTagSize"

definition mov_write_edts_tag :: "MOVTrack \<Rightarrow> calls" where
  "mov_write_edts_tag t = put_be32_cache movGetEdtsTagSize @ put_tag_cache ''edts'' @ mov_write_elst_tag t"

definition movGetTkhdTagSize :: u32 where "movGetTkhdTagSize = 0x5c"

definition rotation :: "u32 \<Rightarrow> u32 \<times> u32 \<times> u32 \<times> u32" where
  "rotation degrees =
     (if degrees = 90 then (0, 0x00010000, 0xFFFF0000, 0)
      else if degrees = 180 then (0xFFFF0000, 0, 0, 0xFFFF0000)
      else if degrees = 270 then (0, 0xFFFF0000, 0x00010000, 0)
      else (0x00010000, 0, 0, 0x00010000))"

definition mov_write_tkhd_tag :: "MOVTrack \<Rightarrow> calls option" where
  "mov_write_tkhd_tag t = do {
     dur \<leftarrow> av_rescale_rnd (unat (trackDuration t)) 1000 (unat (track_timescale t));
     let (a, b, c, d) = rotation (rotate_degree (enc t));
     Some (put_be32_cache movGetTkhdTagSize @ put_tag_cache ''tkhd'' @ put_byte_cache 0 @ put_be24_cache 0xf @
           put_be32_cache (track_time t) @ put_be32_cache (track_time t) @
           put_be32_cache (trackID t) @ put_be32_cache 0 @ put_be32_cache dur @
           put_be32_cache 0 @ put_be32_cache 0 @ put_be32_cache 0 @
           put_be16_cache (if codec_type (enc t) = CODEC_TYPE_AUDIO then 0x0100 else 0) @ put_be16_cache 0 @
           put_be32_cache a @ put_be32_cache b @ put_be32_cache 0 @
           put_be32_cache c @ put_be32_cache d @ put_be32_cache 0 @
           put_be32_cache 0 @ put_be32_cache 0 @ put_be32_cache 0x40000000 @
           (if codec_type (enc t) = CODEC_TYPE_VIDEO
            then put_be32_cache (width (enc t) * 0x10000) @ put_be32_cache (height (enc t) * 0x10000)
            else put_be32_cache 0 @ put_be32_cache 0))
   }"

definition movGetTrakTagSize :: "MOVTrack \<Rightarrow> u32 option" where
  "movGetTrakTagSize t = do { n \<leftarrow> movGetMdiaTagSize t; Some (8 + movGetTkhdTagSize + n) }"

definition mov_write_trak_tag :: "MOVContext \<Rightarrow> nat \<Rightarrow> calls option" where
  "mov_write_trak_tag m i = do {
     n \<leftarrow> movGetTrakTagSize (tracks m i);
     tkhd \<leftarrow> mov_write_tkhd_tag (tracks m i);
     mdia \<leftarrow> mov_write_mdia_tag m i;
     Some (put_be32_cache n @ put_tag_cache ''trak'' @ tkhd @ mdia)
   }"

section \<open>The boxes of the recording\<close>

definition movGetMvhdTagSize :: u32 where "movGetMvhdTagSize = 108"

definition mov_write_mvhd_tag :: "MOVContext \<Rightarrow> calls" where
  "mov_write_mvhd_tag m =
     (let maxTrackID = fold (\<lambda>i x. if sint x < sint (trackID (tracks m i)) then trackID (tracks m i) else x)
                         [0..<nb_streams m] 1
      in put_be32_cache movGetMvhdTagSize @ put_tag_cache ''mvhd'' @ put_byte_cache 0 @ put_be24_cache 0 @
         put_be32_cache (create_time m) @ put_be32_cache (create_time m) @
         put_be32_cache (mov_timescale m) @ put_be32_cache (trackDuration (tracks m 0)) @
         put_be32_cache 0x00010000 @ put_be16_cache 0x0100 @ put_be16_cache 0 @
         put_be32_cache 0 @ put_be32_cache 0 @
         put_be32_cache 0x00010000 @ put_be32_cache 0 @ put_be32_cache 0 @ put_be32_cache 0 @
         put_be32_cache 0x00010000 @ put_be32_cache 0 @ put_be32_cache 0 @ put_be32_cache 0 @
         put_be32_cache 0x40000000 @
         put_be32_cache 0 @ put_be32_cache 0 @ put_be32_cache 0 @
         put_be32_cache 0 @ put_be32_cache 0 @ put_be32_cache 0 @
         put_be32_cache (maxTrackID + 1))"

text \<open>
  \<open>snprintf\<close> with the formats \<open>%.nd\<close> and \<open>%+.nd\<close>: at least \<open>n\<close> digits. Division truncates
  towards zero in C.
\<close>

fun dec_digits :: "nat \<Rightarrow> byte list" where
  "dec_digits n = (if n < 10 then [of_nat (48 + n)] else dec_digits (n div 10) @ [of_nat (48 + n mod 10)])"

declare dec_digits.simps [simp del]

definition dec_pad :: "nat \<Rightarrow> nat \<Rightarrow> byte list" where
  "dec_pad w n = replicate (w - length (dec_digits n)) 48 @ dec_digits n"

definition sign_byte :: "int \<Rightarrow> byte" where
  "sign_byte d = (if d < 0 then 45 else 43)"

definition degree_text :: "nat \<Rightarrow> int \<Rightarrow> byte list" where
  "degree_text w degreex10000 =
     (let wholePart = sgn degreex10000 * (\<bar>degreex10000\<bar> div 10000);
          str = (if wholePart = 0 then sign_byte degreex10000 # dec_pad w 0 @ [46]
                 else sign_byte wholePart # dec_pad w (nat \<bar>wholePart\<bar>) @ [46]);
          fractionalPart = nat \<bar>degreex10000 - wholePart * 10000\<bar>
      in take (w + 2) str @ take 4 (dec_pad 4 fractionalPart))"

definition writeLatitude :: "MOVContext \<Rightarrow> calls" where
  "writeLatitude m = put_buffer_cache (degree_text 2 (latitudex10000 m))"

definition writeLongitude :: "MOVContext \<Rightarrow> calls" where
  "writeLongitude m = put_buffer_cache (degree_text 3 (longitudex10000 m))"

definition movGetUdtaTagSize :: u32 where
  "movGetUdtaTagSize = 4 + 4 + 4 + 4 + 4 + 8 + 9 + 1"

definition mov_write_udta_tag :: "MOVContext \<Rightarrow> calls" where
  "mov_write_udta_tag m =
     put_be32_cache movGetUdtaTagSize @ put_tag_cache ''udta'' @
     put_be32_cache (movGetUdtaTagSize - 8) @ put_tag_cache (CHR 0xA9 # ''xyz'') @
     put_be32_cache 0x001215c7 @ writeLatitude m @ writeLongitude m @ put_byte_cache 0x2F"

definition movGetGpsTagSize :: "MOVContext \<Rightarrow> u32" where
  "movGetGpsTagSize m = 8 + 8 + of_nat (gps_entry_buff_wt m * 8)"

definition mov_write_gps_tag :: "MOVContext \<Rightarrow> calls option" where
  "mov_write_gps_tag m =
     (let head = put_be32_cache (movGetGpsTagSize m) @ put_tag_cache ''gps '' @ put_be32_cache 0x00000101 @
                 put_be32_cache (of_nat (gps_entry_buff_wt m))
      in if gps_entry_buff_wt m = 0 then Some head
         else case gps_entry_buff m of
             None \<Rightarrow> None
           | Some g \<Rightarrow> Some (head @ concat (map (\<lambda>i. put_be32_cache (fst (g i)) @ put_be32_cache (snd (g i)))
               [0..<gps_entry_buff_wt m])))"

fun trak_sizes :: "MOVContext \<Rightarrow> nat list \<Rightarrow> u32 option" where
  "trak_sizes m [] = Some 0"
| "trak_sizes m (i # is) =
     (if table_size (tracks m i) STSZ_ID > 0
      then do { n \<leftarrow> movGetTrakTagSize (tracks m i); r \<leftarrow> trak_sizes m is; Some (n + r) }
      else trak_sizes m is)"

fun write_traks :: "MOVContext \<Rightarrow> nat list \<Rightarrow> calls option" where
  "write_traks m [] = Some []"
| "write_traks m (i # is) =
     (if table_size (tracks m i) STSZ_ID > 0
      then do { c \<leftarrow> mov_write_trak_tag m i; r \<leftarrow> write_traks m is; Some (c @ r) }
      else write_traks m is)"

definition movGetMoovTagSize :: "MOVContext \<Rightarrow> u32 option" where
  "movGetMoovTagSize m = do {
     n \<leftarrow> trak_sizes m [0..<nb_streams m];
     Some (8 + (if geo_available m \<and> gps_pack_method m = GPS_PACK_IN_TRACK then movGetUdtaTagSize else 0) +
           movGetMvhdTagSize + n +
           (if geo_available m \<and> gps_pack_method m = GPS_PACK_IN_MDAT then movGetGpsTagSize m else 0))
   }"

text \<open>The fields that \<open>mov_write_moov_tag\<close> sets before it writes the tracks.\<close>

definition moov_fields :: "MOVContext \<Rightarrow> MOVContext" where
  "moov_fields m =
     m\<lparr>mov_timescale := 1000,
       tracks := \<lambda>i. if i < nb_streams m then (tracks m i)\<lparr>track_time := create_time m, trackID := of_nat i + 1\<rparr>
                     else tracks m i\<rparr>"

definition write_moov_box :: "MOVContext \<Rightarrow> calls option" where
  "write_moov_box m = do {
     moov_size \<leftarrow> movGetMoovTagSize m;
     let m1 = moov_fields m;
     traks \<leftarrow> write_traks m1 [0..<nb_streams m1];
     gps \<leftarrow> (if geo_available m \<and> gps_pack_method m = GPS_PACK_IN_MDAT then mov_write_gps_tag m1 else Some []);
     Some (put_be32_cache moov_size @ put_tag_cache ''moov'' @
           (if geo_available m \<and> gps_pack_method m = GPS_PACK_IN_TRACK then mov_write_udta_tag m1 else []) @
           mov_write_mvhd_tag m1 @ traks @ gps)
   }"

end
