(* ===== verification/Mp4Size.thy ===== *)
theory Mp4Size
  imports Mp4Box
begin

text \<open>
  The size that an MP4 box declares is the number of bytes written for it: for every box, the
  function that computes the size agrees with the function that writes the box, so a reader that
  follows the sizes finds the boxes inside. Sizes are compared modulo \<open>2 ^ 32\<close>, so no bound is
  needed; a box of 4 GiB or more could not be declared.
\<close>

named_theorems box_sizes \<open>the computed size is the number of bytes written\<close>

definition sized_calls :: "calls \<Rightarrow> u32" where
  "sized_calls c = of_nat (blen c)"

lemma sized_calls_append [simp]: "sized_calls (c @ d) = sized_calls c + sized_calls d"
  by (simp add: sized_calls_def)

lemma sized_calls_put [simp]:
  "sized_calls [] = 0"
  "sized_calls (put_buffer_cache b) = of_nat (length b)" "sized_calls (put_byte_cache v) = 1"
  "sized_calls (put_le32_cache v) = 4" "sized_calls (put_be32_cache v) = 4"
  "sized_calls (put_be16_cache v) = 2" "sized_calls (put_be24_cache v) = 3"
  "sized_calls (put_tag_cache t) = of_nat (length t)"
  by (simp_all add: sized_calls_def)

lemma sized_calls_if [simp]: "sized_calls (if b then c else d) = (if b then sized_calls c else sized_calls d)"
  by simp

lemma sized_calls_concat: "sized_calls (concat cs) = sum_list (map sized_calls cs)"
  by (induction cs) simp_all

lemma sized_put_all [simp]: "sized_calls (put_all vs) = 4 * of_nat (length vs)"
  by (induction vs) (simp_all add: put_all_def algebra_simps)

lemma sized_stsc_entries [simp]: "sized_calls (stsc_entries vs) = 12 * of_nat (length vs)"
proof -
  have "sized_calls (concat (map (\<lambda>(n, v). put_be32_cache (of_nat n + 1) @ put_be32_cache v @ put_be32_cache 1) ps)) =
    12 * of_nat (length ps)" for ps :: "(nat \<times> u32) list"
    by (induction ps) (auto simp: algebra_simps)
  then show ?thesis by (simp add: stsc_entries_def)
qed

section \<open>The sample tables\<close>

definition readable :: "MOVContext \<Rightarrow> nat \<Rightarrow> CHUNKID \<Rightarrow> bool" where
  "readable m i k \<longleftrightarrow> (\<exists>vs. read_table k m i = Some vs \<and> length vs = table_size (tracks m i) k)"

lemma length_ring_words: "ring_read cap w r p n = Some vs \<Longrightarrow> length vs = n"
  by (induction n arbitrary: p vs) (auto split: if_splits bind_splits)

lemma stco_size [box_sizes]:
  "mov_write_stco_tag m i = Some c \<Longrightarrow>
    codec_id (enc (tracks m i)) = CODEC_ID_GGAD \<or> readable m i STCO_ID \<Longrightarrow>
    sized_calls c = movGetStcoTagSize (tracks m i)"
  by (auto simp: mov_write_stco_tag_def movGetStcoTagSize_def readable_def read_ring_def Let_def
      split: bind_splits if_splits dest: length_ring_words)

lemma stsz_size [box_sizes]:
  "mov_write_stsz_tag m i = Some c \<Longrightarrow>
    codec_id (enc (tracks m i)) \<in> {CODEC_ID_PCM, CODEC_ID_GGAD} \<or> readable m i STSZ_ID \<Longrightarrow>
    sized_calls c = movGetStszTagSize (tracks m i)"
  by (auto simp: mov_write_stsz_tag_def movGetStszTagSize_def readable_def read_ring_def Let_def
      split: bind_splits if_splits dest: length_ring_words)

lemma stsc_size [box_sizes]:
  "mov_write_stsc_tag m i = Some c \<Longrightarrow>
    codec_id (enc (tracks m i)) = CODEC_ID_GGAD \<or> readable m i STSC_ID \<Longrightarrow>
    sized_calls c = movGetStscTagSize (tracks m i)"
  by (auto simp: mov_write_stsc_tag_def movGetStscTagSize_def readable_def Let_def
      split: bind_splits if_splits)

lemma stss_size [box_sizes]: "sized_calls (mov_write_stss_tag m i) = movGetStssTagSize (tracks m i)"
  by (simp add: mov_write_stss_tag_def movGetStssTagSize_def Let_def)

lemma stts_size [box_sizes]:
  assumes "mov_write_stts_tag m i = Some c" "readable m i STTS_ID"
    and "codec_type (enc (tracks m i)) = CODEC_TYPE_VIDEO \<Longrightarrow> 0 < table_size (tracks m i) STTS_ID"
  shows "sized_calls c = movGetSttsTagSize (tracks m i)"
proof -
  have "sized_calls (concat (map (\<lambda>v. put_be32_cache 1 @ put_be32_cache v) ws)) = 8 * of_nat (length ws)" for ws
    by (induction ws) (auto simp: algebra_simps)
  moreover have "8 * (of_nat (length (tl vs)) :: u32) + 8 = 8 * of_nat (length vs)" if "0 < length vs" for vs :: "u32 list"
    using that by (cases vs) (simp_all add: algebra_simps)
  ultimately show ?thesis
    using assms by (auto simp: mov_write_stts_tag_def movGetSttsTagSize_def readable_def Let_def algebra_simps
        split: bind_splits CodecType.splits)
qed

section \<open>Descriptors and sample descriptions\<close>

lemma descr_len_range: "i \<le> descr_len fuel i len \<and> descr_len fuel i len \<le> i + fuel"
  by (induction fuel i len rule: descr_len.induct) auto

lemma sized_bytes: "sized_calls (concat (map (\<lambda>k. put_byte_cache (g k)) ks)) = of_nat (length ks)"
  by (induction ks) simp_all

lemma descr_size: "sized_calls (putDescr_cache tg sz) = descrLength sz - sz"
proof -
  let ?d = "descr_len 5 1 sz"
  have d: "1 \<le> ?d" "?d \<le> 6" using descr_len_range [of 1 5 sz] by auto
  have "descrLength sz - sz - 2 = of_nat (?d - 1)" using d by (simp add: descrLength_def of_nat_diff)
  moreover have "unat (of_nat (?d - 1) :: u32) = ?d - 1"
    using d by (simp only: unat_of_nat) simp
  ultimately have i: "unat (descrLength sz - sz - 2) = ?d - 1" by simp
  have "sized_calls (putDescr_cache tg sz) = 1 + of_nat (?d - 1) + 1"
    unfolding putDescr_cache_def i Let_def sized_calls_append sized_bytes by simp
  then show ?thesis using d by (simp add: descrLength_def of_nat_diff)
qed

lemma esds_size [box_sizes]: "sized_calls (mov_write_esds_tag t) = movGetEsdsTagSize t"
  by (cases "vosData t = []")
    (simp_all add: mov_write_esds_tag_def movGetEsdsTagSize_def dsi_len_def descr_size algebra_simps)

text \<open>The parameter sets are ones for which the two passes of avc.c and hevc.c agree.\<close>

definition vos_ok :: "MOVTrack \<Rightarrow> bool" where
  "vos_ok t \<longleftrightarrow>
     (tag t = TAG_avc1 \<longrightarrow>
        (\<exists>n r c. FFIsomGetAvccSize True 0 (vosData t) = Some n \<and>
           ff_isom_write_avcc True 0 (vosData t) = Some (r, c) \<and> sized_calls c = n)) \<and>
     (tag t = TAG_hvc1 \<longrightarrow> sized_calls (hvcc t) = hvcc_size t)"

lemma avcc_tag_size:
  assumes "vos_ok t" "tag t = TAG_avc1"
  obtains n c where "movGetAvccTagSize t = Some n" "mov_write_avcc_tag t = Some c" "sized_calls c = n"
  using assms that by (auto simp: vos_ok_def movGetAvccTagSize_def mov_write_avcc_tag_def)

lemma hvcc_tag_size: "vos_ok t \<Longrightarrow> tag t = TAG_hvc1 \<Longrightarrow> sized_calls (mov_write_hvcc_tag t) = movGetHvccTagSize t"
  by (simp add: vos_ok_def mov_write_hvcc_tag_def movGetHvccTagSize_def)

lemma audio_size [box_sizes]: "sized_calls (mov_write_audio_tag t) = movGetAudioTagSize t"
  by (simp add: mov_write_audio_tag_def movGetAudioTagSize_def Let_def box_sizes)

lemma text_size [box_sizes]: "sized_calls (mov_write_text_tag t) = movGetTextTagSize"
  by (simp add: mov_write_text_tag_def movGetTextTagSize_def)

lemma video_size:
  assumes "vos_ok t"
  obtains n c where "movGetVideoTagSize t = Some n" "mov_write_video_tag t = Some c" "sized_calls c = n"
proof (cases "tag t = TAG_avc1")
  case True
  from avcc_tag_size [OF assms True] obtain n c
    where "movGetAvccTagSize t = Some n" "mov_write_avcc_tag t = Some c" "sized_calls c = n" .
  then show thesis using True that by (auto simp: movGetVideoTagSize_def mov_write_video_tag_def)
next
  case False
  then have "\<exists>n c. movGetVideoTagSize t = Some n \<and> mov_write_video_tag t = Some c \<and> sized_calls c = n"
    using hvcc_tag_size [OF assms]
    by (cases "tag t = TAG_mp4v"; cases "tag t = TAG_hvc1")
      (simp_all add: movGetVideoTagSize_def mov_write_video_tag_def box_sizes)
  then show thesis using that by blast
qed

lemma stsd_size:
  assumes "vos_ok t"
  obtains n c where "movGetStsdTagSize t = Some n" "mov_write_stsd_tag t = Some c" "sized_calls c = n"
proof -
  from video_size [OF assms] obtain n c
    where "movGetVideoTagSize t = Some n" "mov_write_video_tag t = Some c" "sized_calls c = n" .
  then show thesis
    using that by (cases "codec_type (enc t)") (auto simp: movGetStsdTagSize_def mov_write_stsd_tag_def box_sizes)
qed

section \<open>The boxes of a track\<close>

lemma leaf_sizes [box_sizes]:
  "sized_calls mov_write_dref_tag = movGetDrefTagSize" "sized_calls mov_write_dinf_tag = movGetDinfTagSize"
  "sized_calls mov_write_smhd_tag = movGetSmhdTagSize" "sized_calls mov_write_gmin_tag = movGetGminTagSize"
  "sized_calls mov_write_gmhd_text_tag = movGetGmhdTextTagSize" "sized_calls mov_write_gmhd_tag = movGetGmhdTagSize"
  "sized_calls mov_write_vmhd_tag = movGetVmhdTagSize" "sized_calls (mov_write_mdhd_tag t) = movGetMdhdTagSize"
  "sized_calls (mov_write_elst_tag t) = movGetElstTagSize" "sized_calls (mov_write_edts_tag t) = movGetEdtsTagSize"
  by (simp_all add: mov_write_dref_tag_def movGetDrefTagSize_def mov_write_dinf_tag_def movGetDinfTagSize_def
      mov_write_smhd_tag_def movGetSmhdTagSize_def mov_write_gmin_tag_def movGetGminTagSize_def
      mov_write_gmhd_text_tag_def movGetGmhdTextTagSize_def mov_write_gmhd_tag_def movGetGmhdTagSize_def
      mov_write_vmhd_tag_def movGetVmhdTagSize_def mov_write_mdhd_tag_def movGetMdhdTagSize_def
      mov_write_elst_tag_def movGetElstTagSize_def mov_write_edts_tag_def movGetEdtsTagSize_def)

lemma hdlr_size [box_sizes]: "sized_calls (mov_write_hdlr_tag ty) = movGetHdlrTagSize ty"
  by (auto simp: mov_write_hdlr_tag_def movGetHdlrTagSize_def hdlr_descr_def split: option.split CodecType.split)

lemma tkhd_size [box_sizes]: "mov_write_tkhd_tag t = Some c \<Longrightarrow> sized_calls c = movGetTkhdTagSize"
  by (auto simp: mov_write_tkhd_tag_def movGetTkhdTagSize_def split: bind_splits prod.splits)

lemma mvhd_size [box_sizes]: "sized_calls (mov_write_mvhd_tag m) = movGetMvhdTagSize"
  by (simp add: mov_write_mvhd_tag_def movGetMvhdTagSize_def Let_def)

text \<open>
  The tables that the boxes of a track read can be read: the box of a PCM track has no sizes, and
  the boxes of GPS text read the rings only and count no chunks.
\<close>

definition tables_present :: "MOVContext \<Rightarrow> nat \<Rightarrow> bool" where
  "tables_present m i \<longleftrightarrow>
     (let c = codec_id (enc (tracks m i))
      in (if c = CODEC_ID_GGAD then read_ring STCO_ID m i \<noteq> None \<and> read_ring STSZ_ID m i \<noteq> None
          else readable m i STCO_ID \<and> readable m i STSC_ID \<and> (c \<noteq> CODEC_ID_PCM \<longrightarrow> readable m i STSZ_ID)) \<and>
         (codec_type (enc (tracks m i)) = CODEC_TYPE_VIDEO \<longrightarrow>
            readable m i STTS_ID \<and> 0 < table_size (tracks m i) STTS_ID))"

text \<open>A track of a coded format, whose sizes are in the table.\<close>

definition track_ok :: "MOVContext \<Rightarrow> nat \<Rightarrow> bool" where
  "track_ok m i \<longleftrightarrow>
     vos_ok (tracks m i) \<and> track_timescale (tracks m i) \<noteq> 0 \<and>
     codec_id (enc (tracks m i)) \<notin> {CODEC_ID_PCM, CODEC_ID_GGAD} \<and>
     readable m i STCO_ID \<and> readable m i STSZ_ID \<and> readable m i STSC_ID \<and>
     (codec_type (enc (tracks m i)) = CODEC_TYPE_VIDEO \<longrightarrow>
        readable m i STTS_ID \<and> 0 < table_size (tracks m i) STTS_ID)"

section \<open>Boxes as a reader sees them\<close>

definition box :: "string \<Rightarrow> byte list \<Rightarrow> byte list" where
  "box tg p = be32 (of_nat (8 + length p)) @ tag_bytes tg @ p"

lemma length_box: "length tg = 4 \<Longrightarrow> length (box tg p) = 8 + length p"
  by (simp add: box_def)

lemma box_written:
  assumes "length tg = 4" "n = 8 + sized_calls d"
  shows "bytes_of (put_be32_cache n @ put_tag_cache tg @ d) = box tg (bytes_of d)"
proof -
  have "n = of_nat (8 + length (concat d))" using assms(2) by (simp add: sized_calls_def blen_def)
  then show ?thesis by (simp add: box_def calls_simps)
qed

definition words32 :: "u32 list \<Rightarrow> byte list" where
  "words32 vs = concat (map be32 vs)"

lemma bytes_put_all [calls_simps]: "concat (put_all vs) = words32 vs"
  by (induction vs) (simp_all add: put_all_def words32_def calls_simps)

definition stsc_payload :: "u32 list \<Rightarrow> byte list" where
  "stsc_payload vs = concat (map (\<lambda>(n, v). be32 (of_nat n + 1) @ be32 v @ be32 1) (zip [0..<length vs] vs))"

lemma bytes_stsc_entries [calls_simps]: "concat (stsc_entries vs) = stsc_payload vs"
proof -
  have "concat (concat (map (\<lambda>(n, v). put_be32_cache (of_nat n + 1) @ put_be32_cache v @ put_be32_cache 1) ps)) =
    concat (map (\<lambda>(n, v). be32 (of_nat n + 1) @ be32 v @ be32 1) ps)" for ps :: "(nat \<times> u32) list"
    by (induction ps) (auto simp: calls_simps)
  then show ?thesis by (simp add: stsc_entries_def stsc_payload_def)
qed

text \<open>The boxes of a track that lead to the sample tables; the others only have to be boxes.\<close>

definition stbl_bytes :: "byte list \<Rightarrow> byte list \<Rightarrow> byte list \<Rightarrow> u32 list \<Rightarrow> u32 list \<Rightarrow> u32 list \<Rightarrow> byte list" where
  "stbl_bytes stsd stts stss cnts szs offs =
     box ''stbl'' (box ''stsd'' stsd @ box ''stts'' stts @ (if stss = [] then [] else box ''stss'' stss) @
       box ''stsc'' (be32 0 @ be32 (of_nat (length cnts)) @ stsc_payload cnts) @
       box ''stsz'' (be32 0 @ be32 0 @ be32 (of_nat (length szs)) @ words32 szs) @
       box ''stco'' (be32 0 @ be32 (of_nat (length offs)) @ words32 offs))"

definition trak_payload ::
  "byte list \<Rightarrow> byte list \<Rightarrow> byte list \<Rightarrow> string \<Rightarrow> byte list \<Rightarrow> byte list \<Rightarrow> byte list \<Rightarrow> byte list" where
  "trak_payload tkhd mdhd hdlr mh mhd dinf stbl =
     box ''tkhd'' tkhd @ box ''mdia'' (box ''mdhd'' mdhd @ box ''hdlr'' hdlr @
       box ''minf'' (box mh mhd @ box ''dinf'' dinf @ stbl))"

lemma stbl_written:
  assumes ok: "track_ok m i"
    and t: "read_table STSC_ID m i = Some cnts" "read_table STSZ_ID m i = Some szs" "read_table STCO_ID m i = Some offs"
  shows "\<exists>n c stsd stts stss. movGetStblTagSize (tracks m i) = Some n \<and> mov_write_stbl_tag m i = Some c \<and>
    sized_calls c = n \<and> bytes_of c = stbl_bytes stsd stts stss cnts szs offs"
proof -
  let ?t = "tracks m i"
  have r: "vos_ok ?t" "codec_id (enc ?t) \<noteq> CODEC_ID_PCM" "codec_id (enc ?t) \<noteq> CODEC_ID_GGAD"
    "readable m i STCO_ID" "readable m i STSZ_ID" "readable m i STSC_ID"
    using ok by (auto simp: track_ok_def)
  have l: "table_size ?t STSC_ID = length cnts" "table_size ?t STSZ_ID = length szs" "table_size ?t STCO_ID = length offs"
    using r(4-6) t by (auto simp: readable_def)
  from stsd_size [OF r(1)] obtain nd cd where
    d: "movGetStsdTagSize ?t = Some nd" "mov_write_stsd_tag ?t = Some cd" "sized_calls cd = nd" .
  obtain stsd where stsd: "cd = put_be32_cache nd @ put_tag_cache ''stsd'' @ stsd"
    using d(1,2) by (auto simp: mov_write_stsd_tag_def split: bind_splits)
  have "\<exists>ct. mov_write_stts_tag m i = Some ct \<and> sized_calls ct = movGetSttsTagSize ?t"
    using ok stts_size [of m i]
    by (cases "codec_type (enc ?t)")
      (auto simp: mov_write_stts_tag_def track_ok_def readable_def movGetSttsTagSize_def Let_def split: bind_splits)
  then obtain ct where ct: "mov_write_stts_tag m i = Some ct" "sized_calls ct = movGetSttsTagSize ?t" by blast
  obtain stts where stts: "ct = put_be32_cache (movGetSttsTagSize ?t) @ put_tag_cache ''stts'' @ stts"
    using ct(1) by (auto simp: mov_write_stts_tag_def Let_def split: bind_splits CodecType.splits)
  obtain stss where stss: "mov_write_stss_tag m i = put_be32_cache (movGetStssTagSize ?t) @ put_tag_cache ''stss'' @ stss"
    "bytes_of stss = be32 0 @ be32 (of_nat (keyFrame_num ?t)) @ words32 (map (cache_keyframe m) [0..<keyFrame_num ?t])"
    by (simp add: mov_write_stss_tag_def Let_def calls_simps)
  have b: "bytes_of cd = box ''stsd'' (bytes_of stsd)"
    unfolding stsd by (rule box_written) (use d(3) stsd in \<open>auto simp: algebra_simps\<close>)
  have bt: "bytes_of ct = box ''stts'' (bytes_of stts)"
    unfolding stts by (rule box_written) (use ct(2) stts in \<open>auto simp: algebra_simps\<close>)
  have bs: "bytes_of (mov_write_stss_tag m i) = box ''stss'' (bytes_of stss)"
    unfolding stss(1) by (rule box_written) (use stss_size [of m i] stss(1) in \<open>auto simp: algebra_simps\<close>)
  obtain cc where cc: "mov_write_stsc_tag m i = Some cc"
    "cc = put_be32_cache (movGetStscTagSize ?t) @ put_tag_cache ''stsc'' @ put_be32_cache 0 @
       put_be32_cache (of_nat (length cnts)) @ stsc_entries cnts"
    using r t l by (simp add: mov_write_stsc_tag_def Let_def)
  obtain cz where cz: "mov_write_stsz_tag m i = Some cz"
    "cz = put_be32_cache (movGetStszTagSize ?t) @ put_tag_cache ''stsz'' @ put_be32_cache 0 @ put_be32_cache 0 @
       put_be32_cache (of_nat (length szs)) @ put_all szs"
    using r t l by (simp add: mov_write_stsz_tag_def Let_def)
  obtain co where co: "mov_write_stco_tag m i = Some co"
    "co = put_be32_cache (movGetStcoTagSize ?t) @ put_tag_cache ''stco'' @ put_be32_cache 0 @
       put_be32_cache (of_nat (length offs)) @ put_all offs"
    using r t l by (simp add: mov_write_stco_tag_def Let_def)
  note sz = stsc_size [OF cc(1) disjI2 [OF r(6)]] stsz_size [OF cz(1) disjI2 [OF r(5)]]
    stco_size [OF co(1) disjI2 [OF r(4)]]
  have b2: "bytes_of cc = box ''stsc'' (be32 0 @ be32 (of_nat (length cnts)) @ stsc_payload cnts)"
    unfolding cc(2) by (subst box_written) (use sz(1) cc(2) in \<open>auto simp: calls_simps algebra_simps\<close>)
  have b3: "bytes_of cz = box ''stsz'' (be32 0 @ be32 0 @ be32 (of_nat (length szs)) @ words32 szs)"
    unfolding cz(2) by (subst box_written) (use sz(2) cz(2) in \<open>auto simp: calls_simps algebra_simps\<close>)
  have b4: "bytes_of co = box ''stco'' (be32 0 @ be32 (of_nat (length offs)) @ words32 offs)"
    unfolding co(2) by (subst box_written) (use sz(3) co(2) in \<open>auto simp: calls_simps algebra_simps\<close>)
  let ?stss = "if codec_type (enc ?t) = CODEC_TYPE_VIDEO then mov_write_stss_tag m i else []"
  let ?body = "cd @ ct @ ?stss @ cc @ cz @ co"
  obtain n where n: "movGetStblTagSize ?t = Some n" "n = 8 + sized_calls ?body"
    using d(1,3) ct(2) sz stss_size [of m i] by (simp add: movGetStblTagSize_def algebra_simps)
  have w: "mov_write_stbl_tag m i = Some (put_be32_cache n @ put_tag_cache ''stbl'' @ ?body)"
    using n(1) d(2) ct(1) cc(1) cz(1) co(1) by (simp add: mov_write_stbl_tag_def Let_def)
  have "bytes_of (put_be32_cache n @ put_tag_cache ''stbl'' @ ?body) =
    stbl_bytes (bytes_of stsd) (bytes_of stts) (if codec_type (enc ?t) = CODEC_TYPE_VIDEO then bytes_of stss else [])
      cnts szs offs"
    using stss(2) by (subst box_written [OF _ n(2)]) (simp_all add: stbl_bytes_def b bt bs b2 b3 b4 be32_def)
  moreover have "sized_calls (put_be32_cache n @ put_tag_cache ''stbl'' @ ?body) = n"
    using n(2) by simp
  ultimately show ?thesis using n(1) w by blast
qed

lemma media_header_box:
  "\<exists>mh p. bytes_of (media_header ty) = box mh p \<and> length mh = 4 \<and> mh \<noteq> ''dinf'' \<and> mh \<noteq> ''stbl''"
proof -
  have "bytes_of mov_write_vmhd_tag = box ''vmhd'' (be32 1 @ be32 0 @ be32 0)"
    by (simp add: mov_write_vmhd_tag_def movGetVmhdTagSize_def box_def calls_simps)
  moreover have "bytes_of mov_write_smhd_tag = box ''smhd'' (be32 0 @ [0, 0, 0, 0])"
    by (simp add: mov_write_smhd_tag_def movGetSmhdTagSize_def box_def calls_simps)
  moreover have "bytes_of mov_write_gmhd_tag = box ''gmhd'' (bytes_of (mov_write_gmin_tag @ mov_write_gmhd_text_tag))"
    unfolding mov_write_gmhd_tag_def by (rule box_written) (simp_all add: movGetGmhdTagSize_def box_sizes)
  ultimately show ?thesis
    by (cases ty) (simp_all add: media_header_def, fastforce+)
qed

lemma media_header_size [box_sizes]:
  "sized_calls (media_header ty) = (case ty of CODEC_TYPE_VIDEO \<Rightarrow> movGetVmhdTagSize
     | CODEC_TYPE_AUDIO \<Rightarrow> movGetSmhdTagSize | CODEC_TYPE_TEXT \<Rightarrow> movGetGmhdTagSize)"
  by (cases ty) (simp_all add: media_header_def box_sizes)

lemma box_of_calls:
  assumes "c = put_be32_cache n @ put_tag_cache tg @ d" "length tg = 4" "sized_calls c = n"
  shows "\<exists>p. bytes_of c = box tg p"
proof -
  have "n = 8 + sized_calls d" using assms by (simp add: algebra_simps)
  then show ?thesis using box_written [OF assms(2), of n d] assms(1) by blast
qed

lemma length_dec_pad: "w \<le> length (dec_pad w n)"
  by (simp add: dec_pad_def)

lemma degree_text_length: "length (degree_text w d) = w + 6"
  using length_dec_pad [of w] length_dec_pad [of 4] by (simp add: degree_text_def Let_def min_absorb2)

lemma udta_size [box_sizes]: "sized_calls (mov_write_udta_tag m) = movGetUdtaTagSize"
  by (simp add: mov_write_udta_tag_def movGetUdtaTagSize_def writeLatitude_def writeLongitude_def degree_text_length)

lemma plain_boxes:
  "\<exists>p. bytes_of mov_write_dinf_tag = box ''dinf'' p"
  "\<exists>p. bytes_of (mov_write_mdhd_tag t) = box ''mdhd'' p"
  "\<exists>p. bytes_of (mov_write_hdlr_tag ty) = box ''hdlr'' p"
  "mov_write_tkhd_tag t = Some c \<Longrightarrow> \<exists>p. bytes_of c = box ''tkhd'' p"
  "\<exists>p. bytes_of (mov_write_mvhd_tag m) = box ''mvhd'' p"
  "\<exists>p. bytes_of (mov_write_udta_tag m) = box ''udta'' p"
proof -
  show "\<exists>p. bytes_of mov_write_dinf_tag = box ''dinf'' p"
    by (rule box_of_calls [OF mov_write_dinf_tag_def]) (simp_all add: box_sizes)
  show "\<exists>p. bytes_of (mov_write_mdhd_tag t) = box ''mdhd'' p"
    by (rule box_of_calls [OF mov_write_mdhd_tag_def]) (simp_all add: box_sizes)
  show "\<exists>p. bytes_of (mov_write_hdlr_tag ty) = box ''hdlr'' p"
    by (rule box_of_calls [OF mov_write_hdlr_tag_def [unfolded Let_def]]) (simp_all add: box_sizes)
  show "\<exists>p. bytes_of (mov_write_mvhd_tag m) = box ''mvhd'' p"
    by (rule box_of_calls [OF mov_write_mvhd_tag_def [unfolded Let_def]]) (simp_all add: box_sizes)
  show "\<exists>p. bytes_of (mov_write_udta_tag m) = box ''udta'' p"
    by (rule box_of_calls [OF mov_write_udta_tag_def]) (simp_all add: box_sizes)
  assume c: "mov_write_tkhd_tag t = Some c"
  then obtain d where "c = put_be32_cache movGetTkhdTagSize @ put_tag_cache ''tkhd'' @ d"
    by (auto simp: mov_write_tkhd_tag_def split: bind_splits prod.splits)
  then show "\<exists>p. bytes_of c = box ''tkhd'' p"
    by (rule box_of_calls) (simp_all add: tkhd_size [OF c])
qed

lemma trak_around:
  assumes s: "movGetStblTagSize (tracks m i) = Some ns" "mov_write_stbl_tag m i = Some cs" "sized_calls cs = ns"
    and ts0: "track_timescale (tracks m i) \<noteq> 0"
  shows "\<exists>n c tkhd mdhd hdlr mh mhd dinf.
    movGetTrakTagSize (tracks m i) = Some n \<and> mov_write_trak_tag m i = Some c \<and> sized_calls c = n \<and>
    length mh = 4 \<and> mh \<noteq> ''dinf'' \<and> mh \<noteq> ''stbl'' \<and>
    bytes_of c = box ''trak'' (trak_payload tkhd mdhd hdlr mh mhd dinf (bytes_of cs))"
proof -
  let ?t = "tracks m i"
  let ?ty = "codec_type (enc ?t)"
  from media_header_box [of ?ty] obtain mh mhd where
    mh: "bytes_of (media_header ?ty) = box mh mhd" "length mh = 4" "mh \<noteq> ''dinf''" "mh \<noteq> ''stbl''" by blast
  from plain_boxes(1) obtain dinf where dinf: "bytes_of mov_write_dinf_tag = box ''dinf'' dinf" by blast
  from plain_boxes(2) [of ?t] obtain mdhd where mdhd: "bytes_of (mov_write_mdhd_tag ?t) = box ''mdhd'' mdhd" by blast
  from plain_boxes(3) [of "Some ?ty"] obtain hdlr where
    hdlr: "bytes_of (mov_write_hdlr_tag (Some ?ty)) = box ''hdlr'' hdlr" by blast
  let ?minf = "media_header ?ty @ mov_write_dinf_tag @ cs"
  obtain n1 where n1: "movGetMinfTagSize ?t = Some n1" "n1 = 8 + sized_calls ?minf"
    using s(1,3) by (cases ?ty) (simp_all add: movGetMinfTagSize_def box_sizes algebra_simps)
  have w1: "mov_write_minf_tag m i = Some (put_be32_cache n1 @ put_tag_cache ''minf'' @ ?minf)"
    using n1(1) s(2) by (simp add: mov_write_minf_tag_def)
  have b1: "bytes_of (put_be32_cache n1 @ put_tag_cache ''minf'' @ ?minf) =
      box ''minf'' (box mh mhd @ box ''dinf'' dinf @ bytes_of cs)"
    by (subst box_written [OF _ n1(2)]) (simp_all add: mh dinf)
  let ?cminf = "put_be32_cache n1 @ put_tag_cache ''minf'' @ ?minf"
  let ?mdia = "mov_write_mdhd_tag ?t @ mov_write_hdlr_tag (Some ?ty) @ ?cminf"
  obtain n2 where n2: "movGetMdiaTagSize ?t = Some n2" "n2 = 8 + sized_calls ?mdia"
    using n1 by (simp add: movGetMdiaTagSize_def box_sizes algebra_simps)
  have w2: "mov_write_mdia_tag m i = Some (put_be32_cache n2 @ put_tag_cache ''mdia'' @ ?mdia)"
    using n2(1) w1 by (simp add: mov_write_mdia_tag_def)
  have b2: "bytes_of (put_be32_cache n2 @ put_tag_cache ''mdia'' @ ?mdia) =
      box ''mdia'' (box ''mdhd'' mdhd @ box ''hdlr'' hdlr @
        box ''minf'' (box mh mhd @ box ''dinf'' dinf @ bytes_of cs))"
    using b1 by (subst box_written [OF _ n2(2)]) (simp_all add: mdhd hdlr)
  have ts: "unat (track_timescale ?t) \<noteq> 0" using ts0 by (simp add: unat_eq_zero)
  obtain tk where tk: "mov_write_tkhd_tag ?t = Some tk"
    using ts by (cases "rotation (rotate_degree (enc ?t))") (auto simp: mov_write_tkhd_tag_def av_rescale_rnd_def)
  from plain_boxes(4) [OF tk] obtain tkhd where tkhd: "bytes_of tk = box ''tkhd'' tkhd" by blast
  let ?cmdia = "put_be32_cache n2 @ put_tag_cache ''mdia'' @ ?mdia"
  obtain n3 where n3: "movGetTrakTagSize ?t = Some n3" "n3 = 8 + sized_calls (tk @ ?cmdia)"
    using n2 tkhd_size [OF tk] by (simp add: movGetTrakTagSize_def algebra_simps)
  have w3: "mov_write_trak_tag m i = Some (put_be32_cache n3 @ put_tag_cache ''trak'' @ tk @ ?cmdia)"
    using n3(1) tk w2 by (simp add: mov_write_trak_tag_def)
  have "bytes_of (put_be32_cache n3 @ put_tag_cache ''trak'' @ tk @ ?cmdia) =
      box ''trak'' (trak_payload tkhd mdhd hdlr mh mhd dinf (bytes_of cs))"
    using b2 by (subst box_written [OF _ n3(2)]) (simp_all add: tkhd trak_payload_def)
  moreover have "sized_calls (put_be32_cache n3 @ put_tag_cache ''trak'' @ tk @ ?cmdia) = n3"
    using n3(2) by simp
  ultimately show ?thesis using n3(1) w3 mh(2-4) by metis
qed

lemma trak_written:
  assumes ok: "track_ok m i"
    and t: "read_table STSC_ID m i = Some cnts" "read_table STSZ_ID m i = Some szs" "read_table STCO_ID m i = Some offs"
  shows "\<exists>n c tkhd mdhd hdlr mh mhd dinf stsd stts stss.
    movGetTrakTagSize (tracks m i) = Some n \<and> mov_write_trak_tag m i = Some c \<and> sized_calls c = n \<and>
    length mh = 4 \<and> mh \<noteq> ''dinf'' \<and> mh \<noteq> ''stbl'' \<and>
    bytes_of c = box ''trak'' (trak_payload tkhd mdhd hdlr mh mhd dinf (stbl_bytes stsd stts stss cnts szs offs))"
proof -
  from stbl_written [OF assms] obtain ns cs stsd stts stss where
    s: "movGetStblTagSize (tracks m i) = Some ns" "mov_write_stbl_tag m i = Some cs" "sized_calls cs = ns"
      "bytes_of cs = stbl_bytes stsd stts stss cnts szs offs" by blast
  have "track_timescale (tracks m i) \<noteq> 0" using ok by (simp add: track_ok_def)
  from trak_around [OF s(1-3) this] show ?thesis unfolding s(4) by blast
qed

section \<open>The declared size of a track, whatever its format\<close>

lemma stbl_declared:
  assumes v: "vos_ok (tracks m i)" and p: "tables_present m i"
  shows "\<exists>n c. movGetStblTagSize (tracks m i) = Some n \<and> mov_write_stbl_tag m i = Some c \<and> sized_calls c = n"
proof -
  let ?t = "tracks m i"
  from stsd_size [OF v] obtain nd cd where
    d: "movGetStsdTagSize ?t = Some nd" "mov_write_stsd_tag ?t = Some cd" "sized_calls cd = nd" .
  have "\<exists>ct. mov_write_stts_tag m i = Some ct"
    using p by (cases "codec_type (enc ?t)") (auto simp: mov_write_stts_tag_def tables_present_def readable_def Let_def)
  then obtain ct where ct: "mov_write_stts_tag m i = Some ct" by blast
  have st: "sized_calls ct = movGetSttsTagSize ?t"
  proof (cases "codec_type (enc ?t) = CODEC_TYPE_VIDEO")
    case True
    then show ?thesis using p stts_size [OF ct] by (auto simp: tables_present_def Let_def)
  next
    case False
    then show ?thesis using ct
      by (cases "codec_type (enc ?t)") (auto simp: mov_write_stts_tag_def movGetSttsTagSize_def Let_def)
  qed
  obtain cc where cc: "mov_write_stsc_tag m i = Some cc"
    using p by (auto simp: mov_write_stsc_tag_def tables_present_def readable_def Let_def split: if_splits)
  obtain cz where cz: "mov_write_stsz_tag m i = Some cz"
    using p by (cases "codec_id (enc ?t)") (auto simp: mov_write_stsz_tag_def tables_present_def readable_def Let_def)
  obtain co where co: "mov_write_stco_tag m i = Some co"
    using p by (auto simp: mov_write_stco_tag_def tables_present_def readable_def Let_def split: if_splits)
  have "sized_calls cc = movGetStscTagSize ?t" "sized_calls co = movGetStcoTagSize ?t"
    using stsc_size [OF cc] stco_size [OF co] p by (auto simp: tables_present_def Let_def split: if_splits)
  moreover have "sized_calls cz = movGetStszTagSize ?t"
    using stsz_size [OF cz] p by (auto simp: tables_present_def Let_def split: if_splits)
  ultimately show ?thesis
    using d ct st cc cz co stss_size [of m i]
    by (simp add: movGetStblTagSize_def mov_write_stbl_tag_def Let_def algebra_simps)
qed

lemma trak_declared:
  assumes "vos_ok (tracks m i)" "track_timescale (tracks m i) \<noteq> 0" "tables_present m i"
  shows "\<exists>n c. movGetTrakTagSize (tracks m i) = Some n \<and> mov_write_trak_tag m i = Some c \<and>
    of_nat (length (bytes_of c)) = n \<and> take 4 (bytes_of c) = be32 n"
proof -
  from stbl_declared [OF assms(1,3)] obtain ns cs where
    s: "movGetStblTagSize (tracks m i) = Some ns" "mov_write_stbl_tag m i = Some cs" "sized_calls cs = ns" by blast
  from trak_around [OF s assms(2)] obtain n c p where
    c: "movGetTrakTagSize (tracks m i) = Some n" "mov_write_trak_tag m i = Some c" "sized_calls c = n"
      "bytes_of c = box ''trak'' p" by blast
  have "n = of_nat (8 + length p)" using c(3,4) by (simp add: sized_calls_def blen_def length_box)
  then have "take 4 (bytes_of c) = be32 n" by (simp add: c(4) box_def)
  then show ?thesis using c by (auto simp: sized_calls_def blen_def)
qed

text \<open>A track of H.264 whose first start code has four bytes has the sizes of avc.c.\<close>

lemma avc1_vos_ok:
  assumes v: "vos_stream items sps pps" "fst (hd items) = 3" "vosData t = annexb items" and "tag t = TAG_avc1"
  shows "vos_ok t"
proof -
  from avcc_written [OF v(1), of 0] obtain c where
    c: "ff_isom_write_avcc True 0 (vosData t) = Some (0, c)" "concat c = avcc_record sps pps" unfolding v(3) .
  moreover have "sized_calls c = of_nat (length (avcc_record sps pps))"
    using c(2) by (simp add: sized_calls_def blen_def)
  moreover have "FFIsomGetAvccSize True 0 (vosData t) = Some (of_nat (length (avcc_record sps pps)))"
    using avcc_size [OF v(1,2), of 0] v(3) by simp
  moreover have "TAG_avc1 \<noteq> TAG_hvc1" by (simp add: TAG_avc1_def TAG_hvc1_def MKTAG_def of_char_def)
  ultimately show ?thesis using assms(4) by (auto simp: vos_ok_def)
qed

section \<open>The location\<close>

text \<open>A reader of a sign, \<open>w\<close> digits, a point and four digits, in ten-thousandths of a degree.\<close>

definition read_digits :: "byte list \<Rightarrow> nat" where
  "read_digits ds = foldl (\<lambda>n b. 10 * n + (unat b - 48)) 0 ds"

definition read_degrees :: "nat \<Rightarrow> byte list \<Rightarrow> int" where
  "read_degrees w bs =
     (if hd bs = 45 then - 1 else 1) *
     int (read_digits (take w (drop 1 bs)) * 10000 + read_digits (take 4 (drop (w + 2) bs)))"

lemma read_dec_digits: "read_digits (dec_digits n) = n"
proof (induction n rule: dec_digits.induct)
  case (1 n)
  have u: "unat (of_nat (48 + k) :: byte) - 48 = k" if "k < 10" for k
    using that by (simp only: unat_of_nat) simp
  show ?case
  proof (cases "n < 10")
    case True
    then show ?thesis using u [of n] by (subst dec_digits.simps) (simp add: read_digits_def)
  next
    case False
    then show ?thesis using 1 u [of "n mod 10"] by (subst dec_digits.simps) (simp add: read_digits_def)
  qed
qed

lemma length_dec_digits: "n < 10 ^ w \<Longrightarrow> 1 \<le> w \<Longrightarrow> length (dec_digits n) \<le> w"
proof (induction n arbitrary: w rule: dec_digits.induct)
  case (1 n)
  show ?case
  proof (cases "n < 10")
    case True
    then show ?thesis using 1(3) by (subst dec_digits.simps) simp
  next
    case False
    then have "w \<noteq> 1" using 1(2) by auto
    then obtain v where v: "w = Suc v" "1 \<le> v" using 1(3) by (cases w) auto
    then have "n div 10 < 10 ^ v" using 1(2) by (simp add: div_less_iff_less_mult mult.commute)
    then show ?thesis using 1(1) [OF False _ v(2)] False v(1) by (subst dec_digits.simps) simp
  qed
qed

lemma read_zeros: "read_digits (replicate k 48 @ ds) = read_digits ds"
  by (induction k) (simp_all add: read_digits_def)

lemma dec_pad_digits:
  assumes "n < 10 ^ w" "1 \<le> w"
  shows "read_digits (dec_pad w n) = n" "length (dec_pad w n) = w"
  using length_dec_digits [OF assms] by (simp_all add: dec_pad_def read_zeros read_dec_digits)

lemma degree_text_reads:
  assumes w: "1 \<le> w" and d: "\<bar>d\<bar> < 10 ^ w * 10000"
  shows "read_degrees w (degree_text w d) = d"
proof -
  define q where "q = nat \<bar>d\<bar> div 10000"
  define r where "r = nat \<bar>d\<bar> mod 10000"
  have qr: "int q * 10000 + int r = \<bar>d\<bar>"
  proof -
    have "q * 10000 + r = nat \<bar>d\<bar>" by (simp add: q_def r_def)
    then have "int (q * 10000 + r) = int (nat \<bar>d\<bar>)" by (rule arg_cong)
    then show ?thesis by simp
  qed
  have "nat \<bar>d\<bar> < 10 ^ w * 10000" using d by (simp add: nat_less_iff)
  then have q: "q < 10 ^ w" by (simp add: q_def div_less_iff_less_mult)
  have r: "r < 10 ^ 4" by (simp add: r_def)
  have whole: "sgn d * (\<bar>d\<bar> div 10000) = sgn d * int q" by (simp add: q_def zdiv_int)
  have n: "nat \<bar>sgn d * int q\<bar> = q" if "int q \<noteq> 0" using that qr by (auto simp: abs_mult sgn_if)
  have f: "nat \<bar>d - sgn d * int q * 10000\<bar> = r"
    using qr by (cases "0 \<le> d") (auto simp: sgn_if)
  define sg :: byte where "sg = (if d < 0 then 45 else 43)"
  have "degree_text w d = sg # dec_pad w q @ [46] @ dec_pad 4 r"
  proof (cases "q = 0")
    case True
    then show ?thesis
      unfolding degree_text_def Let_def whole f using dec_pad_digits(2) [OF _ w, of 0] dec_pad_digits(2) [OF r]
      by (simp add: sign_byte_def sg_def)
  next
    case False
    then have "d \<noteq> 0" using qr by auto
    then have "sgn d * int q < 0 \<longleftrightarrow> d < 0" "sgn d * int q \<noteq> 0"
      using False by (auto simp: sgn_if mult_less_0_iff)
    then show ?thesis
      unfolding degree_text_def Let_def whole f using n False dec_pad_digits(2) [OF q w] dec_pad_digits(2) [OF r]
      by (simp add: sign_byte_def sg_def)
  qed
  moreover have "(if sg = 45 then - 1 else 1) * int (q * 10000 + r) = d"
    using qr by (auto simp: sg_def)
  ultimately show ?thesis
    using dec_pad_digits [OF q w] dec_pad_digits [OF r] by (simp add: read_degrees_def)
qed

end
