(* ===== verification/Mp4Reader.thy ===== *)
theory Mp4Reader
  imports Mp4Size
begin

text \<open>
  A reader of MP4 files as ISO 14496-12 describes it: it walks over boxes by their sizes, finds
  the sample tables of a track, and takes the samples of every chunk from the chunk's offset on.
  It finds in what the muxer writes for a track the tables of that track, and at the offsets the
  samples.
\<close>

section \<open>Walking over boxes\<close>

function boxes :: "byte list \<Rightarrow> (byte list \<times> byte list) list" where
  "boxes b =
     (let n = unat (rd32 b)
      in if length b < 8 \<or> n < 8 \<or> length b < n then []
         else (take 4 (drop 4 b), take (n - 8) (drop 8 b)) # boxes (drop n b))"
  by pat_completeness auto
termination by (relation "measure length") (auto simp: not_less)

declare boxes.simps [simp del]

definition all_boxes :: "string \<Rightarrow> byte list \<Rightarrow> byte list list" where
  "all_boxes tg b = map snd (filter (\<lambda>(t, _). t = tag_bytes tg) (boxes b))"

definition find_box :: "string \<Rightarrow> byte list \<Rightarrow> byte list option" where
  "find_box tg b = (case all_boxes tg b of [] \<Rightarrow> None | p # _ \<Rightarrow> Some p)"

lemma boxes_box:
  assumes "length tg = 4" "8 + length p < 2 ^ 32"
  shows "boxes (box tg p @ r) = (tag_bytes tg, p) # boxes r"
proof -
  define w :: u32 where "w = of_nat (8 + length p)"
  have n: "unat w = 8 + length p" using assms(2) unfolding w_def by (simp only: unat_of_nat) simp
  have b: "box tg p = be32 w @ tag_bytes tg @ p" by (simp only: box_def w_def)
  show ?thesis
    unfolding b using assms(1) by (subst boxes.simps) (simp add: Let_def n)
qed

lemma boxes_Nil [simp]: "boxes [] = []"
  by (simp add: boxes.simps)

lemma all_boxes_box:
  assumes "length tg = 4" "8 + length p < 2 ^ 32"
  shows "all_boxes u (box tg p @ r) = (if u = tg then p # all_boxes u r else all_boxes u r)"
    "all_boxes u (box tg p) = (if u = tg then [p] else [])"
  using boxes_box [OF assms, of r] boxes_box [OF assms, of "[]"]
  by (auto simp: all_boxes_def tag_bytes_inject)

lemma find_box_box:
  assumes "length tg = 4" "8 + length p < 2 ^ 32"
  shows "find_box u (box tg p @ r) = (if u = tg then Some p else find_box u r)"
    "find_box u (box tg p) = (if u = tg then Some p else None)"
  by (simp_all add: find_box_def all_boxes_box [OF assms])

section \<open>The tables\<close>

function read_words :: "byte list \<Rightarrow> u32 list" where
  "read_words b = (if length b < 4 then [] else rd32 b # read_words (drop 4 b))"
  by pat_completeness auto
termination by (relation "measure length") auto

declare read_words.simps [simp del]

lemma read_words_words32 [simp]: "read_words (words32 vs) = vs"
  by (induction vs) (simp_all add: words32_def read_words.simps [of "[]"], subst read_words.simps, simp)

text \<open>
  The samples per chunk: entries of a first chunk, a count and a description; a chunk has the
  count of the last entry that begins at or before it.
\<close>

fun triples :: "u32 list \<Rightarrow> (u32 \<times> u32) list" where
  "triples (f # c # d # ws) = (f, c) # triples ws"
| "triples _ = []"

definition chunk_counts :: "(u32 \<times> u32) list \<Rightarrow> nat \<Rightarrow> u32 list" where
  "chunk_counts es n = map (\<lambda>k. snd (last (filter (\<lambda>(f, _). unat f \<le> k) es))) [1..<n + 1]"

fun slices :: "byte list \<Rightarrow> nat \<Rightarrow> u32 list \<Rightarrow> byte list list" where
  "slices F p [] = []"
| "slices F p (z # zs) = take (unat z) (drop p F) # slices F (p + unat z) zs"

fun gather :: "byte list \<Rightarrow> u32 list \<Rightarrow> u32 list \<Rightarrow> u32 list \<Rightarrow> byte list list" where
  "gather F (off # offs) (c # cnts) zs =
     slices F (unat off) (take (unat c) zs) @ gather F offs cnts (drop (unat c) zs)"
| "gather F _ _ zs = []"

definition read_trak :: "byte list \<Rightarrow> byte list \<Rightarrow> byte list list option" where
  "read_trak F trak = do {
     mdia \<leftarrow> find_box ''mdia'' trak;
     minf \<leftarrow> find_box ''minf'' mdia;
     stbl \<leftarrow> find_box ''stbl'' minf;
     stco \<leftarrow> find_box ''stco'' stbl;
     stsz \<leftarrow> find_box ''stsz'' stbl;
     stsc \<leftarrow> find_box ''stsc'' stbl;
     let offs = read_words (drop 8 stco);
     Some (gather F offs (chunk_counts (triples (read_words (drop 8 stsc))) (length offs))
             (read_words (drop 12 stsz)))
   }"

section \<open>The tables of a track are found\<close>

lemma read_words_stsc:
  "triples (read_words (stsc_payload vs)) = zip (map (\<lambda>n. of_nat n + 1) [0..<length vs]) vs"
proof -
  have "triples (read_words (concat (map (\<lambda>(n, v). be32 (of_nat n + 1) @ be32 v @ be32 1) ps))) =
    map (\<lambda>(n, v). (of_nat n + 1, v)) ps" for ps :: "(nat \<times> u32) list"
  proof (induction ps)
    case Nil
    then show ?case by (simp add: read_words.simps)
  next
    case (Cons p ps)
    then show ?case
      by (cases p) (simp add: read_words.simps [of "be32 _ @ _"])
  qed
  then show ?thesis by (simp add: stsc_payload_def zip_map1)
qed

lemma filter_first_chunks:
  assumes "length vs < 2 ^ 32 - 1"
  shows "filter (\<lambda>(f, _). unat f \<le> k) (zip (map (\<lambda>n. of_nat n + 1 :: u32) [0..<length vs]) vs) =
    take k (zip (map (\<lambda>n. of_nat n + 1) [0..<length vs]) vs)"
  using assms
proof (induction vs rule: rev_induct)
  case (snoc v vs)
  have u: "unat (of_nat (length vs) + 1 :: u32) = length vs + 1"
  proof -
    have "(of_nat (length vs) + 1 :: u32) = of_nat (length vs + 1)" by simp
    then show ?thesis using snoc.prems by (simp only: unat_of_nat) simp
  qed
  have "length vs < 2 ^ 32 - 1" using snoc.prems by simp
  from snoc.IH [OF this] show ?case using u by auto
qed simp

lemma chunk_counts_eq:
  assumes "length vs < 2 ^ 32 - 1"
  shows "chunk_counts (triples (read_words (stsc_payload vs))) (length vs) = vs"
proof (rule nth_equalityI)
  fix j assume "j < length (chunk_counts (triples (read_words (stsc_payload vs))) (length vs))"
  then have j: "j < length vs" by (simp add: chunk_counts_def del: upt_Suc)
  let ?z = "zip (map (\<lambda>n. of_nat n + 1 :: u32) [0..<length vs]) vs"
  have "last (take (Suc j) ?z) = ?z ! j" using j by (simp add: take_Suc_conv_app_nth)
  then show "chunk_counts (triples (read_words (stsc_payload vs))) (length vs) ! j = vs ! j"
    using j by (simp add: chunk_counts_def read_words_stsc filter_first_chunks [OF assms] del: upt_Suc)
qed (simp add: chunk_counts_def del: upt_Suc)

section \<open>The samples are found\<close>

lemma slices_eq:
  assumes "take (length (concat ss)) (drop p F) = concat ss" "\<forall>s \<in> set ss. length s < 2 ^ 32"
  shows "slices F p (map (of_nat \<circ> length) ss) = ss"
  using assms
proof (induction ss arbitrary: p)
  case (Cons s ss)
  have u: "unat (of_nat (length s) :: u32) = length s" by (rule unat_len_u32) (use Cons.prems(2) in simp)
  have s: "take (length s) (drop p F) = s"
    using arg_cong [OF Cons.prems(1), of "take (length s)"] by (simp add: min_absorb1)
  have "take (length (concat ss)) (drop (p + length s) F) = concat ss"
    using arg_cong [OF Cons.prems(1), of "drop (length s)"] by (simp add: drop_take add.commute)
  then show ?case using Cons.IH Cons.prems(2) s u by simp
qed simp

text \<open>Where a chunk is in the file.\<close>

definition in_file :: "byte list \<Rightarrow> chunk \<Rightarrow> bool" where
  "in_file F c \<longleftrightarrow>
     take (length (concat (c_samples c))) (drop (c_offset c) F) = concat (c_samples c) \<and>
     c_offset c < 2 ^ 32 \<and> length (c_samples c) < 2 ^ 32 \<and> (\<forall>s \<in> set (c_samples c). length s < 2 ^ 32)"

lemma gather_eq:
  "\<forall>c \<in> set cs. in_file F c \<Longrightarrow> gather F (offsets cs) (counts cs) (sizes cs) = samples cs"
proof (induction cs)
  case (Cons c cs)
  have u: "unat (of_nat (c_offset c) :: u32) = c_offset c"
    "unat (of_nat (length (c_samples c)) :: u32) = length (c_samples c)"
    using Cons.prems by (simp_all only: in_file_def unat_of_nat) simp_all
  show ?case using Cons u by (simp add: slices_eq in_file_def)
qed (simp add: sizes_def)

lemma placed_in_file:
  assumes "placed base cs" "take (length (media cs)) (drop base F) = media cs" "base + length (media cs) < 2 ^ 32"
    "length (samples cs) < 2 ^ 32"
  shows "\<forall>c \<in> set cs. in_file F c"
  using assms
proof (induction cs arbitrary: base)
  case (Cons c cs)
  let ?n = "length (concat (c_samples c))"
  have c: "take ?n (drop base F) = concat (c_samples c)"
    using arg_cong [OF Cons.prems(2), of "take ?n"] by (simp add: min_absorb1)
  have r: "take (length (media cs)) (drop (base + ?n) F) = media cs"
    using arg_cong [OF Cons.prems(2), of "drop ?n"] by (simp add: drop_take add.commute)
  have s: "length s \<le> ?n" if "s \<in> set (c_samples c)" for s
    using that by (induction "c_samples c") (auto simp: length_concat member_le_sum_list)
  have "in_file F c"
    using c Cons.prems(1,3,4) s by (force simp: in_file_def)
  moreover have "\<forall>d \<in> set cs. in_file F d"
    by (rule Cons.IH [OF _ r]) (use Cons.prems in \<open>simp_all add: add.assoc\<close>)
  ultimately show ?case by simp
qed simp

lemma in_file_of_stream: "\<forall>c \<in> set cs. in_file F c \<Longrightarrow> \<forall>c \<in> set (of_stream i cs). in_file F c"
  by (simp add: of_stream_def)

text \<open>The tables of a track lead the reader to its samples.\<close>

lemma read_trak_eq:
  assumes small: "length (trak_payload tkhd mdhd hdlr mh mhd dinf (stbl_bytes stsd stts stss (counts cs) (sizes cs) (offsets cs))) < 2 ^ 32"
    and mh: "length mh = 4" "mh \<noteq> ''dinf''" "mh \<noteq> ''stbl''"
    and F: "\<forall>c \<in> set cs. in_file F c"
  shows "read_trak F (trak_payload tkhd mdhd hdlr mh mhd dinf
    (stbl_bytes stsd stts stss (counts cs) (sizes cs) (offsets cs))) = Some (samples cs)"
proof -
  have lc: "length (counts cs) = length (offsets cs)" by (simp add: counts_def offsets_def)
  have lw: "length (words32 vs) = 4 * length vs" for vs by (induction vs) (simp_all add: words32_def)
  define stsc where "stsc = be32 0 @ be32 (of_nat (length (counts cs))) @ stsc_payload (counts cs)"
  define stsz where "stsz = be32 0 @ be32 0 @ be32 (of_nat (length (sizes cs))) @ words32 (sizes cs)"
  define stco where "stco = be32 0 @ be32 (of_nat (length (offsets cs))) @ words32 (offsets cs)"
  define stbl where "stbl = box ''stsd'' stsd @ box ''stts'' stts @ (if stss = [] then [] else box ''stss'' stss) @
      box ''stsc'' stsc @ box ''stsz'' stsz @ box ''stco'' stco"
  define minf where "minf = box mh mhd @ box ''dinf'' dinf @ box ''stbl'' stbl"
  define mdia where "mdia = box ''mdhd'' mdhd @ box ''hdlr'' hdlr @ box ''minf'' minf"
  have p: "trak_payload tkhd mdhd hdlr mh mhd dinf (stbl_bytes stsd stts stss (counts cs) (sizes cs) (offsets cs)) =
    box ''tkhd'' tkhd @ box ''mdia'' mdia"
    by (simp add: trak_payload_def stbl_bytes_def mdia_def minf_def stbl_def stsc_def stsz_def stco_def)
  have n1: "8 + length tkhd + (8 + length mdia) < 2 ^ 32" using small unfolding p by (simp add: length_box)
  have "length mdia < 2 ^ 32" using n1 by simp
  then have n2: "8 + length mdhd + (8 + length hdlr) + (8 + length minf) < 2 ^ 32"
    unfolding mdia_def by (simp add: length_box)
  have "length minf < 2 ^ 32" using n2 by simp
  then have n3: "8 + length mhd + (8 + length dinf) + (8 + length stbl) < 2 ^ 32"
    unfolding minf_def by (simp add: length_box mh(1))
  have "length stbl < 2 ^ 32" using n3 by simp
  then have n4: "8 + length stsd + (8 + length stts) + (8 + length stsc) + (8 + length stsz) + (8 + length stco) < 2 ^ 32"
    "stss \<noteq> [] \<Longrightarrow> 8 + length stss < 2 ^ 32"
    unfolding stbl_def by (simp_all add: length_box split: if_splits)
  have "length (counts cs) < 2 ^ 32 - 1" using n4(1) lc lw [of "offsets cs"] by (simp add: stco_def)
  note cc = chunk_counts_eq [OF this]
  have s1: "find_box ''mdia'' (box ''tkhd'' tkhd @ box ''mdia'' mdia) = Some mdia"
    using n1 by (simp add: find_box_box)
  have s2: "find_box ''minf'' mdia = Some minf"
    using n2 unfolding mdia_def by (simp add: find_box_box)
  have s3: "find_box ''stbl'' minf = Some stbl"
    using n3 mh unfolding minf_def by (simp add: find_box_box)
  have s4: "find_box ''stco'' stbl = Some stco" "find_box ''stsz'' stbl = Some stsz" "find_box ''stsc'' stbl = Some stsc"
    using n4 unfolding stbl_def by (cases "stss = []"; simp add: find_box_box)+
  show ?thesis
    unfolding p read_trak_def s1 using cc lc gather_eq [OF F]
    by (simp add: s2 s3 s4 Let_def) (simp add: stsc_def stsz_def stco_def)
qed

end
