(* ===== verification/Mp4File.thy ===== *)
theory Mp4File
  imports Mp4Reader FsWriter
begin

text \<open>
  A recording from the first call to the last: the context as \<open>Mp4MuxerOpen\<close> makes it, the
  settings and parameter sets (Mp4MuxerDrv.c), the header, the packets and the trailer
  (Mp4Muxer.c). The header box goes to the space reserved at the start of the file when it fits
  there and to the end of the file otherwise.

  The cache memory that \<open>Mp4MuxerOpen\<close> allocates has any contents, the parameter \<open>mem\<close>.
\<close>

section \<open>The driver\<close>

record mp4_ctx =
  ctx_mov :: MOVContext
  ctx_nb_streams :: nat

definition blank_codec :: "CodecType \<Rightarrow> AVCodecContext" where
  "blank_codec ty = \<lparr>width = 0, height = 0, codec_type = ty, rotate_degree = 0, codec_tag = 0,
     codec_id = CODEC_ID_MPEG4, channels = 0, frame_size = 0, frame_rate = 0, bits_per_sample = 0,
     sample_rate = 0\<rparr>"

definition blank_track :: "CodecType \<Rightarrow> MOVTrack" where
  "blank_track ty = \<lparr>enc = blank_codec ty, tag = 0, vosData = [], hvcc = [], hvcc_size = 0,
     trackDuration = 0, track_time = 0, track_timescale = 0, trackID = 0,
     table_size = \<lambda>_. 0, tiny_pages = \<lambda>_. 0, keyFrame_num = 0\<rparr>"

text \<open>A codec id of zero, which no code has, stands as the first one.\<close>

definition Mp4MuxerOpen :: "(CHUNKID \<Rightarrow> nat \<Rightarrow> nat \<Rightarrow> u32) \<Rightarrow> (nat \<Rightarrow> u32) \<Rightarrow> mp4_ctx" where
  "Mp4MuxerOpen mem keymem = \<lparr>
     ctx_mov = \<lparr>create_time = 0, nb_streams = 0, mdat_pos = 0, mdat_start_pos = 0, mdat_size = 0,
       mov_timescale = 0, geo_available = False, gps_pack_method = GPS_PACK_IN_MDAT,
       latitudex10000 = 0, longitudex10000 = 0,
       tracks = (\<lambda>i. blank_track (if i = 0 then CODEC_TYPE_VIDEO
                  else if i = 1 then CODEC_TYPE_AUDIO else CODEC_TYPE_TEXT)),
       tabs = (\<lambda>k i. \<lparr>ring = mem k i, wr = 0, rd = 0, cached = 0, page_file = []\<rparr>),
       tmp = \<lparr>tmp_fd = [], tmp_io = []\<rparr>, cache_keyframe = keymem, stsc_cnt = 0,
       last_stream_index = None, keyframe_num = 0, free_pos = 0,
       gps_entry_buff = None, gps_entry_buff_wt = 0\<rparr>,
     ctx_nb_streams = 0\<rparr>"

datatype video_encode_type = VENC_CODEC_JPEG | VENC_CODEC_H264 | VENC_CODEC_H265 | VENC_CODEC_OTHER
datatype audio_encode_type = AUDIO_ENCODER_PCM_TYPE | AUDIO_ENCODER_AAC_TYPE | AUDIO_ENCODER_OTHER_TYPE

record mp4_media_inf =
  nHeight :: u32
  nWidth :: u32
  uVideoFrmRate :: u32
  inf_create_time :: u32
  mVideoEncodeType :: video_encode_type
  inf_rotate_degree :: u32
  inf_channels :: u32
  inf_bits_per_sample :: u32
  inf_frame_size :: u32
  inf_sample_rate :: u32
  inf_audio_encode_type :: audio_encode_type
  inf_geo_available :: bool
  inf_latitudex10000 :: int
  inf_longitudex10000 :: int

definition upd_enc :: "nat \<Rightarrow> (AVCodecContext \<Rightarrow> AVCodecContext) \<Rightarrow> MOVContext \<Rightarrow> MOVContext" where
  "upd_enc i f = upd_track i (\<lambda>t. t\<lparr>enc := f (enc t)\<rparr>)"

text \<open>\<open>SETAVPARA\<close>; \<open>gmem\<close> is the memory for GPS entries.\<close>

definition mp4_SETAVPARA :: "(nat \<Rightarrow> u32 \<times> u32) \<Rightarrow> mp4_media_inf \<Rightarrow> mp4_ctx \<Rightarrow> mp4_ctx" where
  "mp4_SETAVPARA gmem info c =
     (let m1 = upd_enc 0 (\<lambda>e. e\<lparr>height := nHeight info, width := nWidth info, frame_rate := uVideoFrmRate info,
              codec_id := (case mVideoEncodeType info of
                  VENC_CODEC_JPEG \<Rightarrow> CODEC_ID_MJPEG
                | VENC_CODEC_H264 \<Rightarrow> CODEC_ID_H264
                | VENC_CODEC_H265 \<Rightarrow> CODEC_ID_H265
                | VENC_CODEC_OTHER \<Rightarrow> CODEC_ID_H264),
              rotate_degree := inf_rotate_degree info\<rparr>) ((ctx_mov c)\<lparr>create_time := inf_create_time info\<rparr>);
          m2 = upd_enc 1 (\<lambda>e. e\<lparr>channels := inf_channels info, bits_per_sample := inf_bits_per_sample info,
              frame_size := inf_frame_size info, sample_rate := inf_sample_rate info,
              codec_id := (case inf_audio_encode_type info of
                  AUDIO_ENCODER_PCM_TYPE \<Rightarrow> CODEC_ID_PCM
                | AUDIO_ENCODER_AAC_TYPE \<Rightarrow> CODEC_ID_AAC
                | AUDIO_ENCODER_OTHER_TYPE \<Rightarrow> CODEC_ID_AAC)\<rparr>) m1;
          m3 = upd_track 1 (\<lambda>t. t\<lparr>track_timescale := inf_sample_rate info\<rparr>) m2;
          m4 = m3\<lparr>geo_available := inf_geo_available info, latitudex10000 := inf_latitudex10000 info,
                 longitudex10000 := inf_longitudex10000 info\<rparr>;
          m5 = (if geo_available m4 \<and> gps_pack_method m4 = GPS_PACK_IN_MDAT
                then m4\<lparr>gps_entry_buff := Some gmem\<rparr> else m4);
          text = (geo_available m5 \<and> gps_pack_method m5 = GPS_PACK_IN_TRACK);
          m6 = (if text
                then upd_track 2 (\<lambda>t. t\<lparr>track_timescale := 1000\<rparr>) (upd_enc 2 (\<lambda>e. e\<lparr>codec_id := CODEC_ID_GGAD\<rparr>) m5)
                else m5)
      in \<lparr>ctx_mov = upd_track 0 (\<lambda>t. t\<lparr>track_timescale := 1000\<rparr>) m6,
          ctx_nb_streams = ctx_nb_streams c + 2 + (if text then 1 else 0)\<rparr>)"

text \<open>\<open>SETTOTALTIME\<close>, in milliseconds.\<close>

definition mp4_SETTOTALTIME :: "u32 \<Rightarrow> mp4_ctx \<Rightarrow> mp4_ctx" where
  "mp4_SETTOTALTIME ms c =
     (let dur = (\<lambda>t. t\<lparr>trackDuration := of_nat ((unat ms * unat (track_timescale t)) div 1000)\<rparr>)
      in c\<lparr>ctx_mov := upd_track 2 dur (upd_track 1 dur (upd_track 0 dur (ctx_mov c)))\<rparr>)"

definition Mp4MuxerWriteVos :: "byte list \<Rightarrow> nat \<Rightarrow> mp4_ctx \<Rightarrow> mp4_ctx" where
  "Mp4MuxerWriteVos vos idx c = c\<lparr>ctx_mov := upd_track idx (\<lambda>t. t\<lparr>vosData := vos\<rparr>) (ctx_mov c)\<rparr>"

section \<open>Header and trailer\<close>

definition mov_write_ftyp_tag :: calls where
  "mov_write_ftyp_tag =
     put_be32_cache 28 @ put_tag_cache ''ftyp'' @ put_tag_cache ''isom'' @ put_be32_cache 0x200 @
     put_tag_cache ''isom'' @ put_tag_cache ''iso2'' @ put_tag_cache ''mp41''"

definition mov_write_mdat_tag :: "MOVContext \<Rightarrow> MOVContext \<times> fsop list" where
  "mov_write_mdat_tag m =
     (m\<lparr>mdat_pos := MOV_HEADER_RESERVE_SIZE, mdat_start_pos := MOV_HEADER_RESERVE_SIZE + 8\<rparr>,
      FsSeek MOV_HEADER_RESERVE_SIZE # map FsWrite (put_be32_cache 0 @ put_tag_cache ''mdat''))"

definition mov_write_header :: "mp4_ctx \<Rightarrow> mp4_ctx \<times> fsop list" where
  "mov_write_header c =
     (let m = ctx_mov c; n = ctx_nb_streams c;
          m1 = m\<lparr>tracks := \<lambda>i. if i < n then (tracks m i)\<lparr>tag := mov_find_codec_tag (tracks m i)\<rparr> else tracks m i\<rparr>;
          (m2, mdat) = mov_write_mdat_tag m1
      in (c\<lparr>ctx_mov := m2\<lparr>nb_streams := n, free_pos := 28\<rparr>\<rparr>,
          map FsWrite (mov_write_ftyp_tag @ mov_write_free_tag (of_nat (MOV_HEADER_RESERVE_SIZE - 28))) @ mdat))"

definition mov_write_moov_tag :: "MOVContext \<Rightarrow> fsop list option" where
  "mov_write_moov_tag m = do {
     moov_size \<leftarrow> movGetMoovTagSize m;
     c \<leftarrow> write_moov_box m;
     let fits = (sint (moov_size + 28 + 8) \<le> int MOV_HEADER_RESERVE_SIZE);
     Some ((if fits then [FsSeek (free_pos m)] else []) @ map FsWrite c @
           (if fits then map FsWrite (mov_write_free_tag (of_nat MOV_HEADER_RESERVE_SIZE - moov_size - 28)) else []))
   }"

definition mov_write_trailer :: "MOVContext \<Rightarrow> fsop list option" where
  "mov_write_trailer m = do {
     m1 \<leftarrow> mov_last_packet m;
     moov \<leftarrow> mov_write_moov_tag m1;
     Some (moov @ [FsSeek (mdat_pos m1)] @ map FsWrite (put_be32_cache (of_nat (mdat_size m1) + 8)) @ [FsFlush])
   }"

section \<open>A recording\<close>

text \<open>The packets of a recording, up to one that the muxer refuses.\<close>

fun write_packets :: "AVPacket list \<Rightarrow> MOVContext \<Rightarrow> (MOVContext \<times> calls) option" where
  "write_packets [] m = Some (m, [])"
| "write_packets (p # ps) m = do {
     (r, m1, c) \<leftarrow> mov_write_packet p m;
     if r \<noteq> 0 then None
     else do { (m2, cs) \<leftarrow> write_packets ps m1; Some (m2, c @ cs) }
   }"

definition mp4_record :: "mp4_ctx \<Rightarrow> u32 \<Rightarrow> AVPacket list \<Rightarrow> fsop list option" where
  "mp4_record c ms ps =
     (let (c1, header) = mov_write_header c
      in do {
        (m, media) \<leftarrow> write_packets ps (ctx_mov c1);
        trailer \<leftarrow> mov_write_trailer (ctx_mov (mp4_SETTOTALTIME ms (c1\<lparr>ctx_mov := m\<rparr>)));
        Some (header @ map FsWrite media @ trailer)
      })"

text \<open>The reader of a file: the samples of every track of the header box.\<close>

definition read_mp4 :: "byte list \<Rightarrow> byte list list list option" where
  "read_mp4 F = do {
     moov \<leftarrow> find_box ''moov'' F;
     let rs = map (read_trak F) (all_boxes ''trak'' moov);
     if None \<in> set rs then None else Some (map the rs)
   }"

section \<open>All packets\<close>

fun rec_chunks :: "(nat \<Rightarrow> CodecID) \<Rightarrow> nat \<Rightarrow> AVPacket list \<Rightarrow> chunk list \<Rightarrow> chunk list" where
  "rec_chunks cd base [] cs = cs"
| "rec_chunks cd base (p # ps) cs =
     rec_chunks cd base ps
       (add_sample (stream_index p) (sample_of (cd (stream_index p)) p) (base + length (media cs)) cs)"

definition samples_of :: "(nat \<Rightarrow> CodecID) \<Rightarrow> nat \<Rightarrow> AVPacket list \<Rightarrow> byte list list" where
  "samples_of cd i ps = map (sample_of (cd i)) (filter (\<lambda>p. stream_index p = i) ps)"

lemma rec_chunks_samples:
  "samples (of_stream i (rec_chunks cd base ps cs)) = samples (of_stream i cs) @ samples_of cd i ps"
  by (induction ps arbitrary: cs) (auto simp: samples_of_def)

lemma rec_chunks_media:
  "media (rec_chunks cd base ps cs) = media cs @ concat (map (\<lambda>p. sample_of (cd (stream_index p)) p) ps)"
  by (induction ps arbitrary: cs) auto

lemma rec_chunks_length: "length cs \<le> length (rec_chunks cd base ps cs)"
proof (induction ps arbitrary: cs)
  case (Cons p ps)
  have "length cs \<le> length (add_sample i b pos cs)" for i b pos
    by (cases cs rule: rev_cases) (auto simp: add_sample_def)
  then show ?case using Cons order_trans by simp blast
qed simp

definition keys :: "CodecID \<Rightarrow> AVPacket list \<Rightarrow> AVPacket list" where
  "keys c ps = filter (\<lambda>p. stream_index p = 0 \<and> may_key c p) ps"

lemma write_packets_ok:
  assumes "rec_inv m cs" "\<forall>p \<in> set ps. packet_ok p" "codecs_ok m"
    and "\<And>i. cd i = codec_id (enc (tracks m i))"
    and "length (rec_chunks cd (mdat_start_pos m) ps cs) < cache_size STSC_ID"
    and "keyFrame_num (tracks m 0) + length (keys (cd 0) ps) \<le> KEYFRAME_CACHE_SIZE div 4"
  shows "\<exists>m' c. write_packets ps m = Some (m', c) \<and> bytes_of c = concat (map (\<lambda>p. sample_of (cd (stream_index p)) p) ps) \<and>
    frozen m' = frozen m \<and> rec_inv m' (rec_chunks cd (mdat_start_pos m) ps cs) \<and>
    keyFrame_num (tracks m' 0) \<le> keyFrame_num (tracks m 0) + length (keys (cd 0) ps)"
  using assms
proof (induction ps arbitrary: m cs)
  case (Cons p ps)
  let ?b = "sample_of (cd (stream_index p)) p"
  let ?cs = "add_sample (stream_index p) ?b (mdat_start_pos m + length (media cs)) cs"
  have n: "length cs < cache_size STSC_ID"
    using Cons.prems(5) rec_chunks_length [of cs cd "mdat_start_pos m" "p # ps"] by linarith
  have pp: "packet_ok p" using Cons.prems(2) by simp
  have k: "keyFrame_num (tracks m 0) < KEYFRAME_CACHE_SIZE div 4"
    if "stream_index p = 0" "may_key (codec_id (enc (tracks m 0))) p"
    using Cons.prems(4,6) that by (simp add: keys_def)
  obtain m1 c where m1: "mov_write_packet p m = Some (0, m1, c)" "bytes_of c = ?b" "frozen m1 = frozen m"
    "rec_inv m1 ?cs" "keyFrame_num (tracks m1 0) \<le> keyFrame_num (tracks m 0) +
      (if stream_index p = 0 \<and> may_key (cd 0) p then 1 else 0)"
    using mov_packet_ok [OF Cons.prems(1) pp Cons.prems(3) n k, folded Cons.prems(4)] by blast
  note fz = frozen_eq_dest [OF m1(3)]
  have "\<exists>m' c. write_packets ps m1 = Some (m', c) \<and> bytes_of c = concat (map (\<lambda>p. sample_of (cd (stream_index p)) p) ps) \<and>
    frozen m' = frozen m1 \<and> rec_inv m' (rec_chunks cd (mdat_start_pos m1) ps ?cs) \<and>
    keyFrame_num (tracks m' 0) \<le> keyFrame_num (tracks m1 0) + length (keys (cd 0) ps)"
    by (rule Cons.IH [OF m1(4)])
      (use Cons.prems(2-6) m1(5) in \<open>auto simp: fz codecs_ok_def keys_def split: if_splits\<close>)
  then show ?case using m1 by (auto simp: fz keys_def split: if_splits)
qed simp

end
