(* ===== verification/Mp4Bound.thy ===== *)
theory Mp4Bound
  imports Mp4Size
begin

text \<open>
  How long the boxes of a track can get: the sample tables take a fixed number of bytes per
  entry, everything else is bounded by the parameter sets. The header box of a recording stays
  below 4 GiB, so that its size can be declared, as soon as this bound says so.
\<close>

lemma blen_put_all [simp]: "blen (put_all vs) = 4 * length vs"
  by (induction vs) (simp_all add: put_all_def)

lemma blen_stsc_entries [simp]: "blen (stsc_entries vs) = 12 * length vs"
proof -
  have "blen (concat (map (\<lambda>(n, v). put_be32_cache (of_nat n + 1) @ put_be32_cache v @ put_be32_cache 1) ps)) =
    12 * length ps" for ps :: "(nat \<times> u32) list"
    by (induction ps) auto
  then show ?thesis by (simp add: stsc_entries_def)
qed

lemma blen_durations: "blen (concat (map (\<lambda>v. put_be32_cache 1 @ put_be32_cache v) ws)) = 8 * length ws"
  by (induction ws) simp_all

lemma blen_bytes: "blen (concat (map (\<lambda>k. put_byte_cache (g k)) ks)) = length ks"
  by (induction ks) simp_all

lemma blen_putDescr: "blen (putDescr_cache tg sz) \<le> 7"
proof -
  let ?d = "descr_len 5 1 sz"
  have d: "1 \<le> ?d" "?d \<le> 6" using descr_len_range [of 1 5 sz] by auto
  have "descrLength sz - sz - 2 = of_nat (?d - 1)" using d by (simp add: descrLength_def of_nat_diff)
  moreover have "unat (of_nat (?d - 1) :: u32) = ?d - 1"
    using d by (simp only: unat_of_nat) simp
  ultimately have i: "unat (descrLength sz - sz - 2) = ?d - 1" by simp
  show ?thesis
    unfolding putDescr_cache_def i Let_def blen_append blen_bytes using d by simp
qed

lemma blen_esds: "blen (mov_write_esds_tag t) \<le> 64 + length (vosData t)"
  using blen_putDescr [of 3 "3 + descrLength (13 + dsi_len t) + descrLength 1"]
    blen_putDescr [of 4 "13 + dsi_len t"] blen_putDescr [of 5 "of_nat (length (vosData t))"] blen_putDescr [of 6 1]
  by (simp add: mov_write_esds_tag_def)

lemma blen_audio: "blen (mov_write_audio_tag t) \<le> 120 + length (vosData t)"
  using blen_esds [of t] by (simp add: mov_write_audio_tag_def Let_def)

text \<open>The bytes that the parameter sets of a track take in its description.\<close>

definition vos_bytes :: "MOVTrack \<Rightarrow> nat" where
  "vos_bytes t =
     (if tag t = TAG_avc1 \<and> codec_type (enc t) = CODEC_TYPE_VIDEO
      then (case ff_isom_write_avcc True 0 (vosData t) of Some (r, c) \<Rightarrow> blen c | None \<Rightarrow> 0)
      else if tag t = TAG_hvc1 \<and> codec_type (enc t) = CODEC_TYPE_VIDEO then blen (hvcc t)
      else length (vosData t))"

lemma tags_distinct: "TAG_mp4v \<noteq> TAG_hvc1" "TAG_mp4v \<noteq> TAG_avc1" "TAG_hvc1 \<noteq> TAG_avc1"
  by (simp_all add: TAG_avc1_def TAG_mp4v_def TAG_hvc1_def MKTAG_def of_char_def)

lemma blen_stsd: "mov_write_stsd_tag t = Some c \<Longrightarrow> blen c \<le> 200 + vos_bytes t"
  using blen_audio [of t] blen_esds [of t] tags_distinct
  by (cases "codec_type (enc t)")
    (auto simp: mov_write_stsd_tag_def mov_write_video_tag_def mov_write_avcc_tag_def mov_write_hvcc_tag_def
      mov_write_text_tag_def vos_bytes_def split: bind_splits if_splits)

lemma blen_tables:
  "mov_write_stco_tag m i = Some c \<Longrightarrow> readable m i STCO_ID \<Longrightarrow> codec_id (enc (tracks m i)) \<noteq> CODEC_ID_GGAD \<Longrightarrow>
    blen c = 16 + 4 * table_size (tracks m i) STCO_ID"
  "mov_write_stsz_tag m i = Some c \<Longrightarrow> readable m i STSZ_ID \<Longrightarrow> codec_id (enc (tracks m i)) \<noteq> CODEC_ID_GGAD \<Longrightarrow>
    blen c \<le> 20 + 4 * table_size (tracks m i) STSZ_ID"
  "mov_write_stsc_tag m i = Some c \<Longrightarrow> readable m i STSC_ID \<Longrightarrow> codec_id (enc (tracks m i)) \<noteq> CODEC_ID_GGAD \<Longrightarrow>
    blen c = 16 + 12 * table_size (tracks m i) STSC_ID"
  "blen (mov_write_stss_tag m i) = 16 + 4 * keyFrame_num (tracks m i)"
  by (auto simp: mov_write_stco_tag_def mov_write_stsz_tag_def mov_write_stsc_tag_def mov_write_stss_tag_def
      readable_def Let_def split: bind_splits if_splits)

lemma blen_stts:
  "mov_write_stts_tag m i = Some c \<Longrightarrow> codec_type (enc (tracks m i)) = CODEC_TYPE_VIDEO \<longrightarrow> readable m i STTS_ID \<Longrightarrow>
    blen c \<le> 24 + (if codec_type (enc (tracks m i)) = CODEC_TYPE_VIDEO then 8 * table_size (tracks m i) STTS_ID else 0)"
  by (cases "codec_type (enc (tracks m i))")
    (auto simp: mov_write_stts_tag_def readable_def Let_def blen_durations split: bind_splits)

definition table_bytes :: "MOVTrack \<Rightarrow> nat" where
  "table_bytes t = 4 * table_size t STCO_ID + 4 * table_size t STSZ_ID + 12 * table_size t STSC_ID +
     (if codec_type (enc t) = CODEC_TYPE_VIDEO then 8 * table_size t STTS_ID + 4 * keyFrame_num t else 0)"

lemma blen_stbl:
  assumes ok: "track_ok m i" and c: "mov_write_stbl_tag m i = Some c"
  shows "blen c \<le> 300 + vos_bytes (tracks m i) + table_bytes (tracks m i)"
proof -
  let ?t = "tracks m i"
  from c obtain n cd ct cc cz co where
    c: "c = put_be32_cache n @ put_tag_cache ''stbl'' @ cd @ ct @
        (if codec_type (enc ?t) = CODEC_TYPE_VIDEO then mov_write_stss_tag m i else []) @ cc @ cz @ co"
    and d: "mov_write_stsd_tag ?t = Some cd" "mov_write_stts_tag m i = Some ct" "mov_write_stsc_tag m i = Some cc"
      "mov_write_stsz_tag m i = Some cz" "mov_write_stco_tag m i = Some co"
    by (auto simp: mov_write_stbl_tag_def Let_def split: bind_splits)
  have r: "readable m i STCO_ID" "readable m i STSZ_ID" "readable m i STSC_ID" "codec_id (enc ?t) \<noteq> CODEC_ID_GGAD"
    "codec_type (enc ?t) = CODEC_TYPE_VIDEO \<longrightarrow> readable m i STTS_ID"
    using ok by (auto simp: track_ok_def)
  show ?thesis
    using blen_stsd [OF d(1)] blen_stts [OF d(2) r(5)] blen_tables(1) [OF d(5) r(1,4)]
      blen_tables(2) [OF d(4) r(2,4)] blen_tables(3) [OF d(3) r(3,4)] blen_tables(4) [of m i]
    unfolding c table_bytes_def by (simp split: if_splits)
qed

lemma blen_fixed:
  "blen mov_write_dinf_tag = 36" "blen (mov_write_mdhd_tag t) = 32" "blen (mov_write_hdlr_tag ty) \<le> 45"
  "blen (media_header cty) \<le> 84" "mov_write_tkhd_tag t = Some c \<Longrightarrow> blen c = 92"
  "blen (mov_write_mvhd_tag m) = 108"
  by (auto simp: mov_write_dinf_tag_def mov_write_dref_tag_def mov_write_mdhd_tag_def mov_write_hdlr_tag_def hdlr_descr_def
      media_header_def mov_write_vmhd_tag_def mov_write_smhd_tag_def mov_write_gmhd_tag_def mov_write_gmin_tag_def
      mov_write_gmhd_text_tag_def mov_write_tkhd_tag_def mov_write_mvhd_tag_def Let_def
      split: option.split CodecType.split bind_splits prod.splits)

text \<open>A track takes at most this many bytes.\<close>

definition trak_bytes :: "MOVTrack \<Rightarrow> nat" where
  "trak_bytes t = 700 + vos_bytes t + table_bytes t"

lemma blen_trak:
  assumes ok: "track_ok m i" and c: "mov_write_trak_tag m i = Some c"
  shows "blen c \<le> trak_bytes (tracks m i)"
proof -
  let ?t = "tracks m i"
  from c obtain n1 n2 n3 tk s where
    c: "c = put_be32_cache n1 @ put_tag_cache ''trak'' @ tk @ put_be32_cache n2 @ put_tag_cache ''mdia'' @
      mov_write_mdhd_tag ?t @ mov_write_hdlr_tag (Some (codec_type (enc ?t))) @ put_be32_cache n3 @ put_tag_cache ''minf'' @
      media_header (codec_type (enc ?t)) @ mov_write_dinf_tag @ s"
    and d: "mov_write_tkhd_tag ?t = Some tk" "mov_write_stbl_tag m i = Some s"
    by (auto simp: mov_write_trak_tag_def mov_write_mdia_tag_def mov_write_minf_tag_def split: bind_splits)
  show ?thesis
    using blen_stbl [OF ok d(2)] blen_fixed(5) [OF d(1)] blen_fixed(3) [of "Some (codec_type (enc ?t))"]
      blen_fixed(4) [of "codec_type (enc ?t)"]
    unfolding c trak_bytes_def by (simp add: blen_fixed(1,2))
qed

end
