(* ===== verification/Mp4Record.thy ===== *)
theory Mp4Record
  imports Mp4File Mp4Bound
begin

text \<open>
  A whole MP4 recording: from the settings to the trailer, the file that results is read back to
  the samples of every stream in order, wherever the header box comes to lie. The properties of
  the MP4 muxer are at the end.
\<close>

section \<open>The end of the packets\<close>

text \<open>After the last chunk is closed, all tables are read back whole.\<close>

definition all_tables :: "MOVContext \<Rightarrow> chunk list \<Rightarrow> bool" where
  "all_tables m cs \<longleftrightarrow>
     (\<forall>i < 2. read_table STCO_ID m i = Some (offsets (of_stream i cs)) \<and>
              table_size (tracks m i) STCO_ID = length (of_stream i cs) \<and>
              read_table STSZ_ID m i = Some (sizes (of_stream i cs)) \<and>
              table_size (tracks m i) STSZ_ID = length (samples (of_stream i cs)) \<and>
              read_table STSC_ID m i = Some (counts (of_stream i cs)) \<and>
              table_size (tracks m i) STSC_ID = length (of_stream i cs)) \<and>
     (\<exists>ds. read_table STTS_ID m 0 = Some ds \<and> length ds = length (samples (of_stream 0 cs))) \<and>
     table_size (tracks m 0) STTS_ID = length (samples (of_stream 0 cs))"

lemma tab_ok_read:
  "tab_ok k i vs m \<Longrightarrow> read_table k m i = Some vs" "tab_ok k i vs m \<Longrightarrow> table_size (tracks m i) k = length vs"
  using idx_read_ok by (auto simp: tab_ok_def read_table_def idx_inv_def Let_def)

lemma lengths [simp]: "length (offsets cs) = length cs" "length (counts cs) = length cs"
  "length (sizes cs) = length (samples cs)"
  by (simp_all add: offsets_def counts_def sizes_def)

lemma last_packet_ok:
  assumes inv: "rec_inv m cs" and cs: "cs \<noteq> []" and n: "length cs < cache_size STSC_ID"
  shows "\<exists>m'. mov_last_packet m = Some m' \<and> all_tables m' cs \<and> frozen m' = frozen m \<and>
    mdat_size m' = mdat_size m \<and> keyFrame_num (tracks m' 0) = keyFrame_num (tracks m 0)"
proof -
  define l where "l = c_stream (last cs)"
  have t: "tables m cs" "size_tables m cs" "time_table m cs" using inv by (simp_all add: rec_inv_def)
  have l: "last_stream_index m = Some l" "stsc_cnt m = length (c_samples (last cs))" "l < 2"
    using t(1) cs by (auto simp: tables_def l_def)
  have sc: "tab_ok STSC_ID j (counts (closed j cs)) m" "tiny_pages (tracks m j) STSC_ID = 0" if "j < 2" for j
    using t(1) that by (auto simp: tables_def)
  let ?x = "tabs m STSC_ID l" and ?vs = "counts (closed l cs)" and ?cap = "cache_size STSC_ID"
  have i: "table_size (tracks m l) STSC_ID = length ?vs" "wr ?x = length ?vs mod ?cap" "rd ?x = 0"
    "\<And>k. k < length ?vs \<Longrightarrow> ring ?x (k mod ?cap) = ?vs ! k"
    using sc [OF l(3)] by (auto simp: tab_ok_def idx_inv_def Let_def)
  have lv: "length ?vs < ?cap" using length_closed [OF cs, of l] n by simp
  then have w: "wr ?x = length ?vs" using i(2) by simp
  let ?v = "of_nat (stsc_cnt m) :: u32"
  define m' where "m' = upd_track l (\<lambda>t. t\<lparr>table_size := (table_size t)(STSC_ID := table_size t STSC_ID + 1)\<rparr>)
    (set_tab STSC_ID l (?x\<lparr>ring := (ring ?x)(length ?vs := ?v), wr := length ?vs + 1\<rparr>) m)"
  have m': "mov_last_packet m = Some m'" using l lv w by (simp add: mov_last_packet_def idx_store_def m'_def)
  have touch: "touch STSC_ID l m m'"
    by (rule touchI [where x = "?x\<lparr>ring := (ring ?x)(length ?vs := ?v), wr := length ?vs + 1\<rparr>"
          and n = "table_size (tracks m l) STSC_ID + 1" and p = "tiny_pages (tracks m l) STSC_ID" and t = "tmp m"])
      (simp add: m'_def upd_track_def set_tab_def)
  have cl: "closed j cs = of_stream j cs" if "j \<noteq> l" for j
    using cs l(2) that by (cases cs rule: rev_cases; auto simp: closed_def l_def counts_def)+
  have cl1: "?vs @ [?v] = counts (of_stream l cs)"
    using cs l(2) by (cases cs rule: rev_cases) (auto simp: closed_def l_def counts_def)
  have lc: "Suc (length ?vs) = length (of_stream l cs)"
    using arg_cong [OF cl1, of length] by (simp only: lengths length_append list.size)
  have "map (\<lambda>k. ((ring ?x)(length ?vs := ?v)) ((0 + k) mod ?cap)) [0..<Suc (length ?vs)] = ?vs @ [?v]"
    using i(4) lv by (intro nth_equalityI) (auto simp: nth_append less_Suc_eq)
  moreover have "ring_read ?cap False ((ring ?x)(length ?vs := ?v)) 0 (Suc (length ?vs)) =
      Some (map (\<lambda>k. ((ring ?x)(length ?vs := ?v)) ((0 + k) mod ?cap)) [0..<Suc (length ?vs)])"
    using lv by (intro ring_read_eq) auto
  ultimately have rr: "ring_read ?cap False ((ring ?x)(length ?vs := ?v)) 0 (Suc (length ?vs)) = Some (?vs @ [?v])"
    by simp
  have rl: "read_table STSC_ID m' l = Some (counts (of_stream l cs))"
    using i(1,3) sc(2) [OF l(3)] rr [unfolded cl1]
    by (simp add: read_table_def idx_read_def m'_def upd_track_def set_tab_def del: upt_Suc ring_read.simps)
  have rn: "table_size (tracks m' l) STSC_ID = length (of_stream l cs)"
    using i(1) lc by (simp add: m'_def upd_track_def set_tab_def)
  have "read_table STSC_ID m' j = Some (counts (of_stream j cs)) \<and> table_size (tracks m' j) STSC_ID = length (of_stream j cs)"
    if "j < 2" for j
  proof (cases "j = l")
    case False
    then have "tab_ok STSC_ID j (counts (of_stream j cs)) m'"
      using sc(1) [OF that] cl [OF False] by (simp add: touch_tab_ok [OF touch])
    then show ?thesis using tab_ok_read by fastforce
  qed (use rl rn in simp)
  moreover have "tab_ok STCO_ID j (offsets (of_stream j cs)) m'" "tab_ok STSZ_ID j (sizes (of_stream j cs)) m'" if "j < 2" for j
    using t(1,2) that by (simp_all add: tables_def size_tables_def touch_tab_ok [OF touch])
  moreover obtain ds where "tab_ok STTS_ID 0 ds m'" "length ds = length (samples (of_stream 0 cs))"
    using t(3) by (auto simp: time_table_def touch_tab_ok [OF touch])
  ultimately have "all_tables m' cs"
    using tab_ok_read by (fastforce simp: all_tables_def)
  then show ?thesis using m' touch_frozen [OF touch] touch_sel [OF touch] by simp
qed

section \<open>The header box\<close>

text \<open>What the header box needs of a track, apart from its tables.\<close>

definition track_set :: "MOVTrack \<Rightarrow> bool" where
  "track_set t \<longleftrightarrow> vos_ok t \<and> track_timescale t \<noteq> 0 \<and> codec_id (enc t) \<notin> {CODEC_ID_PCM, CODEC_ID_GGAD}"

definition stream_has :: "nat \<Rightarrow> chunk list \<Rightarrow> byte list \<Rightarrow> bool" where
  "stream_has i cs p \<longleftrightarrow> (\<forall>F. length p < 2 ^ 32 \<longrightarrow> (\<forall>c \<in> set cs. in_file F c) \<longrightarrow>
     read_trak F p = Some (samples (of_stream i cs)))"

lemma track_ok_tables:
  assumes t: "all_tables m cs" and s: "track_set (tracks m i)" and i: "i < 2"
    and ne: "samples (of_stream i cs) \<noteq> []" and ty: "i \<noteq> 0 \<Longrightarrow> codec_type (enc (tracks m i)) \<noteq> CODEC_TYPE_VIDEO"
  shows "track_ok m i"
proof (cases "i = 0")
  case True
  then show ?thesis using t s ne by (auto simp: track_ok_def track_set_def all_tables_def readable_def)
next
  case False
  then show ?thesis using t s i ty by (auto simp: track_ok_def track_set_def all_tables_def readable_def)
qed

lemma trak_read:
  assumes t: "all_tables m cs" and s: "track_set (tracks m i)" and i: "i < 2"
    and ne: "samples (of_stream i cs) \<noteq> []" and ty: "i \<noteq> 0 \<Longrightarrow> codec_type (enc (tracks m i)) \<noteq> CODEC_TYPE_VIDEO"
  shows "\<exists>n c p. movGetTrakTagSize (tracks m i) = Some n \<and> mov_write_trak_tag m i = Some c \<and> sized_calls c = n \<and>
    bytes_of c = box ''trak'' p \<and> blen c \<le> trak_bytes (tracks m i) \<and> stream_has i cs p"
proof -
  have ok: "track_ok m i" by (rule track_ok_tables [OF assms])
  have r: "read_table STSC_ID m i = Some (counts (of_stream i cs))" "read_table STSZ_ID m i = Some (sizes (of_stream i cs))"
    "read_table STCO_ID m i = Some (offsets (of_stream i cs))"
    using t i by (auto simp: all_tables_def)
  from trak_written [OF ok r] obtain n c tkhd mdhd hdlr mh mhd dinf stsd stts stss where
    w: "movGetTrakTagSize (tracks m i) = Some n" "mov_write_trak_tag m i = Some c" "sized_calls c = n"
      "length mh = 4" "mh \<noteq> ''dinf''" "mh \<noteq> ''stbl''"
      "bytes_of c = box ''trak'' (trak_payload tkhd mdhd hdlr mh mhd dinf
        (stbl_bytes stsd stts stss (counts (of_stream i cs)) (sizes (of_stream i cs)) (offsets (of_stream i cs))))"
    by blast
  have "stream_has i cs (trak_payload tkhd mdhd hdlr mh mhd dinf
      (stbl_bytes stsd stts stss (counts (of_stream i cs)) (sizes (of_stream i cs)) (offsets (of_stream i cs))))"
    unfolding stream_has_def using read_trak_eq [OF _ w(4-6) in_file_of_stream] by blast
  then show ?thesis using w blen_trak [OF ok w(2)] by blast
qed

lemma traks_written:
  assumes t: "all_tables m cs" and s: "\<And>i. i < 2 \<Longrightarrow> track_set (tracks m i)"
    and ty: "\<And>i. i \<noteq> 0 \<Longrightarrow> codec_type (enc (tracks m i)) \<noteq> CODEC_TYPE_VIDEO"
    and js: "\<forall>i \<in> set js. i < 2"
  shows "\<exists>n c ps. trak_sizes m js = Some n \<and> write_traks m js = Some c \<and> sized_calls c = n \<and>
    bytes_of c = concat (map (box ''trak'') ps) \<and> blen c \<le> (\<Sum>i\<leftarrow>js. trak_bytes (tracks m i)) \<and>
    list_all2 (\<lambda>i. stream_has i cs) (filter (\<lambda>i. samples (of_stream i cs) \<noteq> []) js) ps"
  using js
proof (induction js)
  case (Cons i js)
  then have i: "i < 2" by simp
  from Cons obtain n c ps where IH: "trak_sizes m js = Some n" "write_traks m js = Some c" "sized_calls c = n"
    "bytes_of c = concat (map (box ''trak'') ps)" "blen c \<le> (\<Sum>i\<leftarrow>js. trak_bytes (tracks m i))"
    "list_all2 (\<lambda>i. stream_has i cs) (filter (\<lambda>i. samples (of_stream i cs) \<noteq> []) js) ps"
    by auto
  have sz: "table_size (tracks m i) STSZ_ID = length (samples (of_stream i cs))"
    using t i by (auto simp: all_tables_def)
  show ?case
  proof (cases "samples (of_stream i cs) = []")
    case True
    then show ?thesis using IH sz by (intro exI [of _ n] exI [of _ c] exI [of _ ps]) simp
  next
    case False
    from trak_read [OF t s [OF i] i False ty] obtain n1 c1 p where
      p: "movGetTrakTagSize (tracks m i) = Some n1" "mov_write_trak_tag m i = Some c1" "sized_calls c1 = n1"
        "bytes_of c1 = box ''trak'' p" "blen c1 \<le> trak_bytes (tracks m i)" "stream_has i cs p"
      by blast
    show ?thesis
      using IH sz p False
      by (intro exI [of _ "n1 + n"] exI [of _ "c1 @ c"] exI [of _ "p # ps"]) simp
  qed
qed simp

lemma trak_size_fields: "movGetTrakTagSize (t\<lparr>track_time := a, trackID := b\<rparr>) = movGetTrakTagSize t"
  by (cases "codec_type (enc t)")
    (simp_all add: movGetTrakTagSize_def movGetMdiaTagSize_def movGetMinfTagSize_def movGetStblTagSize_def
      movGetStsdTagSize_def movGetVideoTagSize_def movGetAudioTagSize_def movGetAvccTagSize_def movGetHvccTagSize_def
      movGetEsdsTagSize_def dsi_len_def movGetSttsTagSize_def movGetStssTagSize_def movGetStscTagSize_def
      movGetStszTagSize_def movGetStcoTagSize_def)

lemma trak_sizes_fields: "trak_sizes (moov_fields m) js = trak_sizes m js"
  by (induction js) (simp_all add: moov_fields_def trak_size_fields)

lemma fields_keep:
  "all_tables (moov_fields m) cs = all_tables m cs" "track_set (tracks (moov_fields m) i) = track_set (tracks m i)"
  "enc (tracks (moov_fields m) i) = enc (tracks m i)" "trak_bytes (tracks (moov_fields m) i) = trak_bytes (tracks m i)"
  by (simp_all add: all_tables_def read_table_def moov_fields_def track_set_def vos_ok_def trak_bytes_def
      vos_bytes_def table_bytes_def)

text \<open>The header box, and what a reader gets from it.\<close>

lemma moov_written:
  assumes t: "all_tables m cs" and s: "\<And>i. i < 2 \<Longrightarrow> track_set (tracks m i)"
    and ty: "\<And>i. i \<noteq> 0 \<Longrightarrow> codec_type (enc (tracks m i)) \<noteq> CODEC_TYPE_VIDEO"
    and n: "nb_streams m = 2" "\<not> geo_available m"
  shows "\<exists>n c mvhd ps. movGetMoovTagSize m = Some n \<and> write_moov_box m = Some c \<and> sized_calls c = n \<and>
    bytes_of c = box ''moov'' (box ''mvhd'' mvhd @ concat (map (box ''trak'') ps)) \<and>
    116 \<le> blen c \<and> blen c \<le> 116 + trak_bytes (tracks m 0) + trak_bytes (tracks m 1) \<and>
    list_all2 (\<lambda>i. stream_has i cs) (filter (\<lambda>i. samples (of_stream i cs) \<noteq> []) [0, 1]) ps"
proof -
  have js: "[0..<2] = [0, 1 :: nat]" by (simp add: numeral_2_eq_2)
  have nf: "nb_streams (moov_fields m) = 2" using n by (simp add: moov_fields_def)
  have j: "\<forall>i \<in> set [0, 1 :: nat]. i < 2" by simp
  from traks_written [of "moov_fields m" cs "[0, 1]", unfolded fields_keep trak_sizes_fields, OF t s ty j] obtain k c ps where
    w: "trak_sizes m [0, 1] = Some k" "write_traks (moov_fields m) [0, 1] = Some c" "sized_calls c = k"
      "bytes_of c = concat (map (box ''trak'') ps)" "blen c \<le> (\<Sum>i\<leftarrow>[0, 1]. trak_bytes (tracks m i))"
      "list_all2 (\<lambda>i. stream_has i cs) (filter (\<lambda>i. samples (of_stream i cs) \<noteq> []) [0, 1]) ps"
    by blast
  have le: "blen c \<le> trak_bytes (tracks m 0) + trak_bytes (tracks m 1)" using w(5) by simp
  let ?mv = "mov_write_mvhd_tag (moov_fields m)"
  obtain d where d: "?mv = put_be32_cache movGetMvhdTagSize @ put_tag_cache ''mvhd'' @ d"
    by (simp add: mov_write_mvhd_tag_def Let_def)
  have "movGetMvhdTagSize = 8 + sized_calls d"
    using mvhd_size [of "moov_fields m"] unfolding d by simp
  then have mv: "bytes_of ?mv = box ''mvhd'' (bytes_of d)" unfolding d by (rule box_written [rotated]) simp
  let ?n = "8 + movGetMvhdTagSize + k"
  have sz: "movGetMoovTagSize m = Some ?n"
    using w(1) n by (simp add: movGetMoovTagSize_def js)
  have wr: "write_moov_box m = Some (put_be32_cache ?n @ put_tag_cache ''moov'' @ ?mv @ c)"
    using sz w(2) n nf by (simp add: write_moov_box_def js Let_def)
  have "bytes_of (put_be32_cache ?n @ put_tag_cache ''moov'' @ ?mv @ c) =
      box ''moov'' (box ''mvhd'' (bytes_of d) @ concat (map (box ''trak'') ps))"
    by (subst box_written) (simp_all add: mv w(3,4) mvhd_size)
  then show ?thesis
    using sz wr w(3,6) le mvhd_size [of "moov_fields m"] blen_fixed(6) [of "moov_fields m"]
    by (intro exI [of _ ?n] exI [of _ "put_be32_cache ?n @ put_tag_cache ''moov'' @ ?mv @ c"]
        exI [of _ "bytes_of d"] exI [of _ ps]) simp
qed

text \<open>The tracks that a reader finds in it.\<close>

lemma all_boxes_traks:
  assumes "length (concat (map (box ''trak'') ps)) < 2 ^ 32"
  shows "all_boxes ''trak'' (concat (map (box ''trak'') ps)) = ps"
  using assms
proof (induction ps)
  case (Cons p ps)
  then show ?case by (simp add: all_boxes_box length_box)
qed (simp add: all_boxes_def)

lemma read_traks:
  assumes l: "list_all2 (\<lambda>i. stream_has i cs) js ps" and n: "length (concat (map (box ''trak'') ps)) < 2 ^ 32"
    and F: "\<forall>c \<in> set cs. in_file F c"
  shows "map (read_trak F) ps = map (\<lambda>i. Some (samples (of_stream i cs))) js"
  using l n
proof (induction rule: list_all2_induct)
  case (Cons i js p ps)
  then show ?case using F by (simp add: length_box stream_has_def)
qed simp

section \<open>The file\<close>

lemma fs_fits_simps:
  "p < max_offset \<Longrightarrow> fs_fits (map FsWrite cs @ ops) p \<longleftrightarrow>
    p + blen cs < max_offset \<and> fs_fits ops (p + blen cs)"
  using fs_fits_writes_append [of p cs ops] by (simp add: blen_def)

definition ftyp_payload :: "byte list" where
  "ftyp_payload = tag_bytes ''isom'' @ be32 0x200 @ tag_bytes ''isom'' @ tag_bytes ''iso2'' @ tag_bytes ''mp41''"

lemma ftyp_box: "bytes_of mov_write_ftyp_tag = box ''ftyp'' ftyp_payload" "length ftyp_payload = 20"
  by (simp_all add: mov_write_ftyp_tag_def calls_simps box_def ftyp_payload_def)

lemma free_box: "n = of_nat (8 + k) \<Longrightarrow> bytes_of (mov_write_free_tag n) @ replicate k 0 = box ''free'' (replicate k 0)"
  by (simp add: mov_write_free_tag_def calls_simps box_def)

text \<open>Everything a recording does to the writer.\<close>

definition record_ops :: "calls \<Rightarrow> bool \<Rightarrow> calls \<Rightarrow> u32 \<Rightarrow> fsop list" where
  "record_ops body fits moov n =
     map FsWrite (mov_write_ftyp_tag @ mov_write_free_tag (of_nat (MOV_HEADER_RESERVE_SIZE - 28))) @
     FsSeek MOV_HEADER_RESERVE_SIZE # map FsWrite (put_be32_cache 0 @ put_tag_cache ''mdat'') @ map FsWrite body @
     (if fits then [FsSeek 28] else []) @ map FsWrite moov @
     (if fits then map FsWrite (mov_write_free_tag (of_nat MOV_HEADER_RESERVE_SIZE - n - 28)) else []) @
     FsSeek MOV_HEADER_RESERVE_SIZE # map FsWrite (put_be32_cache (of_nat (blen body) + 8)) @ [FsFlush]"

lemma record_fits:
  assumes "MOV_HEADER_RESERVE_SIZE + 64 + blen body + blen moov < 2 ^ 32" "36 \<le> MOV_HEADER_RESERVE_SIZE"
  shows "fs_fits (record_ops body fits moov n) 0"
proof -
  have m: "k < 2 ^ 32 - 1 \<Longrightarrow> k < max_offset" for k by (simp add: max_offset_def)
  have b: "blen mov_write_ftyp_tag = 28" "blen (mov_write_free_tag k) = 8" for k
    by (simp_all add: mov_write_ftyp_tag_def mov_write_free_tag_def)
  define R where "R = MOV_HEADER_RESERVE_SIZE"
  have p: "0 < max_offset" "28 < max_offset" "36 < max_offset" "R < max_offset" "R + 8 < max_offset"
    "R + 8 + blen body < max_offset" "R + 8 + blen body + blen moov < max_offset"
    "28 + blen moov < max_offset" "36 + blen moov < max_offset" "R + 4 < max_offset"
    by (rule m, use assms R_def in simp)+
  then show ?thesis
    by (cases fits) (simp_all add: record_ops_def fs_fits_simps b R_def [symmetric] add.commute add.left_commute del: map_append)
qed

lemma record_view:
  assumes R: "36 \<le> MOV_HEADER_RESERVE_SIZE" and moov: "116 \<le> blen moov" "of_nat (blen moov) = n"
    and fit: "fits \<longleftrightarrow> blen moov + 36 \<le> MOV_HEADER_RESERVE_SIZE"
    and zs: "zs = (\<lambda>k. box ''free'' (replicate k 0))" and ft: "ft = box ''ftyp'' ftyp_payload"
    and md_eq: "md = box ''mdat'' (bytes_of body)"
  shows "fst (fs_view (record_ops body fits moov n) ([], 0)) =
    (if fits then ft @ bytes_of moov @ zs (MOV_HEADER_RESERVE_SIZE - 36 - blen moov) @ md
     else ft @ zs (MOV_HEADER_RESERVE_SIZE - 36) @ md @ bytes_of moov)"
proof -
  define R where "R = MOV_HEADER_RESERVE_SIZE"
  define f0 where "f0 = bytes_of (mov_write_free_tag (of_nat (R - 28)))"
  define f1 where "f1 = bytes_of (mov_write_free_tag (of_nat R - n - 28))"
  have l: "length ft = 28" "length f0 = 8" "length f1 = 8"
    by (simp_all add: ft length_box ftyp_box f0_def f1_def mov_write_free_tag_def calls_simps)
  have R': "36 \<le> R" using R by (simp add: R_def)
  let ?Z = "\<lambda>k. replicate k (0 :: byte)"
  let ?m0 = "be32 0 @ tag_bytes ''mdat'' @ bytes_of body" and ?sz = "be32 (of_nat (blen body) + 8)"
  have md: "md = ?sz @ tag_bytes ''mdat'' @ bytes_of body"
    by (simp add: md_eq box_def blen_def add.commute)
  define d where "d = ft @ f0 @ ?Z (R - 36) @ ?m0"
  have d: "file_put (ft @ f0) R ?m0 = d"
    using file_put_hole [of "ft @ f0" R ?m0] R' l by (simp add: d_def be32_def)
  have start: "fs_view (record_ops body fits moov n) ([], 0) =
    fs_view ((if fits then [FsSeek 28] else []) @ map FsWrite moov @
      (if fits then map FsWrite (mov_write_free_tag (of_nat R - n - 28)) else []) @
      FsSeek R # map FsWrite (put_be32_cache (of_nat (blen body) + 8)) @ [FsFlush]) (d, length d)"
  proof -
    have "fput (fput ([], 0) (ft @ f0)) [] = (ft @ f0, 36)" using l by (simp add: fput_def file_put_def)
    moreover have "fput (ft @ f0, R) ?m0 = (d, length d)"
      using R' l by (simp add: fput_def d) (simp add: d_def)
    ultimately show ?thesis
      unfolding record_ops_def R_def [symmetric]
      by (simp add: fs_view_append fs_view_writes fput_append calls_simps ftyp_box ft [symmetric] f0_def [symmetric]
          del: map_append)
  qed
  show ?thesis
  proof (cases fits)
    case True
    have b: "blen moov + 36 \<le> R" using fit True by (simp add: R_def)
    define k where "k = R - 36 - blen moov"
    have "?Z (R - 36) = ?Z (blen moov) @ ?Z k" unfolding replicate_add [symmetric] k_def using b by simp
    then have d1: "d = ft @ (f0 @ ?Z (blen moov)) @ ?Z k @ ?m0" by (simp add: d_def)
    have p1: "file_put d 28 (bytes_of moov @ f1) = ft @ (bytes_of moov @ f1) @ ?Z k @ ?m0"
      unfolding d1 by (rule file_put_patch) (simp_all add: l blen_def)
    have "(of_nat R :: u32) - n - 28 = of_nat (8 + k)"
      using moov(2) b by (auto simp: k_def of_nat_diff)
    then have z: "f1 @ ?Z k = zs k" unfolding f1_def zs by (rule free_box)
    have p2: "file_put (ft @ (bytes_of moov @ f1) @ ?Z k @ ?m0) R ?sz =
        (ft @ bytes_of moov @ f1 @ ?Z k) @ ?sz @ tag_bytes ''mdat'' @ bytes_of body"
      using file_put_patch [of "ft @ bytes_of moov @ f1 @ ?Z k" R ?sz "be32 0" "tag_bytes ''mdat'' @ bytes_of body"]
      using l b by (simp add: blen_def k_def)
    have "fst (fs_view (record_ops body fits moov n) ([], 0)) = (ft @ bytes_of moov @ f1 @ ?Z k) @ md"
      unfolding start md using True p1 p2
      by (simp add: fs_view_append fs_view_writes fput_def calls_simps f1_def [symmetric] file_put_append [of d 28, symmetric])
    then show ?thesis using True z by (simp add: k_def R_def)
  next
    case False
    have z: "f0 @ ?Z (R - 36) = zs (R - 36)"
      unfolding f0_def zs using R' by (intro free_box) simp
    have p2: "file_put (d @ bytes_of moov) R ?sz =
        (ft @ f0 @ ?Z (R - 36)) @ ?sz @ tag_bytes ''mdat'' @ bytes_of body @ bytes_of moov"
      using file_put_patch [of "ft @ f0 @ ?Z (R - 36)" R ?sz "be32 0" "tag_bytes ''mdat'' @ bytes_of body @ bytes_of moov"]
      using l R' by (simp add: d_def)
    have "fst (fs_view (record_ops body fits moov n) ([], 0)) = (ft @ f0 @ ?Z (R - 36)) @ md @ bytes_of moov"
      unfolding start md using False p2
      by (simp add: fs_view_append fs_view_writes fput_def calls_simps)
    then show ?thesis using False z by (simp add: R_def)
  qed
qed

section \<open>From the settings to the first packet\<close>

definition stream_codec :: "mp4_media_inf \<Rightarrow> nat \<Rightarrow> CodecID" where
  "stream_codec info i =
     (if i = 0 then (if mVideoEncodeType info = VENC_CODEC_JPEG then CODEC_ID_MJPEG else CODEC_ID_H264)
      else if i = 1 then CODEC_ID_AAC else codec_id (blank_codec CODEC_TYPE_TEXT))"

text \<open>A recording without GPS data, of motion JPEG or of H.264 with both parameter sets, and of AAC.\<close>

definition info_ok :: "mp4_media_inf \<Rightarrow> byte list \<Rightarrow> bool" where
  "info_ok info vos \<longleftrightarrow>
     (mVideoEncodeType info = VENC_CODEC_JPEG \<or> mVideoEncodeType info = VENC_CODEC_H264 \<and>
        (\<exists>items sps pps. vos_stream items sps pps \<and> fst (hd items) = 3 \<and> vos = annexb items)) \<and>
     inf_audio_encode_type info \<noteq> AUDIO_ENCODER_PCM_TYPE \<and> inf_sample_rate info \<noteq> 0 \<and> \<not> inf_geo_available info"

definition mp4_start ::
  "(CHUNKID \<Rightarrow> nat \<Rightarrow> nat \<Rightarrow> u32) \<Rightarrow> (nat \<Rightarrow> u32) \<Rightarrow> (nat \<Rightarrow> u32 \<times> u32) \<Rightarrow> mp4_media_inf \<Rightarrow> byte list \<Rightarrow> byte list \<Rightarrow> mp4_ctx" where
  "mp4_start mem keymem gmem info vos avos =
     Mp4MuxerWriteVos avos 1 (Mp4MuxerWriteVos vos 0 (mp4_SETAVPARA gmem info (Mp4MuxerOpen mem keymem)))"

definition vos_len :: "byte list \<Rightarrow> byte list \<Rightarrow> nat" where
  "vos_len vos avos = 131081 + length vos + length avos"

text \<open>The tracks as the header leaves them; the packets and the total time keep all this.\<close>

definition tracks_ready :: "(nat \<Rightarrow> CodecID) \<Rightarrow> nat \<Rightarrow> (nat \<Rightarrow> MOVTrack) \<Rightarrow> bool" where
  "tracks_ready cd vl ts \<longleftrightarrow>
     (\<forall>i. codec_id (enc (ts i)) = cd i) \<and> track_set (ts 0) \<and> track_set (ts 1) \<and>
     (\<forall>i. i \<noteq> 0 \<longrightarrow> codec_type (enc (ts i)) \<noteq> CODEC_TYPE_VIDEO) \<and> vos_bytes (ts 0) + vos_bytes (ts 1) \<le> vl"

lemma mjpa_tag: "MKTAG (CHR ''m'') (CHR ''j'') (CHR ''p'') (CHR ''a'') \<noteq> TAG_avc1"
    "MKTAG (CHR ''m'') (CHR ''j'') (CHR ''p'') (CHR ''a'') \<noteq> TAG_hvc1"
  and mp4a_tag: "MKTAG (CHR ''m'') (CHR ''p'') (CHR ''4'') (CHR ''a'') \<noteq> TAG_avc1"
    "MKTAG (CHR ''m'') (CHR ''p'') (CHR ''4'') (CHR ''a'') \<noteq> TAG_hvc1"
  by (simp_all add: TAG_avc1_def TAG_hvc1_def MKTAG_def of_char_def)

lemmas start_defs = mov_write_header_def mp4_start_def Mp4MuxerWriteVos_def mp4_SETAVPARA_def Mp4MuxerOpen_def
  mov_write_mdat_tag_def upd_enc_def upd_track_def Let_def blank_track_def blank_codec_def

lemma header_done:
  assumes ok: "info_ok info vos"
    and r_def: "r = mov_write_header (mp4_start mem keymem gmem info vos avos)" and m_def: "m = ctx_mov (fst r)"
  shows "rec_inv m []" "tracks_ready (stream_codec info) (vos_len vos avos) (tracks m)"
    "nb_streams m = 2" "\<not> geo_available m" "free_pos m = 28" "mdat_pos m = MOV_HEADER_RESERVE_SIZE"
    "mdat_start_pos m = MOV_HEADER_RESERVE_SIZE + 8" "keyFrame_num (tracks m 0) = 0"
    "snd r = map FsWrite (mov_write_ftyp_tag @ mov_write_free_tag (of_nat (MOV_HEADER_RESERVE_SIZE - 28))) @
      FsSeek MOV_HEADER_RESERVE_SIZE # map FsWrite (put_be32_cache 0 @ put_tag_cache ''mdat'')"
    "tab_ok k j [] m"
proof -
  show "nb_streams m = 2" "\<not> geo_available m" "free_pos m = 28" "mdat_pos m = MOV_HEADER_RESERVE_SIZE"
    "mdat_start_pos m = MOV_HEADER_RESERVE_SIZE + 8" "keyFrame_num (tracks m 0) = 0"
    "snd r = map FsWrite (mov_write_ftyp_tag @ mov_write_free_tag (of_nat (MOV_HEADER_RESERVE_SIZE - 28))) @
      FsSeek MOV_HEADER_RESERVE_SIZE # map FsWrite (put_be32_cache 0 @ put_tag_cache ''mdat'')"
    using ok by (simp_all add: m_def r_def start_defs info_ok_def)
  have g: "\<not> inf_geo_available info" "inf_audio_encode_type info \<noteq> AUDIO_ENCODER_PCM_TYPE"
    "mVideoEncodeType info = VENC_CODEC_JPEG \<or> mVideoEncodeType info = VENC_CODEC_H264"
    using ok by (auto simp: info_ok_def)
  have i: "table_size (tracks m j) = (\<lambda>_. 0)" "tiny_pages (tracks m j) = (\<lambda>_. 0)"
    "tabs m k j = \<lparr>ring = mem k j, wr = 0, rd = 0, cached = 0, page_file = []\<rparr>" for k j
    using g(1) by (simp_all add: m_def r_def start_defs)
  have i2: "tmp m = \<lparr>tmp_fd = [], tmp_io = []\<rparr>" "last_stream_index m = None" "mdat_size m = 0"
    using g(1) by (simp_all add: m_def r_def start_defs)
  have tab: "tab_ok k j [] m" for k j
    by (cases k) (simp_all add: tab_ok_def idx_inv_def i Let_def cache_size_def MOV_CACHE_TINY_PAGE_SIZE_def)
  then show "tab_ok k j [] m" .
  from tab show "rec_inv m []"
    by (simp add: rec_inv_def tables_def size_tables_def time_table_def i i2 io_ok_def closed_def)
  have tr: "vosData (tracks m 0) = vos" "vosData (tracks m 1) = avos"
    "track_timescale (tracks m 0) = 1000" "track_timescale (tracks m 1) = inf_sample_rate info"
    "\<And>i. codec_type (enc (tracks m i)) = (if i = 0 then CODEC_TYPE_VIDEO
      else if i = 1 then CODEC_TYPE_AUDIO else CODEC_TYPE_TEXT)"
    using g(1) by (simp_all add: m_def r_def start_defs)
  have cd: "codec_id (enc (tracks m 0)) = stream_codec info 0" "tag (tracks m 0) =
      (if mVideoEncodeType info = VENC_CODEC_JPEG then MKTAG (CHR ''m'') (CHR ''j'') (CHR ''p'') (CHR ''a'') else TAG_avc1)"
    using g(1,3) by (auto simp add: m_def r_def start_defs stream_codec_def mov_find_codec_tag_def TAG_avc1_def)
  have cd1: "codec_id (enc (tracks m 1)) = stream_codec info 1"
    "tag (tracks m 1) = MKTAG (CHR ''m'') (CHR ''p'') (CHR ''4'') (CHR ''a'')"
    using g(1,2) by (cases "inf_audio_encode_type info"; simp add: m_def r_def start_defs stream_codec_def mov_find_codec_tag_def)+
  have v: "vos_ok (tracks m 0) \<and> vos_bytes (tracks m 0) \<le> 131081 + length vos"
  proof (cases "mVideoEncodeType info = VENC_CODEC_JPEG")
    case True
    then show ?thesis using cd(2) tr(1) by (simp add: vos_ok_def vos_bytes_def mjpa_tag)
  next
    case False
    then obtain items sps pps where v: "vos_stream items sps pps" "fst (hd items) = 3" "vos = annexb items"
      using ok by (auto simp: info_ok_def)
    from avcc_written [OF v(1), of 0] obtain c where
      c: "ff_isom_write_avcc True 0 vos = Some (0, c)" "concat c = avcc_record sps pps" unfolding v(3) .
    have len: "blen c \<le> 131081" "sized_calls c = of_nat (length (avcc_record sps pps))"
      using c(2) v(1) by (simp_all add: blen_def avcc_record_def vos_stream_def sized_calls_def)
    have "FFIsomGetAvccSize True 0 vos = Some (of_nat (length (avcc_record sps pps)))"
      using avcc_size [OF v(1,2), of 0] v(3) by simp
    then show ?thesis using cd(2) False tr(1,5) c len tags_distinct
      by (simp add: vos_ok_def vos_bytes_def)
  qed
  have a: "vos_ok (tracks m 1)" "vos_bytes (tracks m 1) \<le> length avos"
    using cd1(2) tr(2) by (simp_all add: vos_ok_def vos_bytes_def mp4a_tag)
  have "codec_id (enc (tracks m i)) = stream_codec info i" for i
  proof (cases "i < 2")
    case True
    then show ?thesis using cd(1) cd1(1) by (auto simp: less_2_cases_iff)
  next
    case False
    then show ?thesis using g(1) by (simp add: m_def r_def start_defs stream_codec_def)
  qed
  then show "tracks_ready (stream_codec info) (vos_len vos avos) (tracks m)"
    using v a tr(3-5) cd(1) cd1(1) ok
    by (simp add: tracks_ready_def track_set_def vos_len_def info_ok_def stream_codec_def)
qed

section \<open>From the first packet to the file\<close>

text \<open>A chunk begins whenever the stream changes.\<close>

definition chunk_count :: "AVPacket list \<Rightarrow> nat" where
  "chunk_count ps = length (remdups_adj (map stream_index ps))"

lemma rec_chunks_count:
  "cs \<noteq> [] \<Longrightarrow> Suc (length (rec_chunks cd base ps cs)) =
    length cs + length (remdups_adj (c_stream (last cs) # map stream_index ps))"
  by (induction ps arbitrary: cs) (simp_all add: add_sample_def)

lemma length_rec_chunks: "length (rec_chunks cd base ps []) = chunk_count ps"
proof (cases ps)
  case (Cons p qs)
  let ?cs = "add_sample (stream_index p) (sample_of (cd (stream_index p)) p) base []"
  have "length ?cs = 1" "?cs \<noteq> []" "c_stream (last ?cs) = stream_index p" by (simp_all add: add_sample_def)
  then show ?thesis using rec_chunks_count [of ?cs cd base qs] Cons by (simp add: chunk_count_def)
qed (simp add: chunk_count_def)

definition body_size :: "AVPacket list \<Rightarrow> nat" where
  "body_size ps = (\<Sum>p\<leftarrow>ps. length (data0 p) + length (data1 p) + 2)"

lemma body_size_bound:
  "\<forall>p \<in> set ps. packet_ok p \<Longrightarrow>
    length (concat (map (\<lambda>p. sample_of (cd (stream_index p)) p) ps)) \<le> body_size ps"
  by (induction ps) (auto simp: body_size_def length_sample_of)

lemma length_samples_rec: "length (samples (rec_chunks cd base ps cs)) = length (samples cs) + length ps"
proof (induction ps arbitrary: cs)
  case (Cons p ps)
  have "length (samples (add_sample i b pos cs)) = Suc (length (samples cs))" for i b pos
    by (cases cs rule: rev_cases) (auto simp: add_sample_def samples_def)
  then show ?case using Cons.IH by simp
qed simp

lemma rec_chunks_nonempty: "cs \<noteq> [] \<or> ps \<noteq> [] \<Longrightarrow> rec_chunks cd base ps cs \<noteq> []"
proof (induction ps arbitrary: cs)
  case (Cons p ps)
  have "add_sample i b pos cs \<noteq> []" for i b pos by (simp add: add_sample_def)
  then show ?case using Cons.IH by simp
qed simp

lemma total_time:
  "\<exists>d. ctx_mov (mp4_SETTOTALTIME ms c) = (ctx_mov c)\<lparr>tracks := \<lambda>i. (tracks (ctx_mov c) i)\<lparr>trackDuration := d i\<rparr>\<rparr>"
proof -
  define f where "f = (\<lambda>t :: MOVTrack. of_nat ((unat ms * unat (track_timescale t)) div 1000) :: u32)"
  have "mp4_SETTOTALTIME ms c = c\<lparr>ctx_mov := (ctx_mov c)\<lparr>tracks := \<lambda>i. (tracks (ctx_mov c) i)
    \<lparr>trackDuration := if i \<le> 2 then f (tracks (ctx_mov c) i) else trackDuration (tracks (ctx_mov c) i)\<rparr>\<rparr>\<rparr>"
    by (auto simp: mp4_SETTOTALTIME_def upd_track_def Let_def f_def fun_eq_iff)
  then show ?thesis by auto
qed

lemma duration_keeps:
  assumes "m' = m\<lparr>tracks := \<lambda>i. (tracks m i)\<lparr>trackDuration := d i\<rparr>\<rparr>"
  shows "rec_inv m' cs = rec_inv m cs" "tracks_ready cd vl (tracks m') = tracks_ready cd vl (tracks m)"
  by (simp_all add: assms rec_inv_def tables_def size_tables_def time_table_def tab_ok_def
      tracks_ready_def track_set_def vos_ok_def vos_bytes_def)

lemma frozen_ready:
  assumes "frozen m' = frozen m"
  shows "tracks_ready cd vl (tracks m') = tracks_ready cd vl (tracks m)"
proof -
  have "track_timescale (tracks m' i) = track_timescale (tracks m i)" for i
  proof -
    have "tracks (frozen m') i = tracks (frozen m) i" using assms by simp
    from arg_cong [OF this, of track_timescale] show ?thesis by (simp add: frozen_def)
  qed
  then show ?thesis
    by (simp add: tracks_ready_def track_set_def vos_ok_def vos_bytes_def frozen_eq_dest [OF assms])
qed

text \<open>The bytes of the header box, from the tables.\<close>

lemma trak_bytes_bound:
  assumes t: "all_tables m cs" and ty: "\<And>i. i \<noteq> 0 \<Longrightarrow> codec_type (enc (tracks m i)) \<noteq> CODEC_TYPE_VIDEO"
    and n: "\<And>i. i < 2 \<Longrightarrow> length (samples (of_stream i cs)) \<le> n" "length cs \<le> n" "keyFrame_num (tracks m 0) \<le> n"
    and v: "vos_bytes (tracks m 0) + vos_bytes (tracks m 1) \<le> vl"
  shows "trak_bytes (tracks m 0) + trak_bytes (tracks m 1) \<le> 1400 + vl + 52 * n"
proof -
  have o: "length (of_stream i cs) \<le> n" for i
    unfolding of_stream_def by (rule le_trans [OF length_filter_le n(2)])
  have t0: "table_size (tracks m 0) STCO_ID \<le> n" "table_size (tracks m 0) STSZ_ID \<le> n"
      "table_size (tracks m 0) STSC_ID \<le> n" "table_size (tracks m 0) STTS_ID \<le> n"
    and t1: "table_size (tracks m 1) STCO_ID \<le> n" "table_size (tracks m 1) STSZ_ID \<le> n"
      "table_size (tracks m 1) STSC_ID \<le> n"
    using t o n(1) by (auto simp: all_tables_def)
  have "table_bytes (tracks m 0) \<le> 32 * n" using t0 n(3) by (simp add: table_bytes_def)
  moreover have "table_bytes (tracks m 1) \<le> 20 * n" using t1 ty [of 1] by (simp add: table_bytes_def)
  ultimately show ?thesis using v by (simp add: trak_bytes_def)
qed

text \<open>All of a recording: the calls it makes, and what the file holds.\<close>

lemma sint_small: "k < 2 ^ 31 \<Longrightarrow> sint (of_nat k :: u32) = int k"
  by (simp add: signed_of_nat signed_take_bit_int_eq_self)

lemma record_done:
  assumes ok: "info_ok info vos" and ps: "\<forall>p \<in> set ps. packet_ok p" "ps \<noteq> []"
    and n: "chunk_count ps < cache_size STSC_ID" "length (keys (stream_codec info 0) ps) \<le> KEYFRAME_CACHE_SIZE div 4"
    and sz: "body_size ps + vos_len vos avos + 52 * length ps + MOV_HEADER_RESERVE_SIZE + 2000 < 2 ^ 31"
    and R: "36 \<le> MOV_HEADER_RESERVE_SIZE"
  shows "\<exists>c fits moov n cs mvhd ts. mp4_record (mp4_start mem keymem gmem info vos avos) ms ps = Some (record_ops c fits moov n) \<and>
    cs = rec_chunks (stream_codec info) (MOV_HEADER_RESERVE_SIZE + 8) ps [] \<and>
    bytes_of c = media cs \<and> placed (MOV_HEADER_RESERVE_SIZE + 8) cs \<and>
    blen c \<le> body_size ps \<and> of_nat (blen moov) = n \<and>
    116 \<le> blen moov \<and> blen moov \<le> 1516 + vos_len vos avos + 52 * length ps \<and>
    (fits \<longleftrightarrow> blen moov + 36 \<le> MOV_HEADER_RESERVE_SIZE) \<and>
    bytes_of moov = box ''moov'' (box ''mvhd'' mvhd @ concat (map (box ''trak'') ts)) \<and>
    list_all2 (\<lambda>i. stream_has i cs) (filter (\<lambda>i. samples (of_stream i cs) \<noteq> []) [0, 1]) ts"
proof -
  let ?R = "MOV_HEADER_RESERVE_SIZE" and ?cd = "stream_codec info"
  define cs where "cs = rec_chunks ?cd (?R + 8) ps []"
  obtain c1 header where h: "mov_write_header (mp4_start mem keymem gmem info vos avos) = (c1, header)" by (cases "mov_write_header (mp4_start mem keymem gmem info vos avos)")
  define m0 where "m0 = ctx_mov c1"
  have hr: "(c1, header) = mov_write_header (mp4_start mem keymem gmem info vos avos)" "m0 = ctx_mov (fst (c1, header))"
    using h m0_def by simp_all
  note hd = header_done [OF ok hr]
  have cd: "?cd i = codec_id (enc (tracks m0 i))" for i using hd(2) by (simp add: tracks_ready_def)
  have codecs: "codecs_ok m0"
    by (simp add: codecs_ok_def cd [symmetric] stream_codec_def video_codec_def)
  have "\<exists>m c. write_packets ps m0 = Some (m, c) \<and> bytes_of c = concat (map (\<lambda>p. sample_of (?cd (stream_index p)) p) ps) \<and>
    frozen m = frozen m0 \<and> rec_inv m (rec_chunks ?cd (mdat_start_pos m0) ps []) \<and>
    keyFrame_num (tracks m 0) \<le> keyFrame_num (tracks m0 0) + length (keys (?cd 0) ps)"
    by (rule write_packets_ok [OF hd(1) ps(1) codecs cd]) (use n hd(8) in \<open>simp_all add: length_rec_chunks\<close>)
  then obtain m c where w: "write_packets ps m0 = Some (m, c)"
    "bytes_of c = concat (map (\<lambda>p. sample_of (?cd (stream_index p)) p) ps)" "frozen m = frozen m0" "rec_inv m cs"
    "keyFrame_num (tracks m 0) \<le> length (keys (?cd 0) ps)"
    using hd(7,8) by (auto simp: cs_def)
  obtain d where d: "ctx_mov (mp4_SETTOTALTIME ms (c1\<lparr>ctx_mov := m\<rparr>)) = m\<lparr>tracks := \<lambda>i. (tracks m i)\<lparr>trackDuration := d i\<rparr>\<rparr>"
    using total_time [of ms "c1\<lparr>ctx_mov := m\<rparr>"] by auto
  define m1 where "m1 = m\<lparr>tracks := \<lambda>i. (tracks m i)\<lparr>trackDuration := d i\<rparr>\<rparr>"
  note dk = duration_keeps [OF m1_def]
  have "cs \<noteq> []" unfolding cs_def by (rule rec_chunks_nonempty) (use ps in simp)
  moreover have "length cs < cache_size STSC_ID" using n(1) by (simp add: cs_def length_rec_chunks)
  ultimately obtain m2 where l: "mov_last_packet m1 = Some m2" "all_tables m2 cs" "frozen m2 = frozen m1"
    "mdat_size m2 = mdat_size m1" "keyFrame_num (tracks m2 0) = keyFrame_num (tracks m1 0)"
    using last_packet_ok [of m1 cs] w(4) dk(1) by blast
  have rd: "tracks_ready ?cd (vos_len vos avos) (tracks m2)"
    using hd(2) frozen_ready [OF w(3)] dk(2) frozen_ready [OF l(3)] by simp
  have fz: "nb_streams m2 = 2" "\<not> geo_available m2" "free_pos m2 = 28" "mdat_pos m2 = ?R"
    using hd(3-6) frozen_eq_dest(6,7,9,11) [OF w(3)] frozen_eq_dest(6,7,9,11) [OF l(3)] by (simp_all add: m1_def)
  have smp: "samples (of_stream i cs) = samples_of ?cd i ps" for i
    by (simp add: cs_def rec_chunks_samples)
  have med: "media cs = bytes_of c" by (simp add: cs_def rec_chunks_media w(2))
  have tr: "track_set (tracks m2 i)" if "i < 2" for i using rd that by (auto simp: tracks_ready_def less_2_cases_iff)
  have ty: "i \<noteq> 0 \<Longrightarrow> codec_type (enc (tracks m2 i)) \<noteq> CODEC_TYPE_VIDEO" for i using rd by (simp add: tracks_ready_def)
  from moov_written [OF l(2) tr ty fz(1,2)] obtain k moov mvhd ts where
    mv: "movGetMoovTagSize m2 = Some k" "write_moov_box m2 = Some moov" "sized_calls moov = k"
      "bytes_of moov = box ''moov'' (box ''mvhd'' mvhd @ concat (map (box ''trak'') ts))" "116 \<le> blen moov"
      "blen moov \<le> 116 + trak_bytes (tracks m2 0) + trak_bytes (tracks m2 1)"
      "list_all2 (\<lambda>i. stream_has i cs) (filter (\<lambda>i. samples (of_stream i cs) \<noteq> []) [0, 1]) ts"
    by blast
  have "trak_bytes (tracks m2 0) + trak_bytes (tracks m2 1) \<le> 1400 + vos_len vos avos + 52 * length ps"
  proof (rule trak_bytes_bound [OF l(2) ty])
    show "length (samples (of_stream i cs)) \<le> length ps" for i by (simp add: smp samples_of_def)
    show "length cs \<le> length ps"
      using remdups_adj_length [of "map stream_index ps"] by (simp add: cs_def length_rec_chunks chunk_count_def)
    have "keyFrame_num (tracks m2 0) \<le> length (keys (?cd 0) ps)" using l(5) w(5) by (simp add: m1_def)
    also have "\<dots> \<le> length ps" by (simp add: keys_def)
    finally show "keyFrame_num (tracks m2 0) \<le> length ps" .
    show "vos_bytes (tracks m2 0) + vos_bytes (tracks m2 1) \<le> vos_len vos avos" using rd by (simp add: tracks_ready_def)
  qed
  then have ub: "blen moov \<le> 1516 + vos_len vos avos + 52 * length ps" using mv(6) by linarith
  have k: "of_nat (blen moov) = k" using mv(3) by (simp add: sized_calls_def)
  define fits where "fits \<longleftrightarrow> blen moov + 36 \<le> ?R"
  have "k + 28 + 8 = of_nat (blen moov + 36)" using k by simp
  moreover have "blen moov + 36 < 2 ^ 31" using ub sz by linarith
  ultimately have "sint (k + 28 + 8) = int (blen moov + 36)" by (simp only: sint_small)
  then have ft: "sint (k + 28 + 8) \<le> int ?R \<longleftrightarrow> fits" by (simp only: fits_def of_nat_le_iff)
  have "mdat_size m2 = blen c"
    using l(4) w(4) med by (simp add: m1_def rec_inv_def blen_def)
  then have "mov_write_trailer m1 = Some ((if fits then [FsSeek 28] else []) @ map FsWrite moov @
     (if fits then map FsWrite (mov_write_free_tag (of_nat ?R - k - 28)) else []) @
     FsSeek ?R # map FsWrite (put_be32_cache (of_nat (blen c) + 8)) @ [FsFlush])"
    using l(1) mv(1,2) fz ft by (simp add: mov_write_trailer_def mov_write_moov_tag_def)
  then have "mp4_record (mp4_start mem keymem gmem info vos avos) ms ps = Some (record_ops c fits moov k)"
    using h w(1) d hd(9) m0_def by (simp add: mp4_record_def m1_def record_ops_def)
  moreover have "blen c \<le> body_size ps"
    using body_size_bound [OF ps(1), of ?cd] by (simp add: blen_def w(2))
  moreover have "placed (?R + 8) cs"
    using w(4) frozen_eq_dest(8) [OF w(3)] hd(7) by (simp add: rec_inv_def)
  ultimately show ?thesis
    using med [symmetric] k mv(4,5,7) ub fits_def
    by - (rule exI [of _ c], rule exI [of _ fits], rule exI [of _ moov], rule exI [of _ k], rule exI [of _ cs],
      rule exI [of _ mvhd], rule exI [of _ ts], intro conjI cs_def; assumption)
qed

lemma read_record:
  assumes R: "36 \<le> MOV_HEADER_RESERVE_SIZE"
    and F: "F = fst (fs_view (record_ops c fits moov n) ([], 0))"
    and c: "bytes_of c = media cs" "placed (MOV_HEADER_RESERVE_SIZE + 8) cs" "length (samples cs) < 2 ^ 32"
    and n: "of_nat (blen moov) = n" "116 \<le> blen moov" "blen moov + blen c + MOV_HEADER_RESERVE_SIZE + 36 < 2 ^ 32"
    and fit: "fits \<longleftrightarrow> blen moov + 36 \<le> MOV_HEADER_RESERVE_SIZE"
    and mv: "bytes_of moov = box ''moov'' (box ''mvhd'' mvhd @ concat (map (box ''trak'') ts))"
    and ts: "list_all2 (\<lambda>i. stream_has i cs) js ts"
  shows "read_mp4 F = Some (map (\<lambda>i. samples (of_stream i cs)) js)"
proof -
  define R where "R = MOV_HEADER_RESERVE_SIZE"
  define k where "k = R - 36 - blen moov"
  let ?zs = "\<lambda>k. box ''free'' (replicate k 0)"
  define trs where "trs = concat (map (box ''trak'') ts)"
  define p where "p = box ''mvhd'' mvhd @ trs"
  have view: "F = (if fits then box ''ftyp'' ftyp_payload @ box ''moov'' p @ ?zs k @ box ''mdat'' (media cs)
     else box ''ftyp'' ftyp_payload @ ?zs (R - 36) @ box ''mdat'' (media cs) @ box ''moov'' p)"
    unfolding F record_view [OF R n(2,1) fit refl refl refl] by (simp add: c(1) mv p_def trs_def k_def R_def)
  have l: "blen moov = 8 + length p" "blen c = length (media cs)"
    using mv c(1) by (simp_all add: blen_def p_def trs_def length_box)
  have b: "36 \<le> R" "8 + length p + length (media cs) + R + 36 < 2 ^ 32" using R n(3) l by (simp_all add: R_def)
  have lp: "length p = 8 + length mvhd + length trs" by (simp add: p_def length_box)
  have moov: "find_box ''moov'' F = Some p"
    unfolding view using b by (simp add: find_box_box ftyp_box(2) k_def)
  have traks: "all_boxes ''trak'' p = ts"
    unfolding p_def using b lp all_boxes_traks [of ts] by (simp add: all_boxes_box trs_def)
  have "take (length (media cs)) (drop (R + 8) F) = media cs"
  proof (cases fits)
    case True
    then have "R = 28 + (8 + length p) + (8 + k)" using fit b l by (simp add: k_def R_def)
    then have "drop (R + 8) F = media cs"
      unfolding view using True by (simp add: length_box ftyp_box(2)) (simp add: box_def)
    then show ?thesis by simp
  next
    case False
    have "R + 8 = 28 + (8 + (R - 36)) + 8" using b by simp
    then have "drop (R + 8) F = media cs @ box ''moov'' p"
      unfolding view using False by (simp add: length_box ftyp_box(2)) (simp add: box_def)
    then show ?thesis by simp
  qed
  then have F': "\<forall>d \<in> set cs. in_file F d"
    using placed_in_file [OF c(2), of F] b c(3) by (simp add: R_def)
  have rs: "map (read_trak F) ts = map (\<lambda>i. Some (samples (of_stream i cs))) js"
    using read_traks [OF ts _ F'] b lp by (simp add: trs_def)
  have "None \<notin> set (map (read_trak F) ts)" "map the (map (read_trak F) ts) = map (\<lambda>i. samples (of_stream i cs)) js"
    unfolding rs by (auto simp: comp_def)
  then show ?thesis by (simp add: read_mp4_def moov traks Let_def)
qed

section \<open>Properties\<close>

text \<open>
  C2: a whole MP4 recording, through the write-behind cache, is read back: for H.264 (whose
  parameter sets begin with a four-byte start code) or motion JPEG, with sound other than PCM and
  without GPS text, the muxer opened, set up and given the parameter sets writes all packets of both
  streams without leaving its memory, and the file on disk, whether the header box came to lie in the
  reserved space or behind the media data, is a sequence of boxes in which a reader following the
  sample tables finds, track by track, exactly the samples of the packets in order. The bounds: fewer
  than 16384 runs of packets of one stream (what a ring of chunk lengths holds), at most 32768 key
  frames (what their table holds), and a file below 2 GiB.
\<close>

theorem mp4_recording_reads_back:
  assumes "info_ok info vos" "\<forall>p \<in> set ps. packet_ok p" "ps \<noteq> []"
    and "chunk_count ps < cache_size STSC_ID" "length (keys (stream_codec info 0) ps) \<le> KEYFRAME_CACHE_SIZE div 4"
    and "body_size ps + vos_len vos avos + 52 * length ps + MOV_HEADER_RESERVE_SIZE + 2000 < 2 ^ 31"
    and "sc_inv w" "sc_view w = ([], 0)"
  shows "\<exists>ops. mp4_record (mp4_start mem keymem gmem info vos avos) ms ps = Some ops \<and>
    read_mp4 (fst (sc_disk (fs_simple.run_ops ops w))) =
      Some (filter (\<lambda>s. s \<noteq> []) [samples_of (stream_codec info) 0 ps, samples_of (stream_codec info) 1 ps])"
proof -
  have R: "36 \<le> MOV_HEADER_RESERVE_SIZE" by (simp add: MOV_HEADER_RESERVE_SIZE_def)
  from record_done [OF assms(1-6) R] obtain c fits moov n cs mvhd ts where
    r: "mp4_record (mp4_start mem keymem gmem info vos avos) ms ps = Some (record_ops c fits moov n)"
      "cs = rec_chunks (stream_codec info) (MOV_HEADER_RESERVE_SIZE + 8) ps []"
      "bytes_of c = media cs" "placed (MOV_HEADER_RESERVE_SIZE + 8) cs" "blen c \<le> body_size ps" "of_nat (blen moov) = n"
      "116 \<le> blen moov" "blen moov \<le> 1516 + vos_len vos avos + 52 * length ps"
      "fits \<longleftrightarrow> blen moov + 36 \<le> MOV_HEADER_RESERVE_SIZE"
      "bytes_of moov = box ''moov'' (box ''mvhd'' mvhd @ concat (map (box ''trak'') ts))"
      "list_all2 (\<lambda>i. stream_has i cs) (filter (\<lambda>i. samples (of_stream i cs) \<noteq> []) [0, 1]) ts"
    by blast
  have v: "fs_view (record_ops c fits moov n) (sc_view w) = sc_disk (fs_simple.run_ops (record_ops c fits moov n) w)"
  proof -
    obtain ops where ops: "record_ops c fits moov n = ops @ [FsFlush]" by (auto simp: record_ops_def)
    have "fs_fits (record_ops c fits moov n) 0"
      by (rule record_fits [OF _ R]) (use r(5,8) assms(6) in simp)
    then have "fs_fits ops (snd (sc_view w))" using fs_fits_append [of ops "[FsFlush]" 0 "[]"] ops assms(8) by simp
    from fs_simple.run_ops_flush [OF assms(7) this] show ?thesis by (simp add: ops fs_view_append)
  qed
  have smp: "samples (of_stream i cs) = samples_of (stream_codec info) i ps" for i
    by (simp add: r(2) rec_chunks_samples)
  have ls: "length (samples cs) < 2 ^ 32"
    using assms(6) by (simp add: r(2) length_samples_rec)
  have "read_mp4 (fst (sc_disk (fs_simple.run_ops (record_ops c fits moov n) w))) =
      Some (map (\<lambda>i. samples (of_stream i cs)) (filter (\<lambda>i. samples (of_stream i cs) \<noteq> []) [0, 1]))"
    by (rule read_record [OF R _ r(3,4) ls r(6,7) _ r(9,10,11)])
      (use v assms(6,8) r(5,8) in \<open>simp_all\<close>)
  then show ?thesis using r(1) by (simp add: smp)
qed

definition demo_info :: mp4_media_inf where
  "demo_info = \<lparr>nHeight = 1080, nWidth = 1920, uVideoFrmRate = 30, inf_create_time = 0,
     mVideoEncodeType = VENC_CODEC_H264, inf_rotate_degree = 0, inf_channels = 1, inf_bits_per_sample = 16,
     inf_frame_size = 1024, inf_sample_rate = 16000, inf_audio_encode_type = AUDIO_ENCODER_AAC_TYPE,
     inf_geo_available = False, inf_latitudex10000 = 0, inf_longitudex10000 = 0\<rparr>"

definition demo_packets :: "AVPacket list" where
  "demo_packets =
     [\<lparr>data0 = [0, 0, 0, 1, 0x65, 7], data1 = [8], stream_index = 0, flags = 1, duration = 33\<rparr>,
      \<lparr>data0 = [1, 2], data1 = [], stream_index = 1, flags = 0, duration = 64\<rparr>,
      \<lparr>data0 = [0, 0, 0, 1, 0x41], data1 = [], stream_index = 0, flags = 0, duration = 33\<rparr>]"

definition demo_file :: fs_simple_cache where
  "demo_file =
     the (initFsSimpleCache True True True [0, 0, 0]
       (demo_stream []\<lparr>s_file := \<lparr>p_data = [], p_pos = 0, p_errno = 0, p_calls = 0, p_outcomes = demo_outcomes []\<rparr>, cur_offset := 0\<rparr>) 3)"

lemma demo_ok:
  "info_ok demo_info (annexb two_params)" "\<forall>p \<in> set demo_packets. packet_ok p" "demo_packets \<noteq> []"
  "chunk_count demo_packets < cache_size STSC_ID"
  "length (keys (stream_codec demo_info 0) demo_packets) \<le> KEYFRAME_CACHE_SIZE div 4"
  "body_size demo_packets + vos_len (annexb two_params) [] + 52 * length demo_packets + MOV_HEADER_RESERVE_SIZE + 2000 < 2 ^ 31"
  "sc_inv demo_file" "sc_view demo_file = ([], 0)"
proof -
  have "fst (hd two_params) = 3" by (simp add: two_params_def)
  then show "info_ok demo_info (annexb two_params)"
    using two_params_stream by (auto simp: info_ok_def demo_info_def)
  have "length (keys c demo_packets) \<le> 3" for c
    using length_filter_le [of "\<lambda>p. stream_index p = 0 \<and> may_key c p" demo_packets]
    by (simp add: keys_def demo_packets_def)
  then show "length (keys (stream_codec demo_info 0) demo_packets) \<le> KEYFRAME_CACHE_SIZE div 4"
    by (rule order_trans) (simp add: KEYFRAME_CACHE_SIZE_def)
qed (simp_all add: demo_packets_def packet_ok_def chunk_count_def cache_size_def MOV_CACHE_TINY_PAGE_SIZE_def
    body_size_def vos_len_def two_params_def MOV_HEADER_RESERVE_SIZE_def demo_file_def initFsSimpleCache_def sc_inv_def
    sc_view_def stream_ok_def stream_view_def demo_stream_def max_offset_def EIO_def)

lemma mp4_recording_reads_back_witness:
  "\<exists>ops. mp4_record (mp4_start (\<lambda>_ _ _. 0) (\<lambda>_. 0) (\<lambda>_. (0, 0)) demo_info (annexb two_params) []) 66 demo_packets = Some ops \<and>
    read_mp4 (fst (sc_disk (fs_simple.run_ops ops demo_file))) =
      Some [[[0, 0, 0, 3, 0x65, 7, 8], [0, 0, 0, 1, 0x41]], [[1, 2]]]"
proof -
  have "filter (\<lambda>s. s \<noteq> []) [samples_of (stream_codec demo_info) 0 demo_packets, samples_of (stream_codec demo_info) 1 demo_packets] =
      [[[0, 0, 0, 3, 0x65, 7, 8], [0, 0, 0, 1, 0x41]], [[1, 2]]]"
    by (simp add: samples_of_def demo_packets_def sample_of_def stream_codec_def demo_info_def start_coded_def be32_def Let_def)
  then show ?thesis using mp4_recording_reads_back [OF demo_ok] by metis
qed

text \<open>
  The location in the user data box is the one that was set: \<open>writeLatitude\<close> and
  \<open>writeLongitude\<close> write a sign, the whole degrees with two and three digits, a point and four
  decimals, which reads back to the ten-thousandths of a degree, also for values between \<open>-1\<close>
  and \<open>0\<close> whose whole part has no sign.
\<close>

theorem location_reads_back:
  assumes "\<bar>latitudex10000 m\<bar> \<le> 900000" "\<bar>longitudex10000 m\<bar> \<le> 1800000"
  shows "read_degrees 2 (bytes_of (writeLatitude m)) = latitudex10000 m \<and>
    read_degrees 3 (bytes_of (writeLongitude m)) = longitudex10000 m"
  using assms by (simp add: writeLatitude_def writeLongitude_def calls_simps degree_text_reads)

definition demo_context :: MOVContext where
  "demo_context = ctx_mov (fst (mov_write_header
     (mp4_start (\<lambda>_ _ _. 0) (\<lambda>_. 0) (\<lambda>_. (0, 0)) demo_info (annexb two_params) [])))"

lemma location_reads_back_witness:
  "read_degrees 2 (bytes_of (writeLatitude (demo_context\<lparr>latitudex10000 := - 1234, longitudex10000 := 1139876\<rparr>))) = - 1234 \<and>
   read_degrees 3 (bytes_of (writeLongitude (demo_context\<lparr>latitudex10000 := - 1234, longitudex10000 := 1139876\<rparr>))) = 1139876"
  using location_reads_back [of "demo_context\<lparr>latitudex10000 := - 1234, longitudex10000 := 1139876\<rparr>"] by simp

text \<open>
  For every audio codec and any decoder configuration, \<open>movGetAudioTagSize\<close>, from which the
  sizes of the boxes around it are summed up, is the number of bytes that
  \<open>mov_write_audio_tag\<close> writes, including the variable length fields of the descriptors.
\<close>

theorem audio_description_size: "of_nat (length (bytes_of (mov_write_audio_tag t))) = movGetAudioTagSize t"
  using audio_size [of t] by (simp add: sized_calls_def blen_def)



text \<open>
  C15: the tables of chunk offsets, sizes and durations keep everything, although a ring holds a
  fixed number of values: after any values, entered one after another in any order of the tables
  of both streams as the muxer does it (\<open>mov_store\<close>, then \<open>mov_settle\<close> with the pages counted in
  the track of the table), reading the pages of a table back from its temporary file and the rest
  from its ring gives the values that were entered in it, in order. The attempts to create and to write
  the files succeed. The chunk lengths are not among these tables: their pages are counted in
  the track of the packet.
\<close>

theorem index_table_keeps_everything:
  assumes "\<forall>k i. k \<noteq> STSC_ID \<and> i < 2 \<longrightarrow> tab_ok k i [] m" and "io_ok (tmp m)"
    and "\<forall>x \<in> set vs. fst (fst x) \<noteq> STSC_ID \<and> snd (fst x) < 2"
  shows "\<exists>m'. idx.push_all vs m = Some m' \<and>
    (\<forall>k i. k \<noteq> STSC_ID \<and> i < 2 \<longrightarrow>
       idx_read (cache_size k) (tiny_pages (tracks m' i) k) (table_size (tracks m' i) k) (tabs m' k i) =
         Some (map snd (filter (\<lambda>x. fst x = (k, i)) vs)))"
proof -
  have "\<exists>m'. idx.push_all vs m = Some m' \<and>
      (\<forall>t. own_pages t \<longrightarrow> table_read t m' = Some ([] @ map snd (filter (\<lambda>x. fst x = t) vs)))"
    using idx.read_after_push_all [of "\<lambda>_. []" m vs] assms by (auto simp: tabs_ok_def own_pages_def)
  then show ?thesis by (auto simp: table_read_def own_pages_def)
qed

lemma index_table_keeps_everything_witness:
  "\<exists>m'. idx.push_all (map (\<lambda>n. ((if even n then STSZ_ID else STCO_ID, n mod 2), of_nat n)) [0..<200000]) demo_context = Some m' \<and>
    idx_read (cache_size STSZ_ID) (tiny_pages (tracks m' 0) STSZ_ID) (table_size (tracks m' 0) STSZ_ID) (tabs m' STSZ_ID 0) =
      Some (map of_nat (filter even [0..<200000]))"
proof -
  obtain r where r: "r = mov_write_header (mp4_start (\<lambda>_ _ _. 0) (\<lambda>_. 0) (\<lambda>_. (0, 0)) demo_info (annexb two_params) [])"
    "demo_context = ctx_mov (fst r)" by (simp add: demo_context_def)
  note hd = header_done [OF demo_ok(1) r]
  define ns :: "nat list" where "ns = [0..<200000]"
  let ?vs = "map (\<lambda>n. ((if even n then STSZ_ID else STCO_ID, n mod 2), of_nat n :: u32)) ns"
  have t: "tab_ok k i [] demo_context" for k i by (rule hd(10))
  have "io_ok (tmp demo_context)" using hd(1) by (simp add: rec_inv_def tables_def)
  moreover have "\<forall>x \<in> set ?vs. fst (fst x) \<noteq> STSC_ID \<and> snd (fst x) < 2" by auto
  moreover have "map snd (filter (\<lambda>x. fst x = (STSZ_ID, 0)) ?vs) = map of_nat (filter even ns)"
    by (induction ns) auto
  ultimately show ?thesis
    using index_table_keeps_everything [of demo_context ?vs] t unfolding ns_def [symmetric] by fastforce
qed

end
