(* ===== verification/GetBits.thy ===== *)
theory GetBits
  imports Avc "HOL-Library.State_Monad"
begin

text \<open>
  The bit reader that the HEVC parser uses (libmuxer/common/libavcodec/get_bits.h, golomb.h): the
  variant with checks, big-endian, with a 32-bit cache. An operation is a state transformer; the
  state has a flag that is set when a byte outside the buffer is read, and one that is set where
  a loop of the parser would never end. The buffer is longer than the data, by the padding its
  users promise.
\<close>

section \<open>The reader\<close>

record GetBitContext =
  gb_buffer :: "byte list"
  gb_index :: nat
  size_in_bits :: nat
  gb_fault :: bool
  gb_hang :: bool

type_synonym 'a reader = "(GetBitContext, 'a) state"

definition size_in_bits_plus8 :: "GetBitContext \<Rightarrow> nat" where
  "size_in_bits_plus8 gb = size_in_bits gb + 8"

text \<open>\<open>UPDATE_CACHE\<close>: the four bytes at the index, without the bits before it.\<close>

definition update_cache :: "u32 reader" where
  "update_cache = State (\<lambda>gb.
     let p = gb_index gb div 8
     in if p + 4 \<le> length (gb_buffer gb)
        then (push_bit (gb_index gb mod 8) (rd32 (take 4 (drop p (gb_buffer gb)))), gb)
        else (0, gb\<lparr>gb_fault := True\<rparr>))"

definition skip_counter :: "nat \<Rightarrow> unit reader" where
  "skip_counter n = State (\<lambda>gb. ((), gb\<lparr>gb_index := min (size_in_bits_plus8 gb) (gb_index gb + n)\<rparr>))"

text \<open>\<open>n\<close> is between 1 and 25 for the next two.\<close>

definition get_bits :: "nat \<Rightarrow> u32 reader" where
  "get_bits n = do { cache \<leftarrow> update_cache; skip_counter n; State_Monad.return (drop_bit (32 - n) cache) }"

definition show_bits :: "nat \<Rightarrow> u32 reader" where
  "show_bits n = do { cache \<leftarrow> update_cache; State_Monad.return (drop_bit (32 - n) cache) }"

definition skip_bits :: "nat \<Rightarrow> unit reader" where
  "skip_bits n = skip_counter n"

definition skip_bits1 :: "unit reader" where
  "skip_bits1 = skip_bits 1"

definition skip_bits_long :: "nat \<Rightarrow> unit reader" where
  "skip_bits_long n = State (\<lambda>gb. ((), gb\<lparr>gb_index := gb_index gb + min n (size_in_bits_plus8 gb - gb_index gb)\<rparr>))"

definition get_bits1 :: "u32 reader" where
  "get_bits1 = State (\<lambda>gb.
     let p = gb_index gb div 8;
         i = (if gb_index gb < size_in_bits_plus8 gb then gb_index gb + 1 else gb_index gb)
     in if p < length (gb_buffer gb)
        then (ucast (drop_bit 7 (push_bit (gb_index gb mod 8) (gb_buffer gb ! p))), gb\<lparr>gb_index := i\<rparr>)
        else (0, gb\<lparr>gb_fault := True\<rparr>))"

definition get_bits_long :: "nat \<Rightarrow> u32 reader" where
  "get_bits_long n =
     (if n = 0 then State_Monad.return 0
      else if n \<le> 25 then get_bits n
      else do {
        a \<leftarrow> get_bits 16;
        b \<leftarrow> get_bits (n - 16);
        State_Monad.return (or (push_bit (n - 16) a) b)
      })"

definition get_bits64 :: "nat \<Rightarrow> u64 reader" where
  "get_bits64 n =
     (if n \<le> 32 then do { a \<leftarrow> get_bits_long n; State_Monad.return (ucast a) }
      else do {
        a \<leftarrow> get_bits_long (n - 32);
        b \<leftarrow> get_bits_long 32;
        State_Monad.return (or (push_bit 32 (ucast a)) (ucast b))
      })"

text \<open>\<open>show_bits_long\<close> reads from a copy of the context.\<close>

definition show_bits_long :: "nat \<Rightarrow> u32 reader" where
  "show_bits_long n =
     (if n \<le> 25 then show_bits n
      else State (\<lambda>gb. let (v, gb1) = run_state (get_bits_long n) gb in (v, gb\<lparr>gb_fault := gb_fault gb1\<rparr>)))"

definition get_bits_left :: "int reader" where
  "get_bits_left = State (\<lambda>gb. (int (size_in_bits gb) - int (gb_index gb), gb))"

text \<open>\<open>init_get_bits8\<close>: 0, or an error for a size that is too large. \<open>buf\<close> includes the padding.\<close>

definition init_get_bits8 :: "byte list \<Rightarrow> nat \<Rightarrow> int \<times> GetBitContext" where
  "init_get_bits8 buf byte_size =
     (if byte_size > 268435455 \<or> byte_size * 8 \<ge> 2147483640
      then (AVERROR_INVALIDDATA, \<lparr>gb_buffer = [], gb_index = 0, size_in_bits = 0, gb_fault = False, gb_hang = False\<rparr>)
      else (0, \<lparr>gb_buffer = buf, gb_index = 0, size_in_bits = byte_size * 8, gb_fault = False, gb_hang = False\<rparr>))"

section \<open>Exponential Golomb codes\<close>

fun floor_log2 :: "nat \<Rightarrow> nat" where
  "floor_log2 n = (if n < 2 then 0 else Suc (floor_log2 (n div 2)))"

declare floor_log2.simps [simp del]

text \<open>\<open>31 - __builtin_clz(v | 1)\<close>\<close>

definition av_log2 :: "u32 \<Rightarrow> nat" where
  "av_log2 v = floor_log2 (unat (or v 1))"

definition get_ue_golomb_long :: "u32 reader" where
  "get_ue_golomb_long = do {
     buf \<leftarrow> show_bits_long 32;
     let log = 31 - av_log2 buf;
     skip_bits_long log;
     x \<leftarrow> get_bits_long (log + 1);
     State_Monad.return (x - 1)
   }"

definition get_se_golomb_long :: "u32 reader" where
  "get_se_golomb_long = do {
     buf \<leftarrow> get_ue_golomb_long;
     let sign = and buf 1 - 1;
     State_Monad.return (xor (drop_bit 1 buf) sign + 1)
   }"

text \<open>A loop that does the same \<open>n\<close> times.\<close>

primrec repeat_reader :: "nat \<Rightarrow> unit reader \<Rightarrow> unit reader" where
  "repeat_reader 0 m = State_Monad.return ()"
| "repeat_reader (Suc n) m = do { m; repeat_reader n m }"

text \<open>A conditional without an alternative.\<close>

definition when_reader :: "bool \<Rightarrow> unit reader \<Rightarrow> unit reader" where
  "when_reader b m = (if b then m else State_Monad.return ())"

section \<open>What every reader keeps\<close>

locale kept =
  fixes inv :: "'s \<Rightarrow> bool"
begin

definition keeps :: "('s, 'a) state \<Rightarrow> bool" where
  "keeps m \<longleftrightarrow> (\<forall>s. inv s \<longrightarrow> inv (snd (run_state m s)))"

lemma keepsD: "keeps m \<Longrightarrow> inv s \<Longrightarrow> inv (snd (run_state m s))"
  by (simp add: keeps_def)

lemma keeps_return: "keeps (State_Monad.return x)"
  by (simp add: keeps_def)

lemma keeps_bind: "keeps m \<Longrightarrow> (\<And>x. keeps (f x)) \<Longrightarrow> keeps (State_Monad.bind m f)"
  by (auto simp: keeps_def case_prod_unfold)

lemma keeps_if: "(b \<Longrightarrow> keeps m) \<Longrightarrow> (\<not> b \<Longrightarrow> keeps n) \<Longrightarrow> keeps (if b then m else n)"
  by simp

lemma keeps_prod: "(\<And>x y. keeps (f x y)) \<Longrightarrow> keeps (case p of (x, y) \<Rightarrow> f x y)"
  by (cases p) simp

lemmas keeps_rules = keeps_return keeps_bind keeps_if keeps_prod

end

text \<open>
  A property of the reader that its four primitive operations keep, and that holds after reading
  from a copy, is kept by everything that is built from them.
\<close>

locale kept_reader = kept inv for inv :: "GetBitContext \<Rightarrow> bool" +
  assumes keeps_update_cache: "keeps update_cache"
    and keeps_skip_counter: "keeps (skip_counter n)"
    and keeps_skip_bits_long: "keeps (skip_bits_long n)"
    and keeps_get_bits1: "keeps get_bits1"
    and inv_copy: "inv gb \<Longrightarrow> inv gb1 \<Longrightarrow> inv (gb\<lparr>gb_fault := gb_fault gb1\<rparr>)"
begin

lemmas primitive = keeps_rules keeps_update_cache keeps_skip_counter keeps_skip_bits_long keeps_get_bits1

lemma keeps_get_bits: "keeps (get_bits n)"
  unfolding get_bits_def by (intro primitive)

lemma keeps_show_bits: "keeps (show_bits n)"
  unfolding show_bits_def by (intro primitive)

lemma keeps_skip_bits: "keeps (skip_bits n)" "keeps skip_bits1"
  unfolding skip_bits1_def skip_bits_def by (intro primitive)+

lemma keeps_get_bits_long: "keeps (get_bits_long n)"
  unfolding get_bits_long_def by (intro primitive keeps_get_bits)

lemma keeps_get_bits64: "keeps (get_bits64 n)"
  unfolding get_bits64_def by (intro primitive keeps_get_bits_long)

lemma keeps_show_bits_long: "keeps (show_bits_long n)"
proof (cases "n \<le> 25")
  case False
  then show ?thesis
    using keepsD [OF keeps_get_bits_long] inv_copy
    by (auto simp: keeps_def show_bits_long_def case_prod_unfold Let_def)
qed (simp add: show_bits_long_def keeps_show_bits)

lemma keeps_get_bits_left: "keeps get_bits_left"
  by (simp add: keeps_def get_bits_left_def)

lemma keeps_ue: "keeps get_ue_golomb_long"
  unfolding get_ue_golomb_long_def Let_def by (intro primitive keeps_show_bits_long keeps_get_bits_long)

lemma keeps_se: "keeps get_se_golomb_long"
  unfolding get_se_golomb_long_def Let_def by (intro primitive keeps_ue)

lemma keeps_repeat: "keeps m \<Longrightarrow> keeps (repeat_reader n m)"
  by (induction n) (auto intro!: primitive)

lemma keeps_when: "keeps m \<Longrightarrow> keeps (when_reader b m)"
  unfolding when_reader_def by (intro primitive)

lemmas reader_rules = primitive keeps_get_bits keeps_show_bits keeps_skip_bits keeps_get_bits_long
  keeps_get_bits64 keeps_show_bits_long keeps_get_bits_left keeps_ue keeps_se keeps_repeat keeps_when

end

text \<open>
  The reader is in its data or at most eight bits behind it, and the padding covers what a cache
  takes in from there.
\<close>

definition gb_ok :: "GetBitContext \<Rightarrow> bool" where
  "gb_ok gb \<longleftrightarrow> \<not> gb_fault gb \<and> gb_index gb \<le> size_in_bits gb + 8 \<and> size_in_bits gb + 40 \<le> 8 * length (gb_buffer gb)"

lemmas primitive_defs = update_cache_def skip_counter_def skip_bits_long_def get_bits1_def
  size_in_bits_plus8_def Let_def

interpretation gb: kept_reader gb_ok
  by unfold_locales (auto simp: kept.keeps_def gb_ok_def primitive_defs)

text \<open>The reader does not go back: once it is behind the data it stays there.\<close>

definition gb_past :: "byte list \<Rightarrow> nat \<Rightarrow> GetBitContext \<Rightarrow> bool" where
  "gb_past b s gb \<longleftrightarrow> gb_buffer gb = b \<and> size_in_bits gb = s \<and> s < gb_index gb"

interpretation past: kept_reader "gb_past b s" for b s
  by unfold_locales (auto simp: kept.keeps_def gb_past_def primitive_defs)

text \<open>The reader itself has no loop that does not end, and the data does not change.\<close>

definition gb_data :: "byte list \<Rightarrow> nat \<Rightarrow> GetBitContext \<Rightarrow> bool" where
  "gb_data b s gb \<longleftrightarrow> gb_buffer gb = b \<and> size_in_bits gb = s \<and> \<not> gb_hang gb"

interpretation run: kept_reader "gb_data b s" for b s
  by unfold_locales (auto simp: kept.keeps_def gb_data_def primitive_defs)

section \<open>The bits of the buffer\<close>

text \<open>Bit \<open>i\<close> of the buffer, the highest of a byte first; the number in \<open>n\<close> bits from \<open>i\<close> on.\<close>

definition buf_bit :: "byte list \<Rightarrow> nat \<Rightarrow> bool" where
  "buf_bit buf i = bit (buf ! (i div 8)) (7 - i mod 8)"

fun num_at :: "byte list \<Rightarrow> nat \<Rightarrow> nat \<Rightarrow> nat" where
  "num_at buf i 0 = 0"
| "num_at buf i (Suc n) = of_bool (buf_bit buf (i + n)) + 2 * num_at buf i n"

lemma bit_num_at: "bit (num_at buf i n) k \<longleftrightarrow> k < n \<and> buf_bit buf (i + n - 1 - k)"
proof (induction n arbitrary: k)
  case (Suc n)
  then show ?case by (cases k) (auto simp: bit_0 bit_Suc)
qed simp

lemma num_at_less: "num_at buf i n < 2 ^ n"
  by (induction n) auto

lemma num_at_add: "num_at buf i (m + n) = num_at buf i m * 2 ^ n + num_at buf (i + m) n"
  by (induction n) (auto simp: algebra_simps)

lemma u32_num_at: "n \<le> 32 \<Longrightarrow> unat (of_nat (num_at buf i n) :: u32) = num_at buf i n"
proof -
  assume n: "n \<le> 32"
  have "(2 :: nat) ^ n \<le> 2 ^ 32" by (rule power_increasing [OF n]) simp
  then have "num_at buf i n < 2 ^ 32" using num_at_less [of buf i n] by linarith
  then show ?thesis by (simp only: unat_of_nat) simp
qed

lemma bit_rd32:
  assumes "4 \<le> length b" "j < 32"
  shows "bit (rd32 b) j \<longleftrightarrow> bit (b ! (3 - j div 8)) (j mod 8)"
proof -
  note rd = rd32_def bit_or_iff bit_push_bit_iff bit_unsigned_iff
  have out: "\<not> bit (x :: byte) m" if "8 \<le> m" for x m using that by (auto dest: bit_imp_le_length)
  from assms(2) consider "j < 8" | "8 \<le> j" "j < 16" | "16 \<le> j" "j < 24" | "24 \<le> j" "j < 32" by linarith
  then show ?thesis
  proof cases
    case 1
    then show ?thesis unfolding rd by (auto simp: possible_bit_def)
  next
    case 2
    then have "j div 8 = 1" "j mod 8 = j - 8" by presburger+
    then show ?thesis using 2 unfolding rd by (auto simp: possible_bit_def out)
  next
    case 3
    then have "j div 8 = 2" "j mod 8 = j - 16" by presburger+
    then show ?thesis using 3 unfolding rd by (auto simp: possible_bit_def out)
  next
    case 4
    then have "j div 8 = 3" "j mod 8 = j - 24" by presburger+
    then show ?thesis using 4 unfolding rd by (auto simp: possible_bit_def out)
  qed
qed

lemma octet_flip:
  assumes "j < (32 :: nat)"
  shows "(31 - j) div 8 = 3 - j div 8" "7 - (31 - j) mod 8 = j mod 8" "j div 8 \<le> 3"
proof -
  have "\<forall>j \<in> {..<32 :: nat}. (31 - j) div 8 = 3 - j div 8 \<and> 7 - (31 - j) mod 8 = j mod 8 \<and> j div 8 \<le> 3"
    by code_simp
  then show "(31 - j) div 8 = 3 - j div 8" "7 - (31 - j) mod 8 = j mod 8" "j div 8 \<le> 3"
    using assms by auto
qed

lemma cache_bits:
  assumes "p + 4 \<le> length buf" "r < 8" "0 < n" "n \<le> 25"
  shows "drop_bit (32 - n) (push_bit r (rd32 (take 4 (drop p buf)))) = (of_nat (num_at buf (8 * p + r) n) :: u32)"
proof (rule bit_word_eqI)
  fix k assume "k < LENGTH(32)"
  then have k: "k < 32" by simp
  show "bit (drop_bit (32 - n) (push_bit r (rd32 (take 4 (drop p buf))))) k \<longleftrightarrow>
      bit (of_nat (num_at buf (8 * p + r) n) :: u32) k"
  proof (cases "k < n")
    case True
    define j where "j = 32 - n + k - r"
    have j: "j < 32" "r \<le> 32 - n + k" "8 * p + r + n - 1 - k = 8 * p + (31 - j)" "32 - n + k < 32"
      using assms True by (auto simp: j_def)
    note o = octet_flip [OF j(1)]
    then have b: "buf_bit buf (8 * p + (31 - j)) \<longleftrightarrow> bit (rd32 (take 4 (drop p buf))) j"
    proof -
      have "(8 * p + m) div 8 = p + m div 8" "(8 * p + m) mod 8 = m mod 8" for m by simp_all
      then have "buf_bit buf (8 * p + (31 - j)) \<longleftrightarrow> bit (buf ! (p + (3 - j div 8))) (j mod 8)"
        by (simp only: buf_bit_def o)
      then show ?thesis using assms(1) bit_rd32 [of "take 4 (drop p buf)" j] j(1) by simp
    qed
    have "bit (of_nat (num_at buf (8 * p + r) n) :: u32) k \<longleftrightarrow> buf_bit buf (8 * p + (31 - j))"
      unfolding bit_of_nat_iff bit_num_at using True k j(3) by (simp add: possible_bit_def)
    moreover have "bit (drop_bit (32 - n) (push_bit r (rd32 (take 4 (drop p buf))))) k \<longleftrightarrow>
        bit (rd32 (take 4 (drop p buf))) j"
      unfolding bit_drop_bit_eq comp_apply bit_push_bit_iff using j(2,4) by (simp add: possible_bit_def j_def)
    ultimately show ?thesis using b by simp
  next
    case False
    then have "\<not> 32 - n + k < 32" using assms by linarith
    then show ?thesis using False
      unfolding bit_drop_bit_eq comp_apply bit_of_nat_iff bit_num_at by (auto dest: bit_imp_le_length)
  qed
qed

section \<open>What the readers read\<close>

lemma run_get_bits:
  assumes "gb_ok gb" "0 < n" "n \<le> 25"
  shows "run_state (get_bits n) gb = (of_nat (num_at (gb_buffer gb) (gb_index gb) n),
    gb\<lparr>gb_index := min (size_in_bits gb + 8) (gb_index gb + n)\<rparr>)"
proof -
  have p: "gb_index gb div 8 + 4 \<le> length (gb_buffer gb)" using assms(1) by (auto simp: gb_ok_def)
  then show ?thesis
    using cache_bits [OF p _ assms(2,3), of "gb_index gb mod 8"] assms(1)
    by (simp add: get_bits_def update_cache_def skip_counter_def size_in_bits_plus8_def Let_def)
qed

lemma run_get_bits_long:
  assumes "gb_ok gb" "n \<le> 32" "25 < n \<Longrightarrow> gb_index gb + 16 \<le> size_in_bits gb + 8"
  shows "run_state (get_bits_long n) gb = (of_nat (num_at (gb_buffer gb) (gb_index gb) n),
    gb\<lparr>gb_index := min (size_in_bits gb + 8) (gb_index gb + n)\<rparr>)"
proof -
  consider "n = 0" | "0 < n" "n \<le> 25" | "25 < n" by linarith
  then show ?thesis
  proof cases
    case 1
    then show ?thesis using assms(1) by (simp add: get_bits_long_def gb_ok_def)
  next
    case 2
    then show ?thesis using run_get_bits [OF assms(1), of n] by (simp add: get_bits_long_def)
  next
    case 3
    define x where "x = num_at (gb_buffer gb) (gb_index gb) 16"
    define y where "y = num_at (gb_buffer gb) (gb_index gb + 16) (n - 16)"
    let ?gb = "gb\<lparr>gb_index := gb_index gb + 16\<rparr>"
    have a: "run_state (get_bits 16) gb = (of_nat x, ?gb)"
      using run_get_bits [OF assms(1), of 16] assms(3) [OF 3] by (simp add: x_def)
    have "gb_ok ?gb" using assms(1) assms(3) [OF 3] by (simp add: gb_ok_def)
    from run_get_bits [OF this, of "n - 16"]
    have b: "run_state (get_bits (n - 16)) ?gb = (of_nat y, gb\<lparr>gb_index := min (size_in_bits gb + 8) (gb_index gb + n)\<rparr>)"
      using 3 assms(2) by (simp add: y_def)
    have "or (push_bit (n - 16) (of_nat x)) (of_nat y) = (of_nat (num_at (gb_buffer gb) (gb_index gb) n) :: u32)"
    proof -
      have "num_at (gb_buffer gb) (gb_index gb) n = push_bit (n - 16) x + y"
        using num_at_add [of "gb_buffer gb" "gb_index gb" 16 "n - 16"] 3 by (simp add: x_def y_def push_bit_eq_mult)
      also have "\<dots> = or (push_bit (n - 16) x) y"
      proof (rule disjunctive_add)
        show "\<not> bit (push_bit (n - 16) x) k \<or> \<not> bit y k" for k
          by (auto simp: bit_push_bit_iff y_def bit_num_at)
      qed
      finally show ?thesis by (simp add: push_bit_of_nat flip: of_nat_or_eq)
    qed
    then show ?thesis using 3 a b by (simp add: get_bits_long_def)
  qed
qed

text \<open>The value of \<open>show_bits_long 32\<close> counts the zeros in front, also near the end of the data.\<close>

lemma floor_log2_eq: "2 ^ k \<le> n \<Longrightarrow> n < 2 ^ Suc k \<Longrightarrow> floor_log2 n = k"
proof (induction k arbitrary: n)
  case 0
  then show ?case by (simp add: floor_log2.simps)
next
  case (Suc k)
  from Suc.prems have "2 ^ k \<le> n div 2" "n div 2 < 2 ^ Suc k" by simp_all
  moreover have "1 \<le> (2 :: nat) ^ k" by simp
  then have "\<not> n < 2" using Suc.prems(1) unfolding power_Suc by linarith
  ultimately show ?case using Suc.IH by (subst floor_log2.simps) simp
qed

lemma floor_log2_bounds: "0 < n \<Longrightarrow> 2 ^ floor_log2 n \<le> n \<and> n < 2 ^ Suc (floor_log2 n)"
proof (induction n rule: floor_log2.induct)
  case (1 n)
  show ?case
  proof (cases "n < 2")
    case False
    then have "2 ^ floor_log2 (n div 2) \<le> n div 2" "n div 2 < 2 ^ Suc (floor_log2 (n div 2))" using 1 by simp_all
    moreover have "floor_log2 n = Suc (floor_log2 (n div 2))" using False by (subst floor_log2.simps) simp
    ultimately show ?thesis unfolding power_Suc by simp linarith
  qed (use 1 in \<open>simp add: floor_log2.simps\<close>)
qed

text \<open>A code that is in the buffer: zeros, a one and as many bits as there were zeros.\<close>

definition golomb_at :: "byte list \<Rightarrow> nat \<Rightarrow> nat \<Rightarrow> bool" where
  "golomb_at buf i v \<longleftrightarrow> num_at buf i (2 * floor_log2 (v + 1) + 1) = v + 1"

lemma golomb_prefix:
  assumes "golomb_at buf i v" and k: "k = floor_log2 (v + 1)"
  shows "num_at buf i k = 0" "num_at buf (i + k) (k + 1) = v + 1" "num_at buf (i + k) 1 = 1"
proof -
  have b: "2 ^ k \<le> v + 1" "v + 1 < 2 ^ (k + 1)" using floor_log2_bounds [of "v + 1"] by (simp_all add: k)
  have v: "num_at buf i (k + (k + 1)) = v + 1" using assms by (simp add: golomb_at_def mult_2)
  show z: "num_at buf i k = 0"
  proof (rule ccontr)
    assume "num_at buf i k \<noteq> 0"
    then have "1 * 2 ^ (k + 1) \<le> num_at buf i k * 2 ^ (k + 1)" by (intro mult_le_mono1) simp
    then show False using v b(2) unfolding num_at_add [of buf i k] by linarith
  qed
  then show w: "num_at buf (i + k) (k + 1) = v + 1" using v unfolding num_at_add [of buf i k] by simp
  have "num_at buf (i + k) (1 + k) = num_at buf (i + k) 1 * 2 ^ k + num_at buf (i + k + 1) k" by (rule num_at_add)
  then have "num_at buf (i + k) 1 \<noteq> 0" using w b(1) num_at_less [of buf "i + k + 1" k] by (cases "buf_bit buf (i + k)") (auto simp: add.commute)
  then show "num_at buf (i + k) 1 = 1" using num_at_less [of buf "i + k" 1] by (simp del: num_at.simps)
qed

lemma golomb_top:
  assumes "golomb_at buf i v" and k: "k = floor_log2 (v + 1)" and "k < n"
  shows "2 ^ (n - 1 - k) \<le> num_at buf i n" "num_at buf i n < 2 ^ (n - k)"
proof -
  note g = golomb_prefix [OF assms(1) k]
  define m where "m = n - 1 - k"
  have n: "n = k + (1 + m)" using assms(3) by (simp add: m_def)
  have e: "num_at buf i n = 2 ^ m + num_at buf (i + k + 1) m"
    unfolding n num_at_add [of buf i k] num_at_add [of buf "i + k" 1] g(1,3) by simp
  then show "2 ^ (n - 1 - k) \<le> num_at buf i n" by (simp add: m_def)
  have "n - k = Suc m" using n by simp
  then show "num_at buf i n < 2 ^ (n - k)" using e num_at_less [of buf "i + k + 1" m] by simp
qed

lemma show_32_golomb:
  assumes ok: "gb_ok gb" and g: "golomb_at (gb_buffer gb) (gb_index gb) v" and k: "k = floor_log2 (v + 1)" "k < 32"
    and room: "gb_index gb + 16 \<le> size_in_bits gb + 8 \<or> 2 * k + 1 < 16"
  shows "av_log2 (fst (run_state (show_bits_long 32) gb)) = 31 - k"
    "snd (run_state (show_bits_long 32) gb) = gb"
proof -
  have keep: "\<not> gb_fault (snd (run_state (get_bits_long 32) gb))"
    using gb.keepsD [OF gb.keeps_get_bits_long ok] by (simp add: gb_ok_def)
  then show "snd (run_state (show_bits_long 32) gb) = gb"
    using ok by (simp add: show_bits_long_def case_prod_unfold Let_def gb_ok_def)
  let ?n = "num_at (gb_buffer gb) (gb_index gb)"
  define w where "w = unat (fst (run_state (get_bits_long 32) gb))"
  have "2 ^ (31 - k) \<le> w \<and> w < 2 ^ (32 - k)"
  proof (cases "gb_index gb + 16 \<le> size_in_bits gb + 8")
    case True
    then have "w = ?n 32" using run_get_bits_long [OF ok, of 32] u32_num_at [of 32] by (simp add: w_def)
    then show ?thesis using golomb_top [OF g k(1), of 32] k(2) by simp
  next
    case False
    then have k8: "2 * k + 1 < 16" using room by blast
    let ?gb = "gb\<lparr>gb_index := size_in_bits gb + 8\<rparr>"
    have a: "run_state (get_bits 16) gb = (of_nat (?n 16), ?gb)"
      using run_get_bits [OF ok, of 16] False by simp
    define b where "b = num_at (gb_buffer gb) (size_in_bits gb + 8) 16"
    have "gb_ok ?gb" using ok by (simp add: gb_ok_def)
    from run_get_bits [OF this, of 16] have "run_state (get_bits 16) ?gb = (of_nat b, ?gb)" by (simp add: b_def)
    with a have "w = unat (or (push_bit 16 (of_nat (?n 16))) (of_nat b) :: u32)"
      by (simp add: w_def get_bits_long_def)
    also have "or (push_bit 16 (of_nat (?n 16))) (of_nat b) = (of_nat (push_bit 16 (?n 16) + b) :: u32)"
    proof -
      have "push_bit 16 (?n 16) + b = or (push_bit 16 (?n 16)) b"
        by (rule disjunctive_add) (auto simp: bit_push_bit_iff b_def bit_num_at)
      then show ?thesis by (simp add: push_bit_of_nat flip: of_nat_or_eq)
    qed
    also have "unat \<dots> = 2 ^ 16 * ?n 16 + b"
    proof -
      have "push_bit 16 (?n 16) + b < 2 ^ 32"
        using num_at_less [of "gb_buffer gb" "gb_index gb" 16] num_at_less [of "gb_buffer gb" "size_in_bits gb + 8" 16]
        by (simp add: b_def push_bit_eq_mult)
      then show ?thesis by (simp only: unat_of_nat) (simp add: push_bit_eq_mult)
    qed
    finally have w: "w = 2 ^ 16 * ?n 16 + b" .
    have t: "2 ^ (15 - k) \<le> ?n 16" "?n 16 + 1 \<le> 2 ^ (16 - k)" using golomb_top [OF g k(1), of 16] k8 by simp_all
    have b: "b < 2 ^ 16" unfolding b_def by (rule num_at_less)
    have "(2 :: nat) ^ (31 - k) = 2 ^ 16 * 2 ^ (15 - k)" "(2 :: nat) ^ (32 - k) = 2 ^ 16 * 2 ^ (16 - k)"
      using k8 by (simp_all only: flip: power_add) (simp_all add: Suc_diff_le)
    then show ?thesis using w b mult_le_mono2 [OF t(1), of "2 ^ 16"] mult_le_mono2 [OF t(2), of "2 ^ 16"]
      by (simp only: distrib_left mult_1_right) linarith
  qed
  then have w: "2 ^ (31 - k) \<le> or w 1" "or w 1 < 2 ^ Suc (31 - k)"
  proof -
    assume w: "2 ^ (31 - k) \<le> w \<and> w < 2 ^ (32 - k)"
    have "32 - k = Suc (31 - k)" using k(2) by simp
    then have "w < 2 * 2 ^ (31 - k)" using w by simp
    then have "w + of_bool (even w) < 2 * 2 ^ (31 - k)" by (cases "even w") (simp, presburger, simp)
    then show "2 ^ (31 - k) \<le> or w 1" "or w 1 < 2 ^ Suc (31 - k)"
      using w unfolding or_one_eq power_Suc by linarith+
  qed
  have "fst (run_state (show_bits_long 32) gb) = of_nat w"
    by (simp add: show_bits_long_def case_prod_unfold Let_def w_def)
  then have "av_log2 (fst (run_state (show_bits_long 32) gb)) = floor_log2 (or w 1)"
    by (simp add: av_log2_def unsigned_or_eq w_def)
  then show "av_log2 (fst (run_state (show_bits_long 32) gb)) = 31 - k"
    using floor_log2_eq [OF w] by simp
qed

lemma run_ue_golomb:
  assumes ok: "gb_ok gb" and g: "golomb_at (gb_buffer gb) (gb_index gb) v" and v: "v + 1 < 2 ^ 32"
    and room: "gb_index gb + 2 * floor_log2 (v + 1) + 1 \<le> size_in_bits gb + 8"
  shows "run_state get_ue_golomb_long gb =
    (of_nat v, gb\<lparr>gb_index := gb_index gb + 2 * floor_log2 (v + 1) + 1\<rparr>)"
proof -
  define k where k: "k = floor_log2 (v + 1)"
  have r: "gb_index gb + 2 * k + 1 \<le> size_in_bits gb + 8" using room by (simp only: k)
  have "\<not> 32 \<le> k"
  proof
    assume "32 \<le> k"
    then have "(2 :: nat) ^ 32 \<le> 2 ^ k" by (rule power_increasing) simp
    then show False using v floor_log2_bounds [of "v + 1"] unfolding k [symmetric] by linarith
  qed
  then have k32: "k < 32" by simp
  let ?gb = "gb\<lparr>gb_index := gb_index gb + k\<rparr>"
  have r16: "gb_index gb + 16 \<le> size_in_bits gb + 8 \<or> 2 * k + 1 < 16" using r by linarith
  obtain w where s: "run_state (show_bits_long 32) gb = (w, gb)"
    using show_32_golomb(2) [OF ok g k k32 r16] by (cases "run_state (show_bits_long 32) gb") simp
  have skip: "run_state (skip_bits_long k) gb = ((), ?gb)"
    using r by (simp add: skip_bits_long_def size_in_bits_plus8_def)
  have "gb_ok ?gb" using ok r by (simp add: gb_ok_def)
  from run_get_bits_long [OF this, of "k + 1"]
  have get: "run_state (get_bits_long (k + 1)) ?gb = (of_nat (v + 1), gb\<lparr>gb_index := gb_index gb + 2 * k + 1\<rparr>)"
    using r k32 golomb_prefix(2) [OF g k] by (simp add: mult_2 del: num_at.simps)
  have log: "31 - av_log2 w = k"
    using show_32_golomb(1) [OF ok g k k32 r16] k32 unfolding s by simp
  show ?thesis
    unfolding get_ue_golomb_long_def Let_def run_state_bind s prod.case log skip get k [symmetric]
    by simp
qed

text \<open>The signed codes 0, 1, -1, 2, -2 and so on.\<close>

definition signed_code :: "nat \<Rightarrow> int" where
  "signed_code v = (if odd v then int (v div 2) + 1 else - int (v div 2))"

lemma se_of_ue:
  assumes v: "v < 2 ^ 32"
  shows "xor (drop_bit 1 (of_nat v :: u32)) (and (of_nat v) 1 - 1) + 1 = of_int (signed_code v)"
proof -
  have h: "drop_bit 1 (of_nat v :: u32) = of_nat (v div 2)"
  proof -
    have u: "unat (of_nat m :: u32) = m" if "m \<le> v" for m
      using that v by (simp only: unat_of_nat) simp
    have "unat (drop_bit 1 (of_nat v :: u32)) = unat (of_nat (v div 2) :: u32)"
      unfolding unat_drop_bit_eq u [OF order_refl] u [OF div_le_dividend] by (simp add: drop_bit_eq_div)
    then show ?thesis by (simp only: word_unat_eq_iff)
  qed
  have a: "and (of_nat v) 1 = (of_bool (odd v) :: u32)"
    by (rule bit_word_eqI) (auto simp: bit_and_iff bit_of_nat_iff bit_1_iff bit_0 possible_bit_def
        intro: gr0I)
  show ?thesis
  proof (cases "odd v")
    case True
    then show ?thesis unfolding h a by (simp add: signed_code_def del: of_nat_div)
  next
    case False
    have "xor (of_nat (v div 2) :: u32) (- 1) = not (of_nat (v div 2))" by simp
    then show ?thesis using False unfolding h a by (simp add: signed_code_def del: of_nat_div flip: minus_eq_not_plus_1)
  qed
qed

section \<open>Property\<close>

text \<open>
  C23: the readers of exponential Golomb codes read what such a code stands for: a code that is in
  the buffer at the position of the reader, up to the end of the data and the eight bits behind it
  to which the position may move, gives its number, unsigned or signed, and the position moves
  behind the code, whatever lies behind it.
\<close>

theorem golomb_code_is_read:
  assumes "gb_ok gb" and "golomb_at (gb_buffer gb) (gb_index gb) v" and "v + 1 < 2 ^ 32"
    and "gb_index gb + 2 * floor_log2 (v + 1) + 1 \<le> size_in_bits gb + 8"
  shows "run_state get_ue_golomb_long gb =
      (of_nat v, gb\<lparr>gb_index := gb_index gb + 2 * floor_log2 (v + 1) + 1\<rparr>) \<and>
    run_state get_se_golomb_long gb =
      (of_int (signed_code v), gb\<lparr>gb_index := gb_index gb + 2 * floor_log2 (v + 1) + 1\<rparr>)"
proof -
  note ue = run_ue_golomb [OF assms]
  have "v < 2 ^ 32" using assms(3) by simp
  from se_of_ue [OF this] show ?thesis
    using ue by (simp add: get_se_golomb_long_def Let_def del: of_nat_add)
qed

definition golomb_reader :: GetBitContext where
  "golomb_reader = \<lparr>gb_buffer = 0x0c # replicate 32 0, gb_index = 3, size_in_bits = 8, gb_fault = False, gb_hang = False\<rparr>"

lemma golomb_code_is_read_witness:
  "run_state get_ue_golomb_long golomb_reader = (of_nat 2, golomb_reader\<lparr>gb_index := 6\<rparr>) \<and>
    run_state get_se_golomb_long golomb_reader = (- 1, golomb_reader\<lparr>gb_index := 6\<rparr>)"
proof -
  have "floor_log2 (2 + 1) = 1" "signed_code 2 = - 1" by code_simp+
  moreover have "gb_ok golomb_reader" "golomb_at (gb_buffer golomb_reader) (gb_index golomb_reader) 2" by code_simp+
  ultimately show ?thesis
    using golomb_code_is_read [of golomb_reader 2] by (simp add: golomb_reader_def)
qed

end
