(* ===== verification/HevcParse.thy ===== *)
theory HevcParse
  imports GetBits
begin

text \<open>
  The parser of the H.265 parameter sets (libmuxer/mp4_muxer/hevc.c): it reads through the sets
  bit by bit for the few fields that the decoder configuration record needs. The record is passed
  along and returned; a result is the value that the C function returns. What a set names
  \<open>\<dots>_minus1\<close> and that is read with few bits is a number.
\<close>

section \<open>The configuration record\<close>

record HVCCNALUnitArray =
  array_completeness :: byte
  NAL_unit_type :: byte
  numNalus :: u16
  nalUnits :: "(u16 \<times> byte list) list"

record HEVCDecoderConfigurationRecord =
  configurationVersion :: byte
  general_profile_space :: byte
  general_tier_flag :: byte
  general_profile_idc :: byte
  general_profile_compatibility_flags :: u32
  general_constraint_indicator_flags :: u64
  general_level_idc :: byte
  min_spatial_segmentation_idc :: u16
  parallelismType :: byte
  chromaFormat :: byte
  bitDepthLumaMinus8 :: byte
  bitDepthChromaMinus8 :: byte
  avgFrameRate :: u16
  constantFrameRate :: byte
  numTemporalLayers :: byte
  temporalIdNested :: byte
  lengthSizeMinusOne :: byte
  numOfArrays :: byte
  nal_arrays :: "HVCCNALUnitArray list"

record HVCCProfileTierLevel =
  profile_space :: byte
  tier_flag :: byte
  profile_idc :: byte
  profile_compatibility_flags :: u32
  constraint_indicator_flags :: u64
  level_idc :: byte

type_synonym hvcc = HEVCDecoderConfigurationRecord

definition hvcc_init :: hvcc where
  "hvcc_init = \<lparr>configurationVersion = 1, general_profile_space = 0, general_tier_flag = 0,
     general_profile_idc = 0, general_profile_compatibility_flags = 0xffffffff,
     general_constraint_indicator_flags = 0xffffffffffff, general_level_idc = 0,
     min_spatial_segmentation_idc = 4096 + 1, parallelismType = 0, chromaFormat = 0,
     bitDepthLumaMinus8 = 0, bitDepthChromaMinus8 = 0, avgFrameRate = 0, constantFrameRate = 0,
     numTemporalLayers = 0, temporalIdNested = 0, lengthSizeMinusOne = 3, numOfArrays = 0,
     nal_arrays = []\<rparr>"

section \<open>Profile, tier and level\<close>

definition hvcc_update_ptl :: "hvcc \<Rightarrow> HVCCProfileTierLevel \<Rightarrow> hvcc" where
  "hvcc_update_ptl h ptl = h\<lparr>
     general_profile_space := profile_space ptl,
     general_level_idc :=
       (if general_tier_flag h < tier_flag ptl then level_idc ptl
        else max (general_level_idc h) (level_idc ptl)),
     general_tier_flag := max (general_tier_flag h) (tier_flag ptl),
     general_profile_idc := max (general_profile_idc h) (profile_idc ptl),
     general_profile_compatibility_flags :=
       and (general_profile_compatibility_flags h) (profile_compatibility_flags ptl),
     general_constraint_indicator_flags :=
       and (general_constraint_indicator_flags h) (constraint_indicator_flags ptl)\<rparr>"

primrec sub_layer_flags :: "nat \<Rightarrow> (u32 \<times> u32) list reader" where
  "sub_layer_flags 0 = State_Monad.return []"
| "sub_layer_flags (Suc n) = do {
     profile_present \<leftarrow> get_bits1;
     level_present \<leftarrow> get_bits1;
     fs \<leftarrow> sub_layer_flags n;
     State_Monad.return ((profile_present, level_present) # fs)
   }"

primrec skip_sub_layers :: "(u32 \<times> u32) list \<Rightarrow> unit reader" where
  "skip_sub_layers [] = State_Monad.return ()"
| "skip_sub_layers (f # fs) = do {
     when_reader (fst f \<noteq> 0) (do { skip_bits_long 32; skip_bits_long 32; skip_bits 24 });
     when_reader (snd f \<noteq> 0) (skip_bits 8);
     skip_sub_layers fs
   }"

definition hvcc_parse_ptl :: "hvcc \<Rightarrow> nat \<Rightarrow> hvcc reader" where
  "hvcc_parse_ptl h max_sub_layers_minus1 = do {
     space \<leftarrow> get_bits 2;
     tier \<leftarrow> get_bits1;
     idc \<leftarrow> get_bits 5;
     compat \<leftarrow> get_bits_long 32;
     constr \<leftarrow> get_bits64 48;
     level \<leftarrow> get_bits 8;
     let h1 = hvcc_update_ptl h \<lparr>profile_space = ucast space, tier_flag = ucast tier,
       profile_idc = ucast idc, profile_compatibility_flags = compat,
       constraint_indicator_flags = constr, level_idc = ucast level\<rparr>;
     flags \<leftarrow> sub_layer_flags max_sub_layers_minus1;
     when_reader (max_sub_layers_minus1 > 0) (repeat_reader (8 - max_sub_layers_minus1) (skip_bits 2));
     skip_sub_layers flags;
     State_Monad.return h1
   }"

section \<open>Video usability information\<close>

definition skip_sub_layer_hrd_parameters :: "u32 \<Rightarrow> bool \<Rightarrow> unit reader" where
  "skip_sub_layer_hrd_parameters cpb_cnt_minus1 sub_pic = repeat_reader (unat cpb_cnt_minus1 + 1) (do {
     get_ue_golomb_long;
     get_ue_golomb_long;
     when_reader sub_pic (do { get_ue_golomb_long; get_ue_golomb_long; State_Monad.return () });
     skip_bits1
   })"

primrec hrd_sub_layers :: "nat \<Rightarrow> bool \<Rightarrow> bool \<Rightarrow> bool \<Rightarrow> int reader" where
  "hrd_sub_layers 0 nal vcl sub_pic = State_Monad.return 0"
| "hrd_sub_layers (Suc n) nal vcl sub_pic = do {
     fixed_general \<leftarrow> get_bits1;
     fixed_within_cvs \<leftarrow> (if fixed_general = 0 then get_bits1 else State_Monad.return 0);
     low_delay \<leftarrow> (if fixed_within_cvs \<noteq> 0 then do { get_ue_golomb_long; State_Monad.return 0 } else get_bits1);
     cpb_cnt_minus1 \<leftarrow> (if low_delay = 0 then get_ue_golomb_long else State_Monad.return 0);
     if low_delay = 0 \<and> cpb_cnt_minus1 > 31 then State_Monad.return AVERROR_INVALIDDATA
     else do {
       when_reader nal (skip_sub_layer_hrd_parameters cpb_cnt_minus1 sub_pic);
       when_reader vcl (skip_sub_layer_hrd_parameters cpb_cnt_minus1 sub_pic);
       hrd_sub_layers n nal vcl sub_pic
     }
   }"

definition skip_hrd_parameters :: "bool \<Rightarrow> nat \<Rightarrow> int reader" where
  "skip_hrd_parameters cprms_present max_sub_layers_minus1 = do {
     nal \<leftarrow> (if cprms_present then get_bits1 else State_Monad.return 0);
     vcl \<leftarrow> (if cprms_present then get_bits1 else State_Monad.return 0);
     sub_pic \<leftarrow> (if cprms_present \<and> (nal \<noteq> 0 \<or> vcl \<noteq> 0) then do {
         s \<leftarrow> get_bits1;
         when_reader (s \<noteq> 0) (skip_bits 19);
         skip_bits 8;
         when_reader (s \<noteq> 0) (skip_bits 4);
         skip_bits 15;
         State_Monad.return s
       } else State_Monad.return 0);
     hrd_sub_layers (max_sub_layers_minus1 + 1) (nal \<noteq> 0) (vcl \<noteq> 0) (sub_pic \<noteq> 0)
   }"

definition skip_timing_info :: "unit reader" where
  "skip_timing_info = do {
     skip_bits_long 32;
     skip_bits_long 32;
     poc \<leftarrow> get_bits1;
     when_reader (poc \<noteq> 0) (do { get_ue_golomb_long; State_Monad.return () })
   }"

definition hvcc_parse_vui :: "hvcc \<Rightarrow> nat \<Rightarrow> hvcc reader" where
  "hvcc_parse_vui h max_sub_layers_minus1 = do {
     aspect \<leftarrow> get_bits1;
     when_reader (aspect \<noteq> 0) (do { idc \<leftarrow> get_bits 8; when_reader (idc = 255) (skip_bits_long 32) });
     overscan \<leftarrow> get_bits1;
     when_reader (overscan \<noteq> 0) skip_bits1;
     video \<leftarrow> get_bits1;
     when_reader (video \<noteq> 0) (do { skip_bits 4; colour \<leftarrow> get_bits1; when_reader (colour \<noteq> 0) (skip_bits 24) });
     chroma \<leftarrow> get_bits1;
     when_reader (chroma \<noteq> 0) (do { get_ue_golomb_long; get_ue_golomb_long; State_Monad.return () });
     skip_bits 3;
     window \<leftarrow> get_bits1;
     when_reader (window \<noteq> 0) (do {
       get_ue_golomb_long; get_ue_golomb_long; get_ue_golomb_long; get_ue_golomb_long; State_Monad.return () });
     timing \<leftarrow> get_bits1;
     when_reader (timing \<noteq> 0) (do {
       skip_timing_info;
       hrd \<leftarrow> get_bits1;
       when_reader (hrd \<noteq> 0) (do { skip_hrd_parameters True max_sub_layers_minus1; State_Monad.return () })
     });
     restriction \<leftarrow> get_bits1;
     if restriction \<noteq> 0 then do {
       skip_bits 3;
       idc \<leftarrow> get_ue_golomb_long;
       let h1 = h\<lparr>min_spatial_segmentation_idc := ucast (min (ucast (min_spatial_segmentation_idc h)) idc)\<rparr>;
       get_ue_golomb_long;
       get_ue_golomb_long;
       get_ue_golomb_long;
       get_ue_golomb_long;
       State_Monad.return h1
     } else State_Monad.return h
   }"

section \<open>The parameter sets\<close>

definition skip_sub_layer_ordering_info :: "unit reader" where
  "skip_sub_layer_ordering_info = do {
     get_ue_golomb_long; get_ue_golomb_long; get_ue_golomb_long; State_Monad.return () }"

text \<open>\<open>numTemporalLayers = FFMAX(numTemporalLayers, max_sub_layers_minus1 + 1)\<close>\<close>

definition raise_layers :: "hvcc \<Rightarrow> u32 \<Rightarrow> hvcc" where
  "raise_layers h m = h\<lparr>numTemporalLayers := ucast (max (ucast (numTemporalLayers h)) (m + 1))\<rparr>"

definition hvcc_parse_vps :: "hvcc \<Rightarrow> (int \<times> hvcc) reader" where
  "hvcc_parse_vps h = do {
     skip_bits 12;
     max_sub_layers_minus1 \<leftarrow> get_bits 3;
     skip_bits 17;
     h1 \<leftarrow> hvcc_parse_ptl (raise_layers h max_sub_layers_minus1) (unat max_sub_layers_minus1);
     State_Monad.return (0, h1)
   }"

definition scaling_list :: "nat \<Rightarrow> unit reader" where
  "scaling_list i = do {
     mode \<leftarrow> get_bits1;
     if mode = 0 then do { get_ue_golomb_long; State_Monad.return () }
     else do {
       when_reader (i > 1) (do { get_se_golomb_long; State_Monad.return () });
       repeat_reader (min 64 (2 ^ (4 + 2 * i))) (do { get_se_golomb_long; State_Monad.return () })
     }
   }"

definition skip_scaling_list_data :: "unit reader" where
  "skip_scaling_list_data = do {
     repeat_reader 6 (scaling_list 0);
     repeat_reader 6 (scaling_list 1);
     repeat_reader 6 (scaling_list 2);
     repeat_reader 2 (scaling_list 3)
   }"

text \<open>
  The short-term reference picture sets; \<open>pocs\<close> are the numbers of pictures of the sets before
  this one, the part of \<open>num_delta_pocs\<close> that has been written. The counter of the first loop is
  an \<open>unsigned int\<close> that is compared with \<open>\<le>\<close>: for the largest number the loop does not end.
\<close>

primrec count_pocs :: "nat \<Rightarrow> u32 \<Rightarrow> u32 reader" where
  "count_pocs 0 c = State_Monad.return c"
| "count_pocs (Suc n) c = do {
     used \<leftarrow> get_bits1;
     delta \<leftarrow> (if used = 0 then get_bits1 else State_Monad.return 0);
     count_pocs n (if used \<noteq> 0 \<or> delta \<noteq> 0 then c + 1 else c)
   }"

definition never_ends :: "unit reader" where
  "never_ends = State (\<lambda>gb. ((), gb\<lparr>gb_hang := True\<rparr>))"

definition skip_pocs :: "u32 \<Rightarrow> unit reader" where
  "skip_pocs n = repeat_reader (unat n) (do { get_ue_golomb_long; skip_bits1 })"

definition rps_inter :: "u32 list \<Rightarrow> (int \<times> u32 list) reader" where
  "rps_inter pocs = do {
     skip_bits1;
     get_ue_golomb_long;
     when_reader (last pocs = 0xffffffff) never_ends;
     n \<leftarrow> count_pocs (unat (last pocs) + 1) 0;
     State_Monad.return (0, pocs @ [n])
   }"

definition rps_explicit :: "u32 list \<Rightarrow> (int \<times> u32 list) reader" where
  "rps_explicit pocs = do {
     num_negative_pics \<leftarrow> get_ue_golomb_long;
     num_positive_pics \<leftarrow> get_ue_golomb_long;
     left \<leftarrow> get_bits_left;
     if (ucast num_positive_pics + ucast num_negative_pics) * 2 > (of_int left :: u64)
     then State_Monad.return (AVERROR_INVALIDDATA, pocs)
     else do {
       skip_pocs num_negative_pics;
       skip_pocs num_positive_pics;
       State_Monad.return (0, pocs @ [num_negative_pics + num_positive_pics])
     }
   }"

definition parse_rps :: "nat \<Rightarrow> u32 list \<Rightarrow> (int \<times> u32 list) reader" where
  "parse_rps num_rps pocs = do {
     inter \<leftarrow> (if pocs \<noteq> [] then get_bits1 else State_Monad.return 0);
     if inter \<noteq> 0
     then if length pocs \<ge> num_rps then State_Monad.return (AVERROR_INVALIDDATA, pocs)
          else rps_inter pocs
     else rps_explicit pocs
   }"

primrec rps_loop :: "nat \<Rightarrow> nat \<Rightarrow> u32 list \<Rightarrow> int reader" where
  "rps_loop 0 num_rps pocs = State_Monad.return 0"
| "rps_loop (Suc n) num_rps pocs = do {
     (ret, pocs1) \<leftarrow> parse_rps num_rps pocs;
     if ret < 0 then State_Monad.return ret else rps_loop n num_rps pocs1
   }"

text \<open>The long-term pictures; \<open>log2_max\<close> is \<open>log2_max_pic_order_cnt_lsb_minus4\<close>.\<close>

definition skip_long_term :: "u32 \<Rightarrow> int reader" where
  "skip_long_term log2_max = do {
     present \<leftarrow> get_bits1;
     if present = 0 then State_Monad.return 0
     else do {
       n \<leftarrow> get_ue_golomb_long;
       if n > 31 then State_Monad.return AVERROR_INVALIDDATA
       else do {
         repeat_reader (unat n) (do { skip_bits (unat (min (log2_max + 4) 16)); skip_bits1 });
         State_Monad.return 0
       }
     }
   }"

text \<open>The part of a sequence parameter set from the picture size to the PCM parameters.\<close>

definition sps_middle :: "hvcc \<Rightarrow> nat \<Rightarrow> (u32 \<times> hvcc) reader" where
  "sps_middle h max_sub_layers_minus1 = do {
     get_ue_golomb_long;
     get_ue_golomb_long;
     window \<leftarrow> get_bits1;
     when_reader (window \<noteq> 0) (do {
       get_ue_golomb_long; get_ue_golomb_long; get_ue_golomb_long; get_ue_golomb_long; State_Monad.return () });
     luma \<leftarrow> get_ue_golomb_long;
     chroma \<leftarrow> get_ue_golomb_long;
     log2_max \<leftarrow> get_ue_golomb_long;
     ordering \<leftarrow> get_bits1;
     repeat_reader (if ordering \<noteq> 0 then max_sub_layers_minus1 + 1 else 1) skip_sub_layer_ordering_info;
     get_ue_golomb_long;
     get_ue_golomb_long;
     get_ue_golomb_long;
     get_ue_golomb_long;
     get_ue_golomb_long;
     get_ue_golomb_long;
     enabled \<leftarrow> get_bits1;
     scaling \<leftarrow> (if enabled \<noteq> 0 then get_bits1 else State_Monad.return 0);
     when_reader (scaling \<noteq> 0) skip_scaling_list_data;
     skip_bits1;
     skip_bits1;
     pcm \<leftarrow> get_bits1;
     when_reader (pcm \<noteq> 0) (do {
       skip_bits 4; skip_bits 4; get_ue_golomb_long; get_ue_golomb_long; skip_bits1 });
     State_Monad.return (log2_max, h\<lparr>bitDepthLumaMinus8 := ucast luma, bitDepthChromaMinus8 := ucast chroma\<rparr>)
   }"

definition hvcc_parse_sps :: "hvcc \<Rightarrow> (int \<times> hvcc) reader" where
  "hvcc_parse_sps h = do {
     skip_bits 4;
     max_sub_layers_minus1 \<leftarrow> get_bits 3;
     let h1 = raise_layers h max_sub_layers_minus1;
     nested \<leftarrow> get_bits1;
     let h2 = h1\<lparr>temporalIdNested := ucast nested\<rparr>;
     h3 \<leftarrow> hvcc_parse_ptl h2 (unat max_sub_layers_minus1);
     get_ue_golomb_long;
     chroma \<leftarrow> get_ue_golomb_long;
     let h4 = h3\<lparr>chromaFormat := ucast chroma\<rparr>;
     when_reader (chromaFormat h4 = 3) skip_bits1;
     (log2_max, h5) \<leftarrow> sps_middle h4 (unat max_sub_layers_minus1);
     num_rps \<leftarrow> get_ue_golomb_long;
     if num_rps > 64 then State_Monad.return (AVERROR_INVALIDDATA, h5)
     else do {
       ret \<leftarrow> rps_loop (unat num_rps) (unat num_rps) [];
       if ret < 0 then State_Monad.return (ret, h5)
       else do {
         ret \<leftarrow> skip_long_term log2_max;
         if ret < 0 then State_Monad.return (ret, h5)
         else do {
           skip_bits1;
           skip_bits1;
           vui \<leftarrow> get_bits1;
           h6 \<leftarrow> (if vui \<noteq> 0 then hvcc_parse_vui h5 (unat max_sub_layers_minus1) else State_Monad.return h5);
           State_Monad.return (0, h6)
         }
       }
     }
   }"

definition hvcc_parse_pps :: "hvcc \<Rightarrow> (int \<times> hvcc) reader" where
  "hvcc_parse_pps h = do {
     get_ue_golomb_long;
     get_ue_golomb_long;
     skip_bits 7;
     get_ue_golomb_long;
     get_ue_golomb_long;
     get_se_golomb_long;
     skip_bits 2;
     cu_qp \<leftarrow> get_bits1;
     when_reader (cu_qp \<noteq> 0) (do { get_ue_golomb_long; State_Monad.return () });
     get_se_golomb_long;
     get_se_golomb_long;
     skip_bits 4;
     tiles \<leftarrow> get_bits1;
     sync \<leftarrow> get_bits1;
     State_Monad.return (0, h\<lparr>parallelismType :=
       (if sync \<noteq> 0 \<and> tiles \<noteq> 0 then 0 else if sync \<noteq> 0 then 3 else if tiles \<noteq> 0 then 2 else 1)\<rparr>)
   }"

section \<open>A unit\<close>

text \<open>The copy of a unit without its emulation prevention bytes.\<close>

fun rbsp_rest :: "byte list \<Rightarrow> byte list" where
  "rbsp_rest (a # b # c # xs) =
     (if a = 0 \<and> b = 0 \<and> c = 3 then a # b # rbsp_rest xs else a # rbsp_rest (b # c # xs))"
| "rbsp_rest xs = xs"

definition nal_unit_extract_rbsp :: "byte list \<Rightarrow> byte list" where
  "nal_unit_extract_rbsp src = take 2 src @ rbsp_rest (drop 2 src)"

definition nal_unit_parse_header :: "u32 reader" where
  "nal_unit_parse_header = do { skip_bits1; nal_type \<leftarrow> get_bits 6; skip_bits 9; State_Monad.return nal_type }"

definition VPS_NUT :: byte where "VPS_NUT = 32"
definition SPS_NUT :: byte where "SPS_NUT = 33"
definition PPS_NUT :: byte where "PPS_NUT = 34"
definition SEI_PREFIX_NUT :: byte where "SEI_PREFIX_NUT = 39"
definition SEI_SUFFIX_NUT :: byte where "SEI_SUFFIX_NUT = 40"

definition hvcc_types :: "byte list" where
  "hvcc_types = [VPS_NUT, SPS_NUT, PPS_NUT, SEI_PREFIX_NUT, SEI_SUFFIX_NUT]"

text \<open>
  The loop that looks for the array of a type, and the index at which it ends; the last one is
  behind the arrays.
\<close>

primrec array_index :: "HVCCNALUnitArray list \<Rightarrow> byte \<Rightarrow> nat" where
  "array_index [] nal_type = 0"
| "array_index (a # as) nal_type = (if NAL_unit_type a = nal_type then 0 else Suc (array_index as nal_type))"

definition AVERROR_ENOMEM :: int where
  "AVERROR_ENOMEM = - 12"

text \<open>\<open>mem\<close> tells whether the memory of the arrays can be had.\<close>

definition hvcc_array_add_nal_unit :: "bool \<Rightarrow> byte list \<Rightarrow> byte \<Rightarrow> byte \<Rightarrow> hvcc \<Rightarrow> int \<times> hvcc" where
  "hvcc_array_add_nal_unit mem nal_buf nal_type ps_array_completeness h =
     (if \<not> mem then (AVERROR_ENOMEM, h)
      else
        let i = array_index (nal_arrays h) nal_type;
            h1 = (if i \<ge> unat (numOfArrays h)
                  then h\<lparr>nal_arrays := nal_arrays h @ [\<lparr>array_completeness = 0, NAL_unit_type = 0, numNalus = 0, nalUnits = []\<rparr>],
                    numOfArrays := of_nat i + 1\<rparr>
                  else h);
            a = nal_arrays h1 ! i;
            a1 = a\<lparr>nalUnits := take (unat (numNalus a)) (nalUnits a) @ [(of_nat (length nal_buf), nal_buf)],
              NAL_unit_type := nal_type,
              numNalus := numNalus a + 1,
              array_completeness :=
                (if nal_type = VPS_NUT \<or> nal_type = SPS_NUT \<or> nal_type = PPS_NUT then ps_array_completeness
                 else array_completeness a)\<rparr>
        in (0, h1\<lparr>nal_arrays := (nal_arrays h1)[i := a1]\<rparr>))"

text \<open>The part of \<open>hvcc_add_nal_unit\<close> behind \<open>init_get_bits8\<close>.\<close>

definition hvcc_parse_unit :: "bool \<Rightarrow> byte list \<Rightarrow> byte \<Rightarrow> hvcc \<Rightarrow> (int \<times> hvcc) reader" where
  "hvcc_parse_unit mem nal_buf ps_array_completeness h = do {
     nal_type \<leftarrow> nal_unit_parse_header;
     if ucast nal_type \<in> set hvcc_types
     then
       let (ret, h1) = hvcc_array_add_nal_unit mem nal_buf (ucast nal_type) ps_array_completeness h
       in if ret < 0 then State_Monad.return (ret, h1)
          else if ucast nal_type = VPS_NUT then hvcc_parse_vps h1
          else if ucast nal_type = SPS_NUT then hvcc_parse_sps h1
          else if ucast nal_type = PPS_NUT then hvcc_parse_pps h1
          else State_Monad.return (ret, h1)
     else State_Monad.return (AVERROR_INVALIDDATA, h)
   }"

text \<open>
  \<open>alloc\<close> tells whether the memory for the copy can be had, \<open>pad\<close> is what the memory behind the
  copy holds: it is not written. The result is \<open>None\<close> when the parser would read outside the copy
  and its padding, or would not end.
\<close>

definition hvcc_add_nal_unit ::
  "bool \<Rightarrow> bool \<Rightarrow> byte list \<Rightarrow> byte list \<Rightarrow> byte \<Rightarrow> hvcc \<Rightarrow> (int \<times> hvcc) option" where
  "hvcc_add_nal_unit alloc mem pad nal_buf ps_array_completeness h =
     (if \<not> alloc then Some (AVERROR_ENOMEM, h)
      else
        let rbsp_buf = nal_unit_extract_rbsp nal_buf;
            (ret, gbc) = init_get_bits8 (rbsp_buf @ pad) (length rbsp_buf)
        in if ret < 0 then Some (ret, h)
           else
             let (r, gbc1) = run_state (hvcc_parse_unit mem nal_buf ps_array_completeness h) gbc
             in if gb_fault gbc1 \<or> gb_hang gbc1 then None else Some r)"

section \<open>What the parser keeps\<close>

text \<open>Whatever the primitive operations of the reader keep, the parser keeps, but for the loop over
  the reference picture sets.\<close>

context kept_reader
begin

lemma keeps_sub_layer_flags: "keeps (sub_layer_flags n)"
  by (induction n) (auto intro!: reader_rules)

lemma keeps_skip_sub_layers: "keeps (skip_sub_layers fs)"
  by (induction fs) (auto intro!: reader_rules)

lemma keeps_ptl: "keeps (hvcc_parse_ptl h n)"
  unfolding hvcc_parse_ptl_def Let_def
  by (intro reader_rules keeps_sub_layer_flags keeps_skip_sub_layers)

lemma keeps_sub_layer_hrd: "keeps (skip_sub_layer_hrd_parameters c s)"
  unfolding skip_sub_layer_hrd_parameters_def by (intro reader_rules)

lemma keeps_hrd_sub_layers: "keeps (hrd_sub_layers n nal vcl s)"
  by (induction n) (simp only: hrd_sub_layers.simps, intro reader_rules keeps_sub_layer_hrd, assumption?)+

lemma keeps_hrd: "keeps (skip_hrd_parameters c n)"
  unfolding skip_hrd_parameters_def by (intro reader_rules keeps_hrd_sub_layers)

lemma keeps_timing: "keeps skip_timing_info"
  unfolding skip_timing_info_def by (intro reader_rules)

lemma keeps_vui: "keeps (hvcc_parse_vui h n)"
  unfolding hvcc_parse_vui_def Let_def by (intro reader_rules keeps_timing keeps_hrd)

lemma keeps_vps: "keeps (hvcc_parse_vps h)"
  unfolding hvcc_parse_vps_def by (intro reader_rules keeps_ptl)

lemma keeps_ordering: "keeps skip_sub_layer_ordering_info"
  unfolding skip_sub_layer_ordering_info_def by (intro reader_rules)

lemma keeps_scaling: "keeps skip_scaling_list_data"
  unfolding skip_scaling_list_data_def scaling_list_def by (intro reader_rules)

lemma keeps_long_term: "keeps (skip_long_term l)"
  unfolding skip_long_term_def by (intro reader_rules)

lemma keeps_sps_middle: "keeps (sps_middle h n)"
  unfolding sps_middle_def by (intro reader_rules keeps_ordering keeps_scaling)

lemma keeps_sps: "(\<And>n. n \<le> 64 \<Longrightarrow> keeps (rps_loop n n [])) \<Longrightarrow> keeps (hvcc_parse_sps h)"
  unfolding hvcc_parse_sps_def Let_def
  by (intro reader_rules keeps_ptl keeps_sps_middle keeps_long_term keeps_vui) (simp add: not_less word_le_nat_alt)

lemma keeps_pps: "keeps (hvcc_parse_pps h)"
  unfolding hvcc_parse_pps_def by (intro reader_rules)

lemma keeps_header: "keeps nal_unit_parse_header"
  unfolding nal_unit_parse_header_def by (intro reader_rules)

lemma keeps_unit: "(\<And>n. n \<le> 64 \<Longrightarrow> keeps (rps_loop n n [])) \<Longrightarrow> keeps (hvcc_parse_unit mem buf c h)"
  unfolding hvcc_parse_unit_def Let_def
  by (intro reader_rules keeps_header keeps_vps keeps_sps keeps_pps)

lemma keeps_count_pocs: "keeps (count_pocs n c)"
  by (induction n arbitrary: c) (simp_all only: count_pocs.simps, (intro reader_rules, assumption?)+)

lemma keeps_skip_pocs: "keeps (skip_pocs n)"
  unfolding skip_pocs_def by (intro reader_rules)

end

text \<open>No operation reads outside the buffer.\<close>

lemma rps_in_buffer: "gb.keeps (rps_loop n num pocs)"
proof (induction n arbitrary: pocs)
  case 0
  then show ?case by (simp add: gb.keeps_return)
next
  case (Suc n)
  have "gb.keeps never_ends" by (simp add: gb.keeps_def never_ends_def gb_ok_def)
  then have "gb.keeps (parse_rps num pocs)"
    unfolding parse_rps_def rps_inter_def rps_explicit_def
    by (intro gb.reader_rules gb.keeps_count_pocs gb.keeps_skip_pocs)
  then show ?case unfolding rps_loop.simps by (intro gb.reader_rules Suc)
qed

lemma unit_in_buffer: "gb.keeps (hvcc_parse_unit mem buf c h)"
  by (rule gb.keeps_unit) (rule rps_in_buffer)

lemma init_gb_ok:
  assumes "init_get_bits8 (b @ pad) (length b) = (0, gb)" "length pad = 32"
  shows "gb_ok gb" "gb_buffer gb = b @ pad" "size_in_bits gb = 8 * length b" "8 * length b < 2147483640"
    "\<not> gb_hang gb"
  using assms by (auto simp: init_get_bits8_def gb_ok_def AVERROR_INVALIDDATA_def split: if_splits)

section \<open>The parser ends\<close>

text \<open>
  With zeros behind the data the loop over the reference picture sets ends: a number of pictures is
  small or was read behind the data, and from there on no set refers to the one before it.
\<close>

definition gb_live :: "byte list \<Rightarrow> nat \<Rightarrow> GetBitContext \<Rightarrow> bool" where
  "gb_live b s gb \<longleftrightarrow> gb_ok gb \<and> gb_data b s gb"

interpretation live: kept_reader "gb_live b s" for b s
proof
  have k: "kept.keeps (gb_live b s) m" if "kept.keeps gb_ok m" "kept.keeps (gb_data b s) m" for b s and m :: "'a reader"
    using that by (simp add: kept.keeps_def gb_live_def)
  show "kept.keeps (gb_live b s) update_cache" by (intro k gb.keeps_update_cache run.keeps_update_cache)
  show "kept.keeps (gb_live b s) (skip_counter n)" for n by (intro k gb.keeps_skip_counter run.keeps_skip_counter)
  show "kept.keeps (gb_live b s) (skip_bits_long n)" for n
    by (intro k gb.keeps_skip_bits_long run.keeps_skip_bits_long)
  show "kept.keeps (gb_live b s) get_bits1" by (intro k gb.keeps_get_bits1 run.keeps_get_bits1)
  show "gb_live b s gb \<Longrightarrow> gb_live b s gb1 \<Longrightarrow> gb_live b s (gb\<lparr>gb_fault := gb_fault gb1\<rparr>)" for gb gb1
    by (simp add: gb_live_def gb.inv_copy run.inv_copy)
qed

definition zero_tail :: "byte list \<Rightarrow> nat \<Rightarrow> bool" where
  "zero_tail b s \<longleftrightarrow> 8 dvd s \<and> s < 2 ^ 31 \<and> (\<forall>j < length b. s \<le> 8 * j \<longrightarrow> b ! j = 0)"

definition pocs_small :: "u32 list \<Rightarrow> GetBitContext \<Rightarrow> bool" where
  "pocs_small pocs gb \<longleftrightarrow>
     (pocs \<noteq> [] \<longrightarrow> unat (last pocs) < 2 ^ 30 + length pocs \<or> size_in_bits gb < gb_index gb)"

lemma past_stays:
  assumes "past.keeps (gb_buffer gb) (size_in_bits gb) m" "size_in_bits gb < gb_index gb"
  shows "size_in_bits (snd (run_state m gb)) < gb_index (snd (run_state m gb))"
  using past.keepsD [OF assms(1), of gb] assms(2) by (simp add: gb_past_def)

lemma get_bits1_behind:
  assumes z: "zero_tail b s" and gb: "gb_live b s gb" "s < gb_index gb"
  shows "fst (run_state get_bits1 gb) = 0"
proof -
  have s: "s \<le> 8 * (gb_index gb div 8)" using z gb(2) by (auto simp: zero_tail_def dvd_def)
  have "gb_index gb div 8 < length b"
    using gb(1) by (auto simp: gb_live_def gb_ok_def gb_data_def)
  then have "b ! (gb_index gb div 8) = 0" using z s by (simp add: zero_tail_def)
  then show ?thesis using gb(1) by (simp add: get_bits1_def Let_def gb_live_def gb_data_def)
qed

lemma count_pocs_le: "unat (fst (run_state (count_pocs n c) gb)) \<le> unat c + n"
proof (induction n arbitrary: c gb)
  case (Suc n)
  have u: "unat (c + 1) \<le> unat c + 1"
    by (simp only: unat_word_ariths(1) unat_1 mod_less_eq_dividend)
  have "unat (fst (run_state (count_pocs n c1) gb1)) \<le> unat c + Suc n" if "c1 = c \<or> c1 = c + 1" for c1 gb1
  proof -
    have "unat c1 \<le> unat c + 1" using that u by auto
    then show ?thesis using Suc [of c1 gb1] by linarith
  qed
  then show ?case by (simp add: case_prod_unfold)
qed simp

lemma rps_inter_small:
  assumes gb: "gb_live b s gb" and p: "pocs \<noteq> []" "unat (last pocs) < 2 ^ 30 + length pocs" "length pocs \<le> 64"
    and r: "run_state (rps_inter pocs) gb = ((ret, pocs1), gb1)"
  shows "gb_live b s gb1 \<and> pocs_small pocs1 gb1 \<and> length pocs1 = Suc (length pocs)"
proof -
  have l: "last pocs \<noteq> 0xffffffff" using p(2,3) by auto
  define m where "m = (do { skip_bits1; get_ue_golomb_long; count_pocs (unat (last pocs) + 1) 0 })"
  have m: "run_state (rps_inter pocs) gb =
      ((0, pocs @ [fst (run_state m gb)]), snd (run_state m gb))"
    using l by (simp add: m_def rps_inter_def when_reader_def case_prod_unfold)
  have "gb_live b s (snd (run_state m gb))"
    unfolding m_def by (intro live.keepsD [OF _ gb] live.reader_rules live.keeps_count_pocs)
  moreover have "unat (fst (run_state m gb)) \<le> unat (last pocs) + 1"
    using count_pocs_le [of "unat (last pocs) + 1" 0] by (simp add: m_def case_prod_unfold)
  ultimately show ?thesis using r p(2) unfolding m by (auto simp: pocs_small_def)
qed

lemma pocs_stay_small:
  assumes "past.keeps (gb_buffer gb) (size_in_bits gb) m" "pocs_small pocs gb"
    "size_in_bits (snd (run_state m gb)) = size_in_bits gb"
  shows "pocs_small pocs (snd (run_state m gb))"
  using past_stays [OF assms(1)] assms(2,3) by (auto simp: pocs_small_def)

text \<open>The test of the numbers read: with data left they are small.\<close>

lemma explicit_guard:
  fixes x y :: u32
  assumes "\<not> (ucast y + ucast x) * 2 > (of_int (int s - int i) :: u64)" "i \<le> s" "s < 2 ^ 31"
  shows "unat (x + y) < 2 ^ 30"
proof -
  have x: "unat (ucast x :: u64) = unat x" for x :: u32
    by (simp add: unsigned_ucast_eq take_bit_nat_eq_self order.strict_trans [OF u32_less])
  have e: "unat (ucast y + ucast x :: u64) = unat y + unat x"
    using u32_less [of x] u32_less [of y] by (subst unat_plus_no_overflow) (simp_all add: x)
  have d: "unat ((ucast y + ucast x) * 2 :: u64) = (unat y + unat x) * 2"
    using u32_less [of x] u32_less [of y] unfolding unat_word_ariths(2) e by simp
  have "(of_int (int s - int i) :: u64) = of_nat (s - i)" using assms(2) by (simp flip: of_nat_diff)
  moreover have "unat (of_nat (s - i) :: u64) = s - i" using assms(3) by (simp only: unat_of_nat) simp
  ultimately have "(unat y + unat x) * 2 \<le> s - i"
    using assms(1) d by (simp add: not_less word_le_nat_alt)
  then have "unat x + unat y < 2 ^ 30" using assms(3) by simp
  moreover have "unat (x + y) \<le> unat x + unat y" by (simp only: unat_word_ariths(1) mod_less_eq_dividend)
  ultimately show ?thesis by simp
qed

lemma rps_explicit_small:
  assumes gb: "gb_live b s gb" and s: "s < 2 ^ 31" and p: "pocs_small pocs gb"
    and r: "run_state (rps_explicit pocs) gb = ((ret, pocs1), gb1)"
  shows "gb_live b s gb1 \<and> pocs_small pocs1 gb1 \<and> length pocs1 \<le> Suc (length pocs)"
proof -
  have live: "gb_live b s gb1"
    using live.keepsD [of b s "rps_explicit pocs", OF _ gb] r unfolding rps_explicit_def
    by (fastforce intro!: live.reader_rules live.keeps_skip_pocs)
  obtain x g1 where g1: "run_state get_ue_golomb_long gb = (x, g1)" by (cases "run_state get_ue_golomb_long gb")
  obtain y g2 where g2: "run_state get_ue_golomb_long g1 = (y, g2)" by (cases "run_state get_ue_golomb_long g1")
  have l2: "gb_live b s g2"
    using live.keepsD [OF live.keeps_ue live.keepsD [OF live.keeps_ue gb]] g1 g2 by simp
  define m where "m = (do { skip_pocs x; skip_pocs y })"
  define bad where "bad \<longleftrightarrow> (ucast y + ucast x) * 2 > (of_int (int s - int (gb_index g2)) :: u64)"
  have r2: "run_state (rps_explicit pocs) gb =
      (if bad then ((AVERROR_INVALIDDATA, pocs), g2) else ((0, pocs @ [x + y]), snd (run_state m g2)))"
    using l2 by (simp add: rps_explicit_def get_bits_left_def g1 g2 bad_def m_def case_prod_unfold gb_live_def gb_data_def)
  have "pocs_small pocs g2"
  proof -
    define k where "k = (do { get_ue_golomb_long; get_ue_golomb_long })"
    have "snd (run_state k gb) = g2" by (simp add: k_def g1 g2)
    moreover have "past.keeps (gb_buffer gb) (size_in_bits gb) k" unfolding k_def by (intro past.reader_rules)
    ultimately show ?thesis using pocs_stay_small [of gb k pocs] p gb l2 by (simp add: gb_live_def gb_data_def)
  qed
  moreover have "pocs_small (pocs @ [x + y]) (snd (run_state m g2))" if "\<not> bad"
  proof (cases "s < gb_index g2")
    case True
    have "past.keeps (gb_buffer g2) (size_in_bits g2) m"
      unfolding m_def by (intro past.reader_rules past.keeps_skip_pocs)
    then have "size_in_bits (snd (run_state m g2)) < gb_index (snd (run_state m g2))"
      by (rule past_stays) (use True l2 in \<open>simp add: gb_live_def gb_data_def\<close>)
    then show ?thesis by (simp add: pocs_small_def)
  next
    case False
    then have "unat (x + y) < 2 ^ 30" using explicit_guard [of s "gb_index g2" y x] that s by (simp add: bad_def)
    then show ?thesis by (simp add: pocs_small_def)
  qed
  ultimately show ?thesis using live r r2 by (auto split: if_splits)
qed

lemma parse_rps_small:
  assumes z: "zero_tail b s" and gb: "gb_live b s gb" and p: "pocs_small pocs gb" "length pocs \<le> 64"
    and r: "run_state (parse_rps num pocs) gb = ((ret, pocs1), gb1)"
  shows "gb_live b s gb1 \<and> pocs_small pocs1 gb1 \<and> length pocs1 \<le> Suc (length pocs)"
proof -
  have s: "s < 2 ^ 31" using z by (simp add: zero_tail_def)
  show ?thesis
  proof (cases "pocs = []")
    case True
    then have "run_state (rps_explicit pocs) gb = ((ret, pocs1), gb1)" using r by (simp add: parse_rps_def)
    then show ?thesis by (rule rps_explicit_small [OF gb s p(1)])
  next
    case False
    obtain i g1 where g1: "run_state get_bits1 gb = (i, g1)" by (cases "run_state get_bits1 gb")
    have l1: "gb_live b s g1" using live.keepsD [OF live.keeps_get_bits1 gb] g1 by simp
    have p1: "pocs_small pocs g1"
      using pocs_stay_small [OF past.keeps_get_bits1 p(1)] gb l1 g1 by (simp add: gb_live_def gb_data_def)
    have small: "unat (last pocs) < 2 ^ 30 + length pocs" if "i \<noteq> 0"
      using get_bits1_behind [OF z gb] that g1 p(1) False gb by (auto simp: pocs_small_def gb_live_def gb_data_def)
    have r1: "run_state (parse_rps num pocs) gb = run_state
        (if i \<noteq> 0 then if length pocs \<ge> num then State_Monad.return (AVERROR_INVALIDDATA, pocs) else rps_inter pocs
         else rps_explicit pocs) g1"
      using False by (simp add: parse_rps_def g1)
    consider "i = 0" | "i \<noteq> 0" "length pocs \<ge> num" | "i \<noteq> 0" "\<not> length pocs \<ge> num" by blast
    then show ?thesis
    proof cases
      case 1
      then show ?thesis using rps_explicit_small [OF l1 s p1] r r1 by simp
    next
      case 2
      then show ?thesis using r r1 l1 p1 by auto
    next
      case 3
      then show ?thesis using rps_inter_small [OF l1 False small p(2)] r r1 by simp
    qed
  qed
qed

lemma rps_loop_live:
  assumes z: "zero_tail b s"
  shows "gb_live b s gb \<Longrightarrow> pocs_small pocs gb \<Longrightarrow> n + length pocs \<le> 64 \<Longrightarrow>
    gb_live b s (snd (run_state (rps_loop n num pocs) gb))"
proof (induction n arbitrary: pocs gb)
  case (Suc n)
  obtain ret pocs1 gb1 where r: "run_state (parse_rps num pocs) gb = ((ret, pocs1), gb1)"
    by (metis surj_pair)
  from parse_rps_small [OF z Suc.prems(1,2) _ r] Suc.prems(3)
  have "gb_live b s gb1" "pocs_small pocs1 gb1" "length pocs1 \<le> Suc (length pocs)" by auto
  then show ?case using Suc.IH [of gb1 pocs1] Suc.prems(3) by (simp add: r)
qed simp

lemma unit_live: "zero_tail b s \<Longrightarrow> live.keeps b s (hvcc_parse_unit mem buf c h)"
  by (rule live.keeps_unit) (auto simp: live.keeps_def pocs_small_def intro!: rps_loop_live)

section \<open>Properties\<close>

text \<open>
  C20: for a unit of any content, with any 32 bytes behind the copy, the parser reads only bytes of
  the copy and of the 32 bytes, and its position stays in the data or at most eight bits behind it.
\<close>

theorem hevc_parser_stays_in_buffer:
  assumes "init_get_bits8 (nal_unit_extract_rbsp nal @ pad) (length (nal_unit_extract_rbsp nal)) = (0, gb)"
    and "length pad = 32"
  shows "\<not> gb_fault (snd (run_state (hvcc_parse_unit mem nal c h) gb)) \<and>
    gb_index (snd (run_state (hvcc_parse_unit mem nal c h) gb)) \<le>
      size_in_bits (snd (run_state (hvcc_parse_unit mem nal c h) gb)) + 8"
  using gb.keepsD [OF unit_in_buffer init_gb_ok(1) [OF assms], of mem nal c h] by (simp add: gb_ok_def)

lemma hevc_parser_stays_in_buffer_witness:
  "\<exists>gb. init_get_bits8 (nal_unit_extract_rbsp [0x42, 1, 0, 0, 3] @ replicate 32 0xff) 4 = (0, gb) \<and>
    \<not> gb_fault (snd (run_state (hvcc_parse_unit True [0x42, 1, 0, 0, 3] 0 hvcc_init) gb))"
proof -
  have l: "length (nal_unit_extract_rbsp [0x42, 1, 0, 0, 3]) = 4" by code_simp
  have "init_get_bits8 (nal_unit_extract_rbsp [0x42, 1, 0, 0, 3] @ replicate 32 0xff) 4 =
    (0, snd (init_get_bits8 (nal_unit_extract_rbsp [0x42, 1, 0, 0, 3] @ replicate 32 0xff) 4))"
    by (simp add: init_get_bits8_def)
  then show ?thesis
    using hevc_parser_stays_in_buffer [of "[0x42, 1, 0, 0, 3]" "replicate 32 0xff" _ True 0 hvcc_init] unfolding l
    by (metis length_replicate)
qed

text \<open>
  C21: when the bytes behind the copy are zero, \<open>hvcc_add_nal_unit\<close> returns for every unit, and does
  not read outside the copy and its padding. The only loop that could run forever compares its
  counter with the number of pictures of the reference picture set before; the test of the bits left
  does not bound that number once the reader is behind the data.
\<close>

theorem hevc_parser_ends: "hvcc_add_nal_unit alloc mem (replicate 32 0) nal c h \<noteq> None"
proof -
  let ?b = "nal_unit_extract_rbsp nal"
  have "zero_tail (?b @ replicate 32 0) (8 * length ?b)" if "8 * length ?b < 2147483640"
    using that by (simp add: zero_tail_def nth_append)
  moreover have "gb_live (?b @ replicate 32 0) (8 * length ?b) gb"
    if "init_get_bits8 (?b @ replicate 32 0) (length ?b) = (0, gb)" for gb
    using init_gb_ok [OF that] by (simp add: gb_live_def gb_data_def)
  ultimately have "\<not> gb_fault (snd (run_state (hvcc_parse_unit mem nal c h) gb))"
    "\<not> gb_hang (snd (run_state (hvcc_parse_unit mem nal c h) gb))"
    if "init_get_bits8 (?b @ replicate 32 0) (length ?b) = (0, gb)" for gb
    using that init_gb_ok(4) [OF that] live.keepsD [OF unit_live, of "?b @ replicate 32 0" "8 * length ?b" gb mem nal c h]
    by (simp_all add: gb_live_def gb_ok_def gb_data_def)
  then show ?thesis
    by (auto simp: hvcc_add_nal_unit_def case_prod_unfold Let_def init_get_bits8_def AVERROR_INVALIDDATA_def
        split: if_splits)
qed

end
