(* ===== verification/Hevc.thy ===== *)
theory Hevc
  imports HevcParse
begin

text \<open>
  The decoder configuration record of H.265 (libmuxer/mp4_muxer/hevc.c): \<open>ff_isom_write_hvcc\<close>
  collects the parameter sets of a byte stream by their type and writes the \<open>hvcC\<close> record,
  \<open>FFIsomGetHvccSize\<close> goes over the same stream and computes the size of the record. Both parse
  the sets with the theory before this one.
\<close>

section \<open>The record\<close>

definition HEVC_MAX_VPS_COUNT :: u16 where "HEVC_MAX_VPS_COUNT = 16"
definition HEVC_MAX_SPS_COUNT :: u16 where "HEVC_MAX_SPS_COUNT = 32"
definition HEVC_MAX_PPS_COUNT :: u16 where "HEVC_MAX_PPS_COUNT = 256"

definition hvcc_arrays :: "hvcc \<Rightarrow> HVCCNALUnitArray list" where
  "hvcc_arrays h = take (unat (numOfArrays h)) (nal_arrays h)"

definition ps_count :: "hvcc \<Rightarrow> byte \<Rightarrow> u16" where
  "ps_count h t = sum_list (map numNalus (filter (\<lambda>a. NAL_unit_type a = t) (hvcc_arrays h)))"

definition counts_ok :: "hvcc \<Rightarrow> bool" where
  "counts_ok h \<longleftrightarrow>
     \<not> (ps_count h VPS_NUT = 0 \<or> ps_count h VPS_NUT > HEVC_MAX_VPS_COUNT \<or>
        ps_count h SPS_NUT = 0 \<or> ps_count h SPS_NUT > HEVC_MAX_SPS_COUNT \<or>
        ps_count h PPS_NUT = 0 \<or> ps_count h PPS_NUT > HEVC_MAX_PPS_COUNT)"

definition hvcc_fix :: "hvcc \<Rightarrow> hvcc" where
  "hvcc_fix h =
     (let h1 = h\<lparr>configurationVersion := 1,
            min_spatial_segmentation_idc :=
              (if min_spatial_segmentation_idc h > 4096 then 0 else min_spatial_segmentation_idc h)\<rparr>
      in h1\<lparr>parallelismType := (if min_spatial_segmentation_idc h1 = 0 then 0 else parallelismType h1),
           avgFrameRate := 0, constantFrameRate := 0\<rparr>)"

definition hvcc_units_of :: "HVCCNALUnitArray \<Rightarrow> (u16 \<times> byte list) list" where
  "hvcc_units_of a = take (unat (numNalus a)) (nalUnits a)"

definition write_nal :: "u16 \<times> byte list \<Rightarrow> calls" where
  "write_nal u = put_be16_cache (ucast (fst u)) @ put_buffer_cache (take (unat (fst u)) (snd u))"

definition write_array :: "HVCCNALUnitArray \<Rightarrow> calls" where
  "write_array a =
     put_byte_cache (or (push_bit 7 (ucast (array_completeness a))) (and (ucast (NAL_unit_type a)) 0x3f)) @
     put_be16_cache (ucast (numNalus a)) @
     concat (map write_nal (hvcc_units_of a))"

definition hvcc_write :: "hvcc \<Rightarrow> int \<times> calls" where
  "hvcc_write h0 =
     (let h = hvcc_fix h0
      in if \<not> counts_ok h then (AVERROR_INVALIDDATA, [])
         else (0,
           put_byte_cache (ucast (configurationVersion h)) @
           put_byte_cache (or (push_bit 6 (ucast (general_profile_space h)))
             (or (push_bit 5 (ucast (general_tier_flag h))) (ucast (general_profile_idc h)))) @
           put_be32_cache (general_profile_compatibility_flags h) @
           put_be32_cache (ucast (drop_bit 16 (general_constraint_indicator_flags h))) @
           put_be16_cache (ucast (general_constraint_indicator_flags h)) @
           put_byte_cache (ucast (general_level_idc h)) @
           put_be16_cache (or (ucast (min_spatial_segmentation_idc h)) 0xf000) @
           put_byte_cache (or (ucast (parallelismType h)) 0xfc) @
           put_byte_cache (or (ucast (chromaFormat h)) 0xfc) @
           put_byte_cache (or (ucast (bitDepthLumaMinus8 h)) 0xf8) @
           put_byte_cache (or (ucast (bitDepthChromaMinus8 h)) 0xf8) @
           put_be16_cache (ucast (avgFrameRate h)) @
           put_byte_cache (or (push_bit 6 (ucast (constantFrameRate h)))
             (or (push_bit 3 (ucast (numTemporalLayers h)))
               (or (push_bit 2 (ucast (temporalIdNested h))) (ucast (lengthSizeMinusOne h))))) @
           put_byte_cache (ucast (numOfArrays h)) @
           concat (map write_array (hvcc_arrays h))))"

definition nal_size :: "u16 \<times> byte list \<Rightarrow> u32" where
  "nal_size u = 2 + ucast (fst u)"

definition array_size :: "HVCCNALUnitArray \<Rightarrow> u32" where
  "array_size a = 1 + 2 + sum_list (map nal_size (hvcc_units_of a))"

definition get_hvcc_write_size :: "hvcc \<Rightarrow> u32" where
  "get_hvcc_write_size h0 =
     (let h = hvcc_fix h0
      in if \<not> counts_ok h then 0
         else 1 + 1 + 4 + 4 + 2 + 1 + 2 + 1 + 1 + 1 + 1 + 2 + 1 + 1 +
           sum_list (map array_size (hvcc_arrays h)))"

section \<open>The two passes over a byte stream\<close>

text \<open>
  The loop over the units, which both functions have; \<open>buf\<close> is what lies between \<open>buf\<close> and \<open>end\<close>.
  \<open>alloc\<close> says which allocations of a call give memory, and \<open>pad k\<close> is what lies behind the copy
  of the \<open>k\<close>-th unit.
\<close>

function hvcc_units :: "(nat \<Rightarrow> bool) \<Rightarrow> (nat \<Rightarrow> byte list) \<Rightarrow> nat \<Rightarrow> byte \<Rightarrow> byte list \<Rightarrow> hvcc \<Rightarrow>
    (int \<times> hvcc) option" where
  "hvcc_units alloc pad k c buf h =
     (if length buf > 4
      then
        let len = min (unat (rb32 buf)) (length buf - 4);
            nal_type = and (drop_bit 1 (buf ! 4)) 0x3f;
            buf1 = drop 4 buf
        in if nal_type \<in> set hvcc_types
           then (case hvcc_add_nal_unit (alloc (2 * k + 1)) (alloc (2 * k + 2)) (pad k) (take len buf1) c h of
                   None \<Rightarrow> None
                 | Some (ret, h1) \<Rightarrow>
                     if ret < 0 then Some (ret, h1) else hvcc_units alloc pad (Suc k) c (drop len buf1) h1)
           else hvcc_units alloc pad (Suc k) c (drop len buf1) h
      else Some (0, h))"
  by pat_completeness auto
termination by (relation "measure (\<lambda>(_, _, _, _, b, _). length b)") auto

declare hvcc_units.simps [simp del]

definition ff_isom_write_hvcc ::
  "(nat \<Rightarrow> bool) \<Rightarrow> (nat \<Rightarrow> byte list) \<Rightarrow> nat \<Rightarrow> byte list \<Rightarrow> byte \<Rightarrow> (int \<times> calls) option" where
  "ff_isom_write_hvcc alloc pad al data ps_array_completeness =
     (if length data < 6 then Some (AVERROR_INVALIDDATA, [])
      else if data ! 0 = 1 then Some (0, put_buffer_cache data)
      else if \<not> (rb24 data = 1 \<or> rb32 data = 1) then Some (AVERROR_INVALIDDATA, [])
      else (case ff_avc_parse_nal_units_buf (alloc 0) al data of
              None \<Rightarrow> None
            | Some None \<Rightarrow> Some (- 1, [])
            | Some (Some buf) \<Rightarrow>
                (case hvcc_units alloc pad 0 ps_array_completeness buf hvcc_init of
                   None \<Rightarrow> None
                 | Some (ret, h) \<Rightarrow> if ret < 0 then Some (ret, []) else Some (hvcc_write h))))"

definition FFIsomGetHvccSize ::
  "(nat \<Rightarrow> bool) \<Rightarrow> (nat \<Rightarrow> byte list) \<Rightarrow> nat \<Rightarrow> byte list \<Rightarrow> byte \<Rightarrow> u32 option" where
  "FFIsomGetHvccSize alloc pad al data ps_array_completeness =
     (if length data < 6 then Some 0
      else if data ! 0 = 1 then Some (of_nat (length data))
      else if \<not> (rb24 data = 1 \<or> rb32 data = 1) then Some 0
      else (case ff_avc_parse_nal_units_buf (alloc 0) al data of
              None \<Rightarrow> None
            | Some None \<Rightarrow> Some 0
            | Some (Some buf) \<Rightarrow>
                (case hvcc_units alloc pad 0 ps_array_completeness buf hvcc_init of
                   None \<Rightarrow> None
                 | Some (ret, h) \<Rightarrow> if ret < 0 then Some 0 else Some (get_hvcc_write_size h))))"

section \<open>What the parser leaves alone\<close>

definition same_arrays :: "hvcc \<Rightarrow> hvcc \<Rightarrow> bool" where
  "same_arrays h h1 \<longleftrightarrow> nal_arrays h1 = nal_arrays h \<and> numOfArrays h1 = numOfArrays h"

lemma same_arrays_refl [simp]: "same_arrays h h"
  by (simp add: same_arrays_def)

lemma same_arrays_trans: "same_arrays h h1 \<Longrightarrow> same_arrays h1 h2 \<Longrightarrow> same_arrays h h2"
  by (simp add: same_arrays_def)

text \<open>Every result of a reader has a property.\<close>

lemma results_return: "P x \<Longrightarrow> pred_state P (State_Monad.return x)"
  by auto

lemma results_bind: "(\<And>x. pred_state P (f x)) \<Longrightarrow> pred_state P (State_Monad.bind m f)"
  by (rule State_Monad.bind_predI, rule pred_stateI) blast

lemma results_bind_with:
  "pred_state Q m \<Longrightarrow> (\<And>x. Q x \<Longrightarrow> pred_state P (f x)) \<Longrightarrow> pred_state P (State_Monad.bind m f)"
  by (rule State_Monad.bind_predI, rule pred_stateI) (blast dest: pred_stateD)

lemma results_if: "(b \<Longrightarrow> pred_state P m) \<Longrightarrow> (\<not> b \<Longrightarrow> pred_state P n) \<Longrightarrow> pred_state P (if b then m else n)"
  by simp

lemma results_prod: "(\<And>x y. p = (x, y) \<Longrightarrow> pred_state P (f x y)) \<Longrightarrow> pred_state P (case p of (x, y) \<Rightarrow> f x y)"
  by (cases p) simp

lemma ptl_arrays: "pred_state (same_arrays h) (hvcc_parse_ptl h n)"
  unfolding hvcc_parse_ptl_def Let_def
  by (intro results_bind results_return) (simp add: hvcc_update_ptl_def same_arrays_def)

lemma vui_arrays: "pred_state (same_arrays h) (hvcc_parse_vui h n)"
  unfolding hvcc_parse_vui_def Let_def
  by (intro results_bind results_if results_return) (simp_all add: same_arrays_def)

lemma sps_middle_arrays: "pred_state (\<lambda>r. same_arrays h (snd r)) (sps_middle h n)"
  unfolding sps_middle_def by (intro results_bind results_return) (simp add: same_arrays_def)

lemma vps_arrays: "pred_state (\<lambda>r. same_arrays h (snd r)) (hvcc_parse_vps h)"
  unfolding hvcc_parse_vps_def
  by (rule results_bind, rule results_bind, rule results_bind, rule results_bind_with [OF ptl_arrays],
      rule results_return) (simp add: same_arrays_def raise_layers_def)

lemma pps_arrays: "pred_state (\<lambda>r. same_arrays h (snd r)) (hvcc_parse_pps h)"
  unfolding hvcc_parse_pps_def by (intro results_bind results_return) (simp add: same_arrays_def)

lemma sps_arrays: "pred_state (\<lambda>r. same_arrays h (snd r)) (hvcc_parse_sps h)"
proof -
  have vui: "pred_state (\<lambda>r. same_arrays h (snd r)) (State_Monad.bind
      (if v \<noteq> 0 then hvcc_parse_vui h5 n else State_Monad.return h5) (\<lambda>h6. State_Monad.return (0 :: int, h6)))"
    if "same_arrays h h5" for h5 n and v :: u32
    using that
    by (intro results_bind_with [where Q = "same_arrays h5"] results_if vui_arrays results_return)
      (auto simp: same_arrays_def)
  have rest: "pred_state (\<lambda>r. same_arrays h (snd r)) (State_Monad.bind get_ue_golomb_long (\<lambda>num_rps.
     if num_rps > 64 then State_Monad.return (AVERROR_INVALIDDATA, h5)
     else do {
       ret \<leftarrow> rps_loop (unat num_rps) (unat num_rps) [];
       if ret < 0 then State_Monad.return (ret, h5)
       else do {
         ret \<leftarrow> skip_long_term l;
         if ret < 0 then State_Monad.return (ret, h5)
         else do {
           skip_bits1;
           skip_bits1;
           vui \<leftarrow> get_bits1;
           h6 \<leftarrow> (if vui \<noteq> 0 then hvcc_parse_vui h5 n else State_Monad.return h5);
           State_Monad.return (0, h6)
         }
       }
     }))" if h5: "same_arrays h h5" for h5 l n
    by (rule results_bind, rule results_if, rule results_return, (simp add: h5),
        rule results_bind, rule results_if, rule results_return, (simp add: h5),
        rule results_bind, rule results_if, rule results_return, (simp add: h5),
        rule results_bind, rule results_bind, rule results_bind, rule vui [OF h5])
  have mid: "pred_state (\<lambda>r. same_arrays h3 (snd r)) (sps_middle (h3\<lparr>chromaFormat := c\<rparr>) n)" for h3 c n
    using sps_middle_arrays [of "h3\<lparr>chromaFormat := c\<rparr>" n] by (simp add: same_arrays_def)
  have ptl: "pred_state (same_arrays h) (hvcc_parse_ptl (raise_layers h m\<lparr>temporalIdNested := t\<rparr>) n)" for m t n
  proof -
    have "same_arrays (raise_layers h m\<lparr>temporalIdNested := t\<rparr>) = same_arrays h"
      by (rule ext) (simp add: same_arrays_def raise_layers_def)
    then show ?thesis using ptl_arrays [of "raise_layers h m\<lparr>temporalIdNested := t\<rparr>" n] by simp
  qed
  show ?thesis
    unfolding hvcc_parse_sps_def Let_def
    by (rule results_bind, rule results_bind, rule results_bind, rule results_bind_with [OF ptl],
        rule results_bind, rule results_bind, rule results_bind, rule results_bind_with [OF mid], rule results_prod, rule rest)
      (auto intro: same_arrays_trans)
qed

lemma unit_arrays:
  "pred_state (\<lambda>r. 0 \<le> fst r \<longrightarrow> (\<exists>ret h2. hvcc_array_add_nal_unit mem buf (ucast t) c h = (ret, h2) \<and> 0 \<le> ret \<and>
      same_arrays h2 (snd r)))
    (if ucast t \<in> set hvcc_types
     then let (ret, h1) = hvcc_array_add_nal_unit mem buf (ucast (t :: u32)) c h
       in if ret < 0 then State_Monad.return (ret, h1)
          else if ucast t = VPS_NUT then hvcc_parse_vps h1
          else if ucast t = SPS_NUT then hvcc_parse_sps h1
          else if ucast t = PPS_NUT then hvcc_parse_pps h1
          else State_Monad.return (ret, h1)
     else State_Monad.return (AVERROR_INVALIDDATA, h))"
proof -
  have a: "pred_state (\<lambda>r. 0 \<le> fst r \<longrightarrow> same_arrays h2 (snd r)) m"
    if "pred_state (\<lambda>r. same_arrays h2 (snd r)) m" for h2 and m :: "(int \<times> hvcc) reader"
    by (rule pred_stateI) (blast dest: pred_stateD [OF that])
  show ?thesis
  proof (cases "ucast t \<in> set hvcc_types")
    case True
    then show ?thesis
      by (cases "hvcc_array_add_nal_unit mem buf (ucast t) c h")
        (auto simp: Let_def not_less intro!: results_if results_return a vps_arrays sps_arrays pps_arrays)
  qed (auto simp: AVERROR_INVALIDDATA_def intro!: results_return)
qed

text \<open>The type that the parser reads is the one the caller tests.\<close>

definition nal_type_of :: "byte list \<Rightarrow> byte" where
  "nal_type_of n = and (drop_bit 1 (hd n)) 0x3f"

lemma header_type:
  assumes ok: "gb_ok gb" "gb_index gb = 0" and b: "gb_buffer gb = x # b"
  shows "(ucast (fst (run_state nal_unit_parse_header gb)) :: byte) = and (drop_bit 1 x) 0x3f"
proof -
  have ok1: "gb_ok (gb\<lparr>gb_index := 1\<rparr>)" using ok(1) by (simp add: gb_ok_def)
  have t: "fst (run_state nal_unit_parse_header gb) = of_nat (num_at (x # b) 1 6)"
    using run_get_bits [OF ok1, of 6] ok(2) b
    by (simp add: nal_unit_parse_header_def skip_bits1_def skip_bits_def skip_counter_def size_in_bits_plus8_def
        case_prod_unfold del: num_at.simps)
  have m: "(0x3f :: byte) = mask 6" by (simp add: mask_eq_exp_minus_1)
  show ?thesis
  proof (rule bit_word_eqI)
    fix k assume "k < LENGTH(8)"
    then have k: "k < 8" by simp
    have "buf_bit (x # b) (1 + 6 - 1 - k) \<longleftrightarrow> bit x (k + 1)" if "k < 6"
    proof -
      have "6 - k < 8" "7 - (6 - k) = k + 1" using that by auto
      then show ?thesis by (simp add: buf_bit_def)
    qed
    then show "bit (ucast (fst (run_state nal_unit_parse_header gb)) :: byte) k \<longleftrightarrow> bit (and (drop_bit 1 x) 0x3f) k"
      using k unfolding t m bit_unsigned_iff bit_of_nat_iff bit_num_at bit_and_iff bit_mask_iff bit_drop_bit_eq comp_apply
      by (auto simp: possible_bit_def)
  qed
qed

lemma array_add_mem: "hvcc_array_add_nal_unit mem buf t c h = (ret, h2) \<Longrightarrow> 0 \<le> ret \<Longrightarrow>
    hvcc_array_add_nal_unit True buf t c h = (0, h2)"
  by (auto simp: hvcc_array_add_nal_unit_def Let_def AVERROR_ENOMEM_def split: if_splits)

text \<open>When a unit is accepted its array grows, whatever the memory behind the copy holds.\<close>

lemma add_unit_arrays:
  assumes r: "hvcc_add_nal_unit alloc mem pad n c h = Some (ret, h1)" "0 \<le> ret" and p: "length pad = 32" and n: "n \<noteq> []"
  obtains h2 where "hvcc_array_add_nal_unit True n (nal_type_of n) c h = (0, h2)" "same_arrays h2 h1"
proof -
  let ?b = "nal_unit_extract_rbsp n"
  obtain x n' where n': "n = x # n'" using n by (cases n) auto
  have b: "?b = x # drop 1 ?b" using n' by (simp add: nal_unit_extract_rbsp_def numeral_2_eq_2)
  from r obtain gb where gb: "init_get_bits8 (?b @ pad) (length ?b) = (0, gb)"
    by (auto simp: hvcc_add_nal_unit_def init_get_bits8_def AVERROR_INVALIDDATA_def AVERROR_ENOMEM_def Let_def
        split: if_splits)
  note ok = init_gb_ok [OF gb p]
  have i: "gb_index gb = 0" using gb by (auto simp: init_get_bits8_def split: if_splits)
  obtain t gb1 where h: "run_state nal_unit_parse_header gb = (t, gb1)" by (cases "run_state nal_unit_parse_header gb")
  have t: "ucast t = nal_type_of n"
    using header_type [OF ok(1) i, of x "drop 1 ?b @ pad"] ok(2) b n' h by (simp add: nal_type_of_def)
  have "(ret, h1) = fst (run_state (hvcc_parse_unit mem n c h) gb)"
    using r gb by (auto simp: hvcc_add_nal_unit_def Let_def case_prod_unfold AVERROR_ENOMEM_def split: if_splits)
  then have "\<exists>ret2 h2. hvcc_array_add_nal_unit mem n (ucast t) c h = (ret2, h2) \<and> 0 \<le> ret2 \<and> same_arrays h2 h1"
    using pred_state_run_state [OF unit_arrays [of mem n t c h], of gb1] r(2)
    unfolding hvcc_parse_unit_def State_Monad.run_state_bind h prod.case by (metis fst_conv snd_conv)
  then show thesis using that array_add_mem unfolding t by blast
qed

section \<open>The arrays group the units by type\<close>

text \<open>The types in the order of their first unit, and the array of a type.\<close>

definition type_order :: "byte list list \<Rightarrow> byte list" where
  "type_order us = rev (remdups (rev (map nal_type_of us)))"

lemma type_order_Nil [simp]: "type_order [] = []"
  by (simp add: type_order_def)

lemma type_order_snoc [simp]: "type_order (us @ [u]) =
    (if nal_type_of u \<in> set (type_order us) then type_order us else type_order us @ [nal_type_of u])"
  by (simp add: type_order_def)

lemma distinct_type_order [simp]: "distinct (type_order us)"
  by (simp add: type_order_def)

lemma set_type_order: "set (type_order us) = nal_type_of ` set us"
  by (simp add: type_order_def)

definition of_type :: "byte list list \<Rightarrow> byte \<Rightarrow> byte list list" where
  "of_type us t = filter (\<lambda>u. nal_type_of u = t) us"

definition unit_entry :: "byte list \<Rightarrow> u16 \<times> byte list" where
  "unit_entry u = (of_nat (length u), u)"

definition array_for :: "byte \<Rightarrow> byte list list \<Rightarrow> byte \<Rightarrow> HVCCNALUnitArray" where
  "array_for c us t =
     \<lparr>array_completeness = (if t = VPS_NUT \<or> t = SPS_NUT \<or> t = PPS_NUT then c else 0), NAL_unit_type = t,
      numNalus = of_nat (length (of_type us t)), nalUnits = map unit_entry (of_type us t)\<rparr>"

definition groups :: "byte \<Rightarrow> byte list list \<Rightarrow> HVCCNALUnitArray list" where
  "groups c us = map (array_for c us) (type_order us)"

definition holds_units :: "byte \<Rightarrow> byte list list \<Rightarrow> hvcc \<Rightarrow> bool" where
  "holds_units c us h \<longleftrightarrow> nal_arrays h = groups c us \<and> unat (numOfArrays h) = length (groups c us)"

fun position :: "'a list \<Rightarrow> 'a \<Rightarrow> nat" where
  "position [] x = 0"
| "position (y # ys) x = (if y = x then 0 else Suc (position ys x))"

lemma position_in: "x \<in> set xs \<Longrightarrow> position xs x < length xs \<and> xs ! position xs x = x"
  by (induction xs) auto

lemma position_out: "x \<notin> set xs \<Longrightarrow> position xs x = length xs"
  by (induction xs) auto

lemma map_update_position:
  "distinct xs \<Longrightarrow> x \<in> set xs \<Longrightarrow> (\<And>y. y \<noteq> x \<Longrightarrow> f y = g y) \<Longrightarrow> (map f xs)[position xs x := g x] = map g xs"
proof (induction xs)
  case (Cons y ys)
  show ?case
  proof (cases "y = x")
    case True
    have "f z = g z" if "z \<in> set ys" for z using that Cons.prems True by (cases "z = x") auto
    then show ?thesis using True by simp
  qed (use Cons in auto)
qed simp

lemma array_index_groups: "array_index (map (array_for c us) ts) t = position ts t"
  by (induction ts) (auto simp: array_for_def)

lemma array_for_other: "t \<noteq> nal_type_of u \<Longrightarrow> array_for c (us @ [u]) t = array_for c us t"
  by (simp add: array_for_def of_type_def)

lemma length_type_order: "set (map nal_type_of us) \<subseteq> set hvcc_types \<Longrightarrow> length (type_order us) \<le> 5"
proof -
  assume "set (map nal_type_of us) \<subseteq> set hvcc_types"
  then have "card (set (type_order us)) \<le> card (set hvcc_types)" by (intro card_mono) (simp_all add: set_type_order)
  also have "\<dots> \<le> 5" by (rule order.trans [OF card_length]) (simp add: hvcc_types_def)
  finally show ?thesis by (simp add: distinct_card)
qed

lemma add_to_groups:
  assumes h: "holds_units c us h" and u: "nal_type_of u \<in> set hvcc_types"
    and us: "set (map nal_type_of us) \<subseteq> set hvcc_types" and l: "length us < 65535"
    and r: "hvcc_array_add_nal_unit True u (nal_type_of u) c h = (ret, h1)"
  shows "holds_units c (us @ [u]) h1"
proof -
  let ?t = "nal_type_of u"
  let ?i = "position (type_order us) ?t"
  have i: "array_index (nal_arrays h) ?t = ?i" using h by (simp add: holds_units_def groups_def array_index_groups)
  have num: "unat (numOfArrays h) = length (type_order us)" using h by (simp add: holds_units_def groups_def)
  have cnt: "unat (of_nat (length (of_type us t)) :: u16) = length (of_type us t)" for t
  proof -
    have "length (of_type us t) < 65536" unfolding of_type_def
      using length_filter_le [of "\<lambda>u. nal_type_of u = t" us] l by linarith
    then show ?thesis by (simp only: unat_of_nat) simp
  qed
  show ?thesis
  proof (cases "?t \<in> set (type_order us)")
    case True
    note p = position_in [OF True]
    have a: "array_for c (us @ [u]) ?t = (array_for c us ?t)\<lparr>
        nalUnits := take (unat (numNalus (array_for c us ?t))) (nalUnits (array_for c us ?t)) @ [unit_entry u],
        NAL_unit_type := ?t, numNalus := numNalus (array_for c us ?t) + 1,
        array_completeness := (if ?t = VPS_NUT \<or> ?t = SPS_NUT \<or> ?t = PPS_NUT then c
          else array_completeness (array_for c us ?t))\<rparr>"
      using cnt by (simp add: array_for_def of_type_def)
    have "nal_arrays h1 = (map (array_for c us) (type_order us))[?i := array_for c (us @ [u]) ?t]"
      using r i num p h unfolding a by (auto simp: hvcc_array_add_nal_unit_def Let_def holds_units_def groups_def unit_entry_def)
    also have "\<dots> = groups c (us @ [u])"
      unfolding groups_def using True by (subst map_update_position) (simp_all add: array_for_other)
    finally show ?thesis
      using r i num p True by (auto simp: holds_units_def hvcc_array_add_nal_unit_def Let_def groups_def)
  next
    case False
    note p = position_out [OF False]
    have "of_type us ?t = []" unfolding of_type_def filter_empty_conv
      using False set_type_order by (metis imageI)
    then have a: "array_for c (us @ [u]) ?t = \<lparr>array_completeness = (if ?t = VPS_NUT \<or> ?t = SPS_NUT \<or> ?t = PPS_NUT then c else 0),
        NAL_unit_type = ?t, numNalus = 1, nalUnits = [unit_entry u]\<rparr>"
      by (simp add: array_for_def of_type_def)
    have o: "map (array_for c (us @ [u])) (type_order us) = map (array_for c us) (type_order us)"
      using False by (intro map_cong refl array_for_other) auto
    have "nal_arrays h1 = map (array_for c us) (type_order us) @ [array_for c (us @ [u]) ?t]"
      using r i num p h unfolding a
      by (auto simp: hvcc_array_add_nal_unit_def Let_def holds_units_def groups_def unit_entry_def nth_append list_update_append)
    moreover have "unat (numOfArrays h1) = Suc (length (type_order us))"
    proof -
      have "unat (of_nat (length (type_order us)) + 1 :: byte) = Suc (length (type_order us))"
        using length_type_order [OF us] by (simp add: unat_word_ariths(1) unat_of_nat)
      then show ?thesis using r i num p by (auto simp: hvcc_array_add_nal_unit_def Let_def)
    qed
    ultimately show ?thesis using False o by (simp add: holds_units_def groups_def)
  qed
qed

section \<open>What the two passes collect\<close>

definition ps_units :: "byte list list \<Rightarrow> byte list list" where
  "ps_units ns = filter (\<lambda>n. nal_type_of n \<in> set hvcc_types) ns"

lemma hvcc_units_groups:
  "\<forall>n \<in> set ns. n \<noteq> [] \<and> length n < 2 ^ 32 \<Longrightarrow> \<forall>k. length (pad k) = 32 \<Longrightarrow>
    holds_units c us h \<Longrightarrow> set (map nal_type_of us) \<subseteq> set hvcc_types \<Longrightarrow> length us + length ns < 65536 \<Longrightarrow>
    hvcc_units alloc pad k c (with_lengths ns) h = Some (ret, h1) \<Longrightarrow> 0 \<le> ret \<Longrightarrow>
    holds_units c (us @ ps_units ns) h1"
proof (induction ns arbitrary: k us h)
  case Nil
  then show ?case by (simp add: hvcc_units.simps ps_units_def)
next
  case (Cons n ns)
  have n: "n \<noteq> []" "length n < 2 ^ 32" and ns: "\<forall>n \<in> set ns. n \<noteq> [] \<and> length n < 2 ^ 32" using Cons.prems by auto
  have t: "and (drop_bit 1 (with_lengths (n # ns) ! 4)) 0x3f = nal_type_of n"
    using n by (simp add: nth_append hd_conv_nth nal_type_of_def)
  have step: "hvcc_units alloc pad k c (with_lengths (n # ns)) h =
     (if nal_type_of n \<in> set hvcc_types
      then (case hvcc_add_nal_unit (alloc (2 * k + 1)) (alloc (2 * k + 2)) (pad k) n c h of
              None \<Rightarrow> None
            | Some (ret, h1) \<Rightarrow>
                if ret < 0 then Some (ret, h1) else hvcc_units alloc pad (Suc k) c (with_lengths ns) h1)
      else hvcc_units alloc pad (Suc k) c (with_lengths ns) h)"
  proof -
    let ?w = "with_lengths (n # ns)"
    have w: "4 < length ?w \<longleftrightarrow> True" "min (unat (rb32 ?w)) (length ?w - 4) = length n"
      "take (length n) (drop 4 ?w) = n" "drop (length n) (drop 4 ?w) = with_lengths ns"
      using n by (simp_all add: rb32_def unat_len_u32)
    show ?thesis by (subst hvcc_units.simps) (simp only: Let_def w t if_True)
  qed
  show ?case
  proof (cases "nal_type_of n \<in> set hvcc_types")
    case True
    obtain ret1 h2 where a: "hvcc_add_nal_unit (alloc (2 * k + 1)) (alloc (2 * k + 2)) (pad k) n c h = Some (ret1, h2)"
      "0 \<le> ret1" "hvcc_units alloc pad (Suc k) c (with_lengths ns) h2 = Some (ret, h1)"
      using Cons.prems(6,7) True unfolding step by (auto split: option.splits prod.splits if_splits)
    have "length (pad k) = 32" using Cons.prems(2) by simp
    from add_unit_arrays [OF a(1,2) this n(1)] obtain h3
      where h3: "hvcc_array_add_nal_unit True n (nal_type_of n) c h = (0, h3)" "same_arrays h3 h2" .
    have "length us < 65535" using Cons.prems(5) by simp
    from add_to_groups [OF Cons.prems(3) True Cons.prems(4) this h3(1)] h3(2)
    have "holds_units c (us @ [n]) h2" by (simp add: holds_units_def same_arrays_def)
    from Cons.IH [OF ns Cons.prems(2) this _ _ a(3) Cons.prems(7)] show ?thesis
      using Cons.prems(4,5) True by (simp add: ps_units_def)
  next
    case False
    then have "hvcc_units alloc pad (Suc k) c (with_lengths ns) h = Some (ret, h1)"
      using Cons.prems(6) unfolding step by simp
    from Cons.IH [OF ns Cons.prems(2,3,4) _ this Cons.prems(7)] show ?thesis
      using Cons.prems(5) False by (simp add: ps_units_def)
  qed
qed

section \<open>The size of the record\<close>

lemma of_nat_sum: "of_nat (sum_list xs) = (sum_list (map of_nat xs) :: u32)"
  by (induction xs) simp_all

lemma blen_concat: "blen (concat css) = sum_list (map blen css)"
  by (induction css) simp_all

text \<open>No entry claims more than its unit has.\<close>

definition entries_ok :: "hvcc \<Rightarrow> bool" where
  "entries_ok h \<longleftrightarrow> (\<forall>a \<in> set (nal_arrays h). \<forall>(l, n) \<in> set (nalUnits a). unat l \<le> length n)"

lemma array_blen:
  assumes "\<forall>(l, n) \<in> set (nalUnits a). unat l \<le> length n"
  shows "of_nat (blen (write_array a)) = array_size a"
proof -
  have n: "of_nat (blen (write_nal u)) = nal_size u" if "u \<in> set (hvcc_units_of a)" for u
  proof -
    have "unat (fst u) \<le> length (snd u)"
      using assms that by (auto simp: hvcc_units_of_def dest!: in_set_takeD)
    moreover have "(of_nat (unat (fst u)) :: u32) = ucast (fst u)" by simp
    ultimately show ?thesis by (simp add: write_nal_def nal_size_def min_absorb2)
  qed
  have "(\<Sum>u\<leftarrow>hvcc_units_of a. of_nat (blen (write_nal u))) = sum_list (map nal_size (hvcc_units_of a))"
    by (rule arg_cong [of _ _ sum_list]) (simp add: n)
  then show ?thesis by (simp add: write_array_def array_size_def blen_concat of_nat_sum comp_def)
qed

lemma write_size:
  assumes h: "entries_ok h" and w: "hvcc_write h = (0, cs)"
  shows "of_nat (blen cs) = get_hvcc_write_size h"
proof -
  have f: "nal_arrays (hvcc_fix h) = nal_arrays h" by (simp add: hvcc_fix_def Let_def)
  have n: "of_nat (blen (write_array a)) = array_size a" if "a \<in> set (hvcc_arrays (hvcc_fix h))" for a
    using h that array_blen [of a] by (auto simp: entries_ok_def hvcc_arrays_def f dest!: in_set_takeD)
  have "(\<Sum>a\<leftarrow>hvcc_arrays (hvcc_fix h). of_nat (blen (write_array a))) = sum_list (map array_size (hvcc_arrays (hvcc_fix h)))"
    by (rule arg_cong [of _ _ sum_list]) (simp add: n)
  then show ?thesis
    using w by (auto simp: hvcc_write_def get_hvcc_write_size_def Let_def blen_concat of_nat_sum comp_def
        AVERROR_INVALIDDATA_def split: if_splits)
qed

lemma holds_entries: "holds_units c us h \<Longrightarrow> entries_ok h"
proof -
  have "unat (of_nat m :: u16) \<le> m" for m by (simp only: unat_of_nat) simp
  then show "holds_units c us h \<Longrightarrow> entries_ok h"
    by (auto simp: holds_units_def entries_ok_def groups_def array_for_def unit_entry_def)
qed

section \<open>A reader of the record\<close>

text \<open>The reader of ISO 14496-15: behind 22 bytes the number of arrays, then the arrays.\<close>

definition rd16 :: "byte list \<Rightarrow> nat" where
  "rd16 b = 256 * unat (b ! 0) + unat (b ! 1)"

fun read_nalus :: "nat \<Rightarrow> byte list \<Rightarrow> byte list list \<times> byte list" where
  "read_nalus 0 b = ([], b)"
| "read_nalus (Suc k) b =
     (let l = rd16 b; (ns, rest) = read_nalus k (drop (2 + l) b)
      in (take l (drop 2 b) # ns, rest))"

fun read_arrays :: "nat \<Rightarrow> byte list \<Rightarrow> (bool \<times> byte \<times> byte list list) list" where
  "read_arrays 0 b = []"
| "read_arrays (Suc k) b =
     (let (ns, rest) = read_nalus (rd16 (drop 1 b)) (drop 3 b)
      in (bit (b ! 0) 7, and (b ! 0) 0x3f, ns) # read_arrays k rest)"

definition read_hvcc :: "byte list \<Rightarrow> (bool \<times> byte \<times> byte list list) list" where
  "read_hvcc b = read_arrays (unat (b ! 22)) (drop 23 b)"

lemma rd16_put:
  assumes "n < 65536"
  shows "rd16 (concat (put_be16_cache (of_nat n)) @ xs) = n"
    "concat (put_be16_cache (of_nat n)) @ xs = of_nat (n div 256) # of_nat n # xs"
proof -
  have o: "be16_ok n" using assms by (intro be16_ok) simp
  then show e: "concat (put_be16_cache (of_nat n)) @ xs = of_nat (n div 256) # of_nat n # xs"
    by (simp add: calls_simps be16_ok_def)
  have "unat (of_nat (n div 256) :: byte) = n div 256" "unat (of_nat n :: byte) = n mod 256"
    using assms by (simp_all only: unat_of_nat) simp_all
  then show "rd16 (concat (put_be16_cache (of_nat n)) @ xs) = n" unfolding e by (simp add: rd16_def)
qed

lemma ucast_u16: "n < 65536 \<Longrightarrow> (ucast (of_nat n :: u16) :: u32) = of_nat n"
  by (simp add: word_unat_eq_iff unsigned_ucast_eq unsigned_of_nat take_bit_nat_eq_self)

lemma unat_u16: "n < 65536 \<Longrightarrow> unat (of_nat n :: u16) = n"
  by (simp only: unat_of_nat) simp

lemma read_nalus_written:
  "\<forall>n \<in> set ns. length n < 65536 \<Longrightarrow>
    read_nalus (length ns) (concat (concat (map write_nal (map unit_entry ns))) @ xs) = (ns, xs)"
proof (induction ns)
  case (Cons n ns)
  then have n: "length n < 65536" by simp
  have w: "concat (write_nal (unit_entry n)) = concat (put_be16_cache (of_nat (length n))) @ n"
    using n by (simp add: write_nal_def unit_entry_def ucast_u16 unat_u16 bytes_put_buffer)
  show ?case
    using Cons rd16_put [OF n] by (simp add: w Let_def)
qed simp

lemma array_head:
  assumes "t \<in> set hvcc_types"
  shows "bit (ucast (or (push_bit 7 (ucast c)) (and (ucast t) 0x3f) :: u32) :: byte) 7 \<longleftrightarrow> bit (c :: byte) 0"
    "and (ucast (or (push_bit 7 (ucast c)) (and (ucast t) 0x3f) :: u32)) 0x3f = (t :: byte)"
proof -
  have m: "(0x3f :: u32) = mask 6" "(0x3f :: byte) = mask 6" by (simp_all add: mask_eq_exp_minus_1)
  show "bit (ucast (or (push_bit 7 (ucast c)) (and (ucast t) 0x3f) :: u32) :: byte) 7 \<longleftrightarrow> bit c 0"
    unfolding m bit_unsigned_iff bit_or_iff bit_push_bit_iff bit_and_iff bit_mask_iff
    by (simp add: possible_bit_def)
  have t: "and t (mask 6) = t"
    using assms by (auto simp: hvcc_types_def VPS_NUT_def SPS_NUT_def PPS_NUT_def SEI_PREFIX_NUT_def SEI_SUFFIX_NUT_def
        mask_eq_exp_minus_1)
  have "and (ucast (or (push_bit 7 (ucast c)) (and (ucast t) 0x3f) :: u32)) (mask 6) = and t (mask 6)"
    by (rule bit_word_eqI, unfold m bit_unsigned_iff bit_or_iff bit_push_bit_iff bit_and_iff bit_mask_iff)
      (auto simp: possible_bit_def)
  then show "and (ucast (or (push_bit 7 (ucast c)) (and (ucast t) 0x3f) :: u32)) 0x3f = t"
    using t by (simp add: m)
qed

text \<open>What the reader makes of the array of a type: whether it is marked complete, and its units.\<close>

definition array_read :: "byte \<Rightarrow> byte list list \<Rightarrow> byte \<Rightarrow> bool \<times> byte \<times> byte list list" where
  "array_read c us t = ((t = VPS_NUT \<or> t = SPS_NUT \<or> t = PPS_NUT) \<and> bit c 0, t, of_type us t)"

lemma read_arrays_written:
  assumes us: "\<forall>u \<in> set us. length u < 65536" "length us < 65536"
  shows "set ts \<subseteq> set hvcc_types \<Longrightarrow>
    read_arrays (length ts) (concat (concat (map write_array (map (array_for c us) ts)))) = map (array_read c us) ts"
proof (induction ts)
  case (Cons t ts)
  have l: "length (of_type us t) < 65536"
    unfolding of_type_def using length_filter_le [of "\<lambda>u. nal_type_of u = t" us] us(2) by linarith
  have u: "\<forall>u \<in> set (of_type us t). length u < 65536" using us(1) by (simp add: of_type_def)
  define c1 where "c1 = (if t = VPS_NUT \<or> t = SPS_NUT \<or> t = PPS_NUT then c else 0)"
  define x where "x = (ucast (or (push_bit 7 (ucast c1)) (and (ucast t) 0x3f) :: u32) :: byte)"
  have x: "bit x 7 \<longleftrightarrow> (t = VPS_NUT \<or> t = SPS_NUT \<or> t = PPS_NUT) \<and> bit c 0" "and x 0x3f = t"
    using array_head [of t c1] Cons.prems by (auto simp: x_def c1_def)
  have w: "concat (write_array (array_for c us t)) = x # concat (put_be16_cache (of_nat (length (of_type us t)))) @
      concat (concat (map write_nal (map unit_entry (of_type us t))))"
    by (simp add: write_array_def array_for_def hvcc_units_of_def bytes_put_byte x_def c1_def ucast_u16 [OF l] unat_u16 [OF l])
  have "read_arrays (Suc k) (concat (write_array (array_for c us t)) @ rest) = array_read c us t # read_arrays k rest" for k rest
    unfolding w using rd16_put [OF l] read_nalus_written [OF u, of rest] x
    by (simp add: array_read_def Let_def)
  then show ?case using Cons by simp
qed simp

section \<open>Properties\<close>

text \<open>
  A byte stream the record can hold: units without start codes, their lengths in 16 bits, and not so
  many that a count would wrap.
\<close>

definition hvcc_stream :: "(nat \<times> byte list) list \<Rightarrow> bool" where
  "hvcc_stream items \<longleftrightarrow>
     good_items items \<and> items \<noteq> [] \<and> 6 \<le> length (annexb items) \<and> length items < 65536 \<and>
     (\<forall>(z, n) \<in> set items. length n < 65536) \<and>
     length (with_lengths (map snd items)) \<le> length (annexb items) + 1024"

lemma units_of_stream:
  assumes s: "hvcc_stream items" and p: "\<forall>k. length (pad k) = 32" and a: "alloc 0"
    and u: "hvcc_units alloc pad 0 c (with_lengths (map snd items)) hvcc_init = Some (ret, h)" "0 \<le> ret"
  shows "holds_units c (ps_units (map snd items)) h"
proof -
  have ns: "\<forall>n \<in> set (map snd items). n \<noteq> [] \<and> length n < 2 ^ 32"
    using s by (fastforce simp: hvcc_stream_def good_items_def good_nal_def)
  have "holds_units c [] hvcc_init" by (simp add: holds_units_def groups_def hvcc_init_def)
  from hvcc_units_groups [OF ns p this _ _ u] show ?thesis using s by (simp add: hvcc_stream_def)
qed

lemma stream_head: "hvcc_stream items \<Longrightarrow> annexb items ! 0 = 0"
  by (cases items) (auto simp: hvcc_stream_def good_items_def nth_append)

lemma passes:
  assumes s: "hvcc_stream items" and a: "alloc 0"
  shows "ff_isom_write_hvcc alloc pad al (annexb items) c =
      (case hvcc_units alloc pad 0 c (with_lengths (map snd items)) hvcc_init of
         None \<Rightarrow> None | Some (ret, h) \<Rightarrow> if ret < 0 then Some (ret, []) else Some (hvcc_write h))"
    "FFIsomGetHvccSize alloc pad al (annexb items) c =
      (case hvcc_units alloc pad 0 c (with_lengths (map snd items)) hvcc_init of
         None \<Rightarrow> None | Some (ret, h) \<Rightarrow> if ret < 0 then Some 0 else Some (get_hvcc_write_size h))"
proof -
  have g: "items \<noteq> []" "good_items items" "\<not> length (annexb items) < 6" using s by (auto simp: hvcc_stream_def)
  have h: "annexb items ! 0 \<noteq> 1" using stream_head [OF s] by simp
  have b: "ff_avc_parse_nal_units_buf (alloc 0) al (annexb items) = Some (Some (with_lengths (map snd items)))"
    using s a by (simp add: parse_buf_annexb hvcc_stream_def)
  show "ff_isom_write_hvcc alloc pad al (annexb items) c =
      (case hvcc_units alloc pad 0 c (with_lengths (map snd items)) hvcc_init of
         None \<Rightarrow> None | Some (ret, h) \<Rightarrow> if ret < 0 then Some (ret, []) else Some (hvcc_write h))"
    "FFIsomGetHvccSize alloc pad al (annexb items) c =
      (case hvcc_units alloc pad 0 c (with_lengths (map snd items)) hvcc_init of
         None \<Rightarrow> None | Some (ret, h) \<Rightarrow> if ret < 0 then Some 0 else Some (get_hvcc_write_size h))"
    using g h rb32_annexb(2) [OF g(1,2)] by (auto simp: ff_isom_write_hvcc_def FFIsomGetHvccSize_def b)
qed

lemma no_alloc: "hvcc_stream items \<Longrightarrow> \<not> alloc 0 \<Longrightarrow> ff_isom_write_hvcc alloc pad al (annexb items) c \<noteq> Some (0, cs)"
  using stream_head [of items]
  by (auto simp: ff_isom_write_hvcc_def ff_avc_parse_nal_units_buf_def AVERROR_INVALIDDATA_def)

lemma record_written:
  assumes s: "hvcc_stream items" and p: "\<forall>k. length (pad k) = 32"
    and w: "ff_isom_write_hvcc alloc pad al (annexb items) c = Some (0, cs)"
  obtains h where "holds_units c (ps_units (map snd items)) h" "hvcc_write h = (0, cs)"
    "FFIsomGetHvccSize alloc pad al (annexb items) c = Some (get_hvcc_write_size h)"
proof -
  have a: "alloc 0" using no_alloc [OF s] w by blast
  obtain ret h where u: "hvcc_units alloc pad 0 c (with_lengths (map snd items)) hvcc_init = Some (ret, h)"
    "0 \<le> ret" "hvcc_write h = (0, cs)"
    using w unfolding passes(1) [OF s, of alloc, OF a] by (auto split: option.splits prod.splits if_splits)
  show thesis
    using that [OF units_of_stream [where alloc = alloc, OF s p a u(1,2)] u(3)] u(1,2) unfolding passes(2) [OF s, of alloc, OF a] by simp
qed

text \<open>
  C19: the record that \<open>ff_isom_write_hvcc\<close> writes for a byte stream holds exactly the parameter
  sets and SEI units of the stream: a reader of ISO 14496-15 finds one array for each type that
  occurs, in the order of their first unit, and in it the units of that type in the order of the
  stream; the arrays of the parameter sets have the completeness the caller gave.
\<close>

theorem hvcc_record_is_read:
  assumes "hvcc_stream items" "\<forall>k. length (pad k) = 32"
    and "ff_isom_write_hvcc alloc pad al (annexb items) c = Some (0, cs)"
  shows "read_hvcc (bytes_of cs) =
    map (array_read c (ps_units (map snd items))) (type_order (ps_units (map snd items)))"
proof -
  let ?us = "ps_units (map snd items)"
  obtain h where h: "holds_units c ?us h" "hvcc_write h = (0, cs)" using record_written [OF assms] .
  have us: "\<forall>u \<in> set ?us. length u < 65536" "length ?us < 65536" "set (type_order ?us) \<subseteq> set hvcc_types"
    using assms(1) le_less_trans [OF length_filter_le [of _ "map snd items"]]
    by (auto simp: hvcc_stream_def ps_units_def set_type_order)
  have f: "hvcc_arrays (hvcc_fix h) = map (array_for c ?us) (type_order ?us)"
    "unat (numOfArrays (hvcc_fix h)) = length (type_order ?us)"
    using h(1) by (simp_all add: hvcc_fix_def Let_def hvcc_arrays_def holds_units_def groups_def)
  obtain x where x: "bytes_of cs = x @ numOfArrays (hvcc_fix h) # concat (concat (map write_array (hvcc_arrays (hvcc_fix h))))"
    "length x = 22"
    using h(2) by (fastforce simp: hvcc_write_def Let_def AVERROR_INVALIDDATA_def calls_simps be32_def split: if_splits)
  show ?thesis
    unfolding read_hvcc_def x(1) using x(2) read_arrays_written [OF us] by (simp add: nth_append f)
qed

lemma same_size: "holds_units c us h \<Longrightarrow> holds_units c us h1 \<Longrightarrow> get_hvcc_write_size h1 = get_hvcc_write_size h"
proof -
  assume h: "holds_units c us h" "holds_units c us h1"
  then have "hvcc_arrays (hvcc_fix h1) = hvcc_arrays (hvcc_fix h)"
    by (simp add: hvcc_fix_def Let_def hvcc_arrays_def holds_units_def)
  then show ?thesis by (simp add: get_hvcc_write_size_def counts_ok_def ps_count_def Let_def)
qed

text \<open>
  C22: \<open>FFIsomGetHvccSize\<close>, from which the sizes of the boxes around the record are computed, gives
  the number of bytes that \<open>ff_isom_write_hvcc\<close> writes. With other memory behind the copies of the
  units, or when memory runs out, it gives that number or 0.
\<close>

theorem hvcc_size_is_right:
  assumes "hvcc_stream items" "\<forall>k. length (pad k) = 32"
    and "ff_isom_write_hvcc alloc pad al (annexb items) c = Some (0, cs)"
  shows "FFIsomGetHvccSize alloc pad al (annexb items) c = Some (of_nat (blen cs)) \<and>
    (\<forall>alloc1 pad1 n. (\<forall>k. length (pad1 k) = 32) \<longrightarrow>
       FFIsomGetHvccSize alloc1 pad1 al (annexb items) c = Some n \<longrightarrow> n = of_nat (blen cs) \<or> n = 0)"
proof -
  obtain h where h: "holds_units c (ps_units (map snd items)) h" "hvcc_write h = (0, cs)"
    "FFIsomGetHvccSize alloc pad al (annexb items) c = Some (get_hvcc_write_size h)"
    using record_written [OF assms] .
  note size = write_size [OF holds_entries [OF h(1)] h(2)]
  have "n = of_nat (blen cs) \<or> n = 0" if p: "\<forall>k. length (pad1 k) = 32"
    and n: "FFIsomGetHvccSize alloc1 pad1 al (annexb items) c = Some n" for alloc1 pad1 n
  proof (cases "alloc1 0")
    case True
    show ?thesis
    proof (cases "hvcc_units alloc1 pad1 0 c (with_lengths (map snd items)) hvcc_init")
      case None
      then show ?thesis using n unfolding passes(2) [OF assms(1), of alloc1, OF True] by simp
    next
      case (Some r)
      obtain ret h1 where r: "r = (ret, h1)" by (cases r)
      have "n = 0 \<or> 0 \<le> ret \<and> n = get_hvcc_write_size h1"
        using n Some r unfolding passes(2) [OF assms(1), of alloc1, OF True] by (auto split: if_splits)
      then show ?thesis
        using units_of_stream [OF assms(1) p True Some [unfolded r]] same_size [OF h(1)] size by auto
    qed
  next
    case False
    then show ?thesis
      using n stream_head [OF assms(1)]
      by (auto simp: FFIsomGetHvccSize_def ff_avc_parse_nal_units_buf_def split: if_splits)
  qed
  then show ?thesis using h(3) size by simp
qed

subsection \<open>A stream whose parameter sets end early\<close>

text \<open>
  Three sets of two bytes, with ones behind the copies: what the parser reads there are ones, so that
  every code stands for 0.
\<close>

definition short_params :: "(nat \<times> byte list) list" where
  "short_params = [(3, [0x40, 1]), (3, [0x42, 1]), (2, [0x44, 1])]"

definition ones_pad :: "byte list" where
  "ones_pad = replicate 32 0xff"

definition gb_ones :: "byte list \<Rightarrow> GetBitContext \<Rightarrow> bool" where
  "gb_ones b gb \<longleftrightarrow> gb_live (b @ ones_pad) 16 gb \<and> 16 \<le> gb_index gb"

lemma gb_ones_reader: "length b = 2 \<Longrightarrow> kept_reader (gb_ones b)"
  by unfold_locales
    (auto simp: kept.keeps_def gb_ones_def gb_live_def gb_ok_def gb_data_def ones_pad_def primitive_defs)

lemma bit_0xff: "bit (0xff :: byte) i \<longleftrightarrow> i < 8"
proof -
  have "(0xff :: byte) = mask 8" by (simp add: mask_eq_exp_minus_1)
  then show ?thesis by (simp only: bit_mask_iff possible_bit_def) auto
qed

lemma ue_of_ones:
  assumes b: "length b = 2" and gb: "gb_ones b gb"
  shows "fst (run_state get_ue_golomb_long gb) = 0"
proof -
  have g: "gb_ok gb" "gb_buffer gb = b @ ones_pad" "size_in_bits gb = 16" "16 \<le> gb_index gb" "gb_index gb \<le> 24"
    using gb by (auto simp: gb_ones_def gb_live_def gb_ok_def gb_data_def)
  have "buf_bit (b @ ones_pad) (gb_index gb)"
  proof -
    have "2 \<le> gb_index gb div 8" "gb_index gb div 8 - 2 < 32" using g(4,5) by auto
    then have nth: "(b @ ones_pad) ! (gb_index gb div 8) = 0xff" using b by (simp add: nth_append ones_pad_def)
    show ?thesis unfolding buf_bit_def nth bit_0xff by simp
  qed
  then have n: "num_at (gb_buffer gb) (gb_index gb) 1 = 1" using g(2) by simp
  then have at: "golomb_at (gb_buffer gb) (gb_index gb) 0" by (simp add: golomb_at_def floor_log2.simps)
  obtain w where w: "run_state (show_bits_long 32) gb = (w, gb)" "31 - av_log2 w = 0"
    using show_32_golomb [OF g(1) at, of 0] by (cases "run_state (show_bits_long 32) gb") (simp add: floor_log2.simps)
  have "run_state (skip_bits_long 0) gb = ((), gb)" by (simp add: skip_bits_long_def)
  then show ?thesis
    using run_get_bits [OF g(1), of 1] n
    unfolding get_ue_golomb_long_def Let_def State_Monad.run_state_bind w prod.case
    by (simp add: get_bits_long_def del: num_at.simps)
qed

text \<open>Such a reader returns 0 and stays among the ones.\<close>

definition returns_0 :: "byte list \<Rightarrow> (int \<times> hvcc) reader \<Rightarrow> bool" where
  "returns_0 b m \<longleftrightarrow> (\<forall>gb. gb_ones b gb \<longrightarrow>
     fst (fst (run_state m gb)) = 0 \<and> gb_ones b (snd (run_state m gb)))"

lemma returns_0_bind: "kept.keeps (gb_ones b) m \<Longrightarrow> (\<And>x. returns_0 b (f x)) \<Longrightarrow> returns_0 b (State_Monad.bind m f)"
  by (auto simp: returns_0_def kept.keeps_def case_prod_unfold)

lemma returns_0_code: "length b = 2 \<Longrightarrow> returns_0 b (f 0) \<Longrightarrow> returns_0 b (State_Monad.bind get_ue_golomb_long f)"
  using ue_of_ones kept_reader.keeps_ue [OF gb_ones_reader]
  by (auto simp: returns_0_def kept.keeps_def case_prod_unfold)

lemma returns_0_return: "returns_0 b (State_Monad.return (0, h))"
  by (simp add: returns_0_def)

lemma returns_0_long_term:
  assumes b: "length b = 2" and f: "returns_0 b (f 0)"
  shows "returns_0 b (State_Monad.bind (skip_long_term l) f)"
proof -
  note rules = kept_reader.reader_rules [OF gb_ones_reader [OF b]]
  have "fst (run_state (skip_long_term l) gb) = 0" if "gb_ones b gb" for gb
  proof -
    have "gb_ones b (snd (run_state get_bits1 gb))"
      using kept.keepsD [OF kept_reader.keeps_get_bits1 [OF gb_ones_reader [OF b]] that] .
    from ue_of_ones [OF b this] show ?thesis by (simp add: skip_long_term_def case_prod_unfold)
  qed
  then show ?thesis
    using f kept_reader.keeps_long_term [OF gb_ones_reader [OF b], of l]
    by (auto simp: returns_0_def kept.keeps_def case_prod_unfold)
qed

lemma sps_returns_0:
  assumes b: "length b = 2"
  shows "returns_0 b (hvcc_parse_sps h)"
proof -
  note reader = gb_ones_reader [OF b]
  note rules = kept_reader.reader_rules [OF reader] kept_reader.keeps_ptl [OF reader]
    kept_reader.keeps_sps_middle [OF reader] kept_reader.keeps_vui [OF reader]
  have rest: "returns_0 b (State_Monad.bind get_ue_golomb_long (\<lambda>num_rps.
     if num_rps > 64 then State_Monad.return (AVERROR_INVALIDDATA, h5)
     else do {
       ret \<leftarrow> rps_loop (unat num_rps) (unat num_rps) [];
       if ret < 0 then State_Monad.return (ret, h5)
       else do {
         ret \<leftarrow> skip_long_term l;
         if ret < 0 then State_Monad.return (ret, h5)
         else do {
           skip_bits1;
           skip_bits1;
           vui \<leftarrow> get_bits1;
           h6 \<leftarrow> (if vui \<noteq> 0 then hvcc_parse_vui h5 n else State_Monad.return h5);
           State_Monad.return (0, h6)
         }
       }
     }))" for h5 l n
    by (rule returns_0_code [OF b], simp, rule returns_0_long_term [OF b], simp)
      (intro returns_0_bind returns_0_return rules)
  have mid: "returns_0 b (State_Monad.bind (sps_middle h4 n) (\<lambda>(l, h5). f l h5))"
    if "\<And>l h5. returns_0 b (f l h5)" for h4 n f
    by (rule returns_0_bind) (auto simp: that case_prod_unfold intro: rules)
  show ?thesis
    unfolding hvcc_parse_sps_def Let_def by (intro mid returns_0_bind rules rest)
qed

lemma vps_returns_0: "length b = 2 \<Longrightarrow> returns_0 b (hvcc_parse_vps h)"
  unfolding hvcc_parse_vps_def
  by (intro returns_0_bind returns_0_return kept_reader.reader_rules [OF gb_ones_reader] kept_reader.keeps_ptl [OF gb_ones_reader])

lemma pps_returns_0: "length b = 2 \<Longrightarrow> returns_0 b (hvcc_parse_pps h)"
  unfolding hvcc_parse_pps_def
  by (intro returns_0_bind returns_0_return kept_reader.reader_rules [OF gb_ones_reader])

lemma short_unit_accepted:
  assumes t: "nal_type_of [x, 1] \<in> {VPS_NUT, SPS_NUT, PPS_NUT}"
  shows "\<exists>h1. hvcc_add_nal_unit True True ones_pad [x, 1] c h = Some (0, h1)"
proof -
  define gb where "gb = \<lparr>gb_buffer = [x, 1] @ ones_pad, gb_index = 0, size_in_bits = 16, gb_fault = False, gb_hang = False\<rparr>"
  have rb: "nal_unit_extract_rbsp [x, 1] = [x, 1]" by (simp add: nal_unit_extract_rbsp_def)
  have init: "init_get_bits8 ([x, 1] @ ones_pad) (length [x, 1]) = (0, gb)" by (simp add: init_get_bits8_def gb_def)
  have ok: "gb_ok gb" using init_gb_ok(1) [OF init] by (simp add: ones_pad_def)
  obtain t1 gb1 where r: "run_state nal_unit_parse_header gb = (t1, gb1)" by (cases "run_state nal_unit_parse_header gb")
  have ty: "ucast t1 = nal_type_of [x, 1]"
    using header_type [OF ok, of x "1 # ones_pad"] r by (simp add: nal_type_of_def gb_def)
  have "gb_live ([x, 1] @ ones_pad) 16 gb" using ok by (simp add: gb_live_def gb_data_def gb_def)
  then have "gb_live ([x, 1] @ ones_pad) 16 gb1" using live.keepsD [OF live.keeps_header] r by (metis snd_conv)
  moreover have "gb_index gb1 = 16"
  proof -
    have "gb_ok (gb\<lparr>gb_index := 1\<rparr>)" using ok by (simp add: gb_ok_def)
    from run_get_bits [OF this, of 6] have "gb_index gb1 = min 24 16"
      using r by (auto simp: nal_unit_parse_header_def skip_bits1_def skip_bits_def skip_counter_def
          size_in_bits_plus8_def gb_def case_prod_unfold)
    then show ?thesis by simp
  qed
  ultimately have ones: "gb_ones [x, 1] gb1" by (simp add: gb_ones_def)
  obtain h1 where a: "hvcc_array_add_nal_unit True [x, 1] (nal_type_of [x, 1]) c h = (0, h1)"
    by (auto simp: hvcc_array_add_nal_unit_def Let_def)
  define m where "m = (if nal_type_of [x, 1] = VPS_NUT then hvcc_parse_vps h1
    else if nal_type_of [x, 1] = SPS_NUT then hvcc_parse_sps h1 else hvcc_parse_pps h1)"
  have "returns_0 [x, 1] m" by (simp add: m_def vps_returns_0 sps_returns_0 pps_returns_0)
  then have m: "fst (fst (run_state m gb1)) = 0" "gb_ones [x, 1] (snd (run_state m gb1))"
    using ones by (simp_all add: returns_0_def)
  have "run_state (hvcc_parse_unit True [x, 1] c h) gb = run_state m gb1"
    using t a by (auto simp: hvcc_parse_unit_def r ty m_def hvcc_types_def)
  then obtain h2 gb2 where r2: "run_state (hvcc_parse_unit True [x, 1] c h) gb = ((0, h2), gb2)" "gb_ones [x, 1] gb2"
    using m by (metis prod.collapse)
  have "\<not> gb_fault gb2" "\<not> gb_hang gb2" using r2(2) by (simp_all add: gb_ones_def gb_live_def gb_ok_def gb_data_def)
  then show ?thesis
    unfolding hvcc_add_nal_unit_def Let_def rb init prod.case r2(1) by simp
qed

lemma short_units_accepted:
  "set ns \<subseteq> {[0x40, 1], [0x42, 1], [0x44, 1]} \<Longrightarrow>
    \<exists>h1. hvcc_units (\<lambda>_. True) (\<lambda>_. ones_pad) k c (with_lengths ns) h = Some (0, h1)"
proof (induction ns arbitrary: k h)
  case Nil
  then show ?case by (simp add: hvcc_units.simps)
next
  case (Cons n ns)
  obtain x where n: "n = [x, 1]" "nal_type_of n \<in> {VPS_NUT, SPS_NUT, PPS_NUT}"
    using Cons.prems by (auto simp: nal_type_of_def VPS_NUT_def SPS_NUT_def PPS_NUT_def)
  from short_unit_accepted [of x c h] obtain h1
    where a: "hvcc_add_nal_unit True True ones_pad n c h = Some (0, h1)" using n by auto
  have t: "and (drop_bit 1 (n ! 0)) 0x3f \<in> set hvcc_types" using n by (auto simp: nal_type_of_def hvcc_types_def)
  have "hvcc_units (\<lambda>_. True) (\<lambda>_. ones_pad) k c (with_lengths (n # ns)) h =
      hvcc_units (\<lambda>_. True) (\<lambda>_. ones_pad) (Suc k) c (with_lengths ns) h1"
    using a t n(1) by (subst hvcc_units.simps) (simp add: Let_def rb32_def nth_append)
  then show ?case using Cons by simp
qed

lemma short_params_written:
  "\<exists>cs. ff_isom_write_hvcc (\<lambda>_. True) (\<lambda>_. ones_pad) 0 (annexb short_params) 1 = Some (0, cs)"
proof -
  have s: "hvcc_stream short_params" by code_simp
  have p: "\<forall>k::nat. length ones_pad = 32" by (simp add: ones_pad_def)
  have "set (map snd short_params) \<subseteq> {[0x40, 1], [0x42, 1], [0x44, 1]}" by (simp add: short_params_def)
  from short_units_accepted [OF this] obtain h
    where h: "hvcc_units (\<lambda>_. True) (\<lambda>_. ones_pad) 0 1 (with_lengths (map snd short_params)) hvcc_init = Some (0, h)"
    by blast
  have g: "holds_units 1 (ps_units (map snd short_params)) h"
    using units_of_stream [where alloc = "\<lambda>_. True" and pad = "\<lambda>_. ones_pad", OF s _ _ h] p by simp
  have "groups 1 (ps_units (map snd short_params)) =
      map (\<lambda>(t, u). \<lparr>array_completeness = 1, NAL_unit_type = t, numNalus = 1, nalUnits = [(2, u)]\<rparr>)
        [(VPS_NUT, [0x40, 1]), (SPS_NUT, [0x42, 1]), (PPS_NUT, [0x44, 1])]"
    by code_simp
  then have "counts_ok (hvcc_fix h)"
    using g by (simp add: counts_ok_def ps_count_def hvcc_arrays_def hvcc_fix_def Let_def holds_units_def
        VPS_NUT_def SPS_NUT_def PPS_NUT_def HEVC_MAX_VPS_COUNT_def HEVC_MAX_SPS_COUNT_def HEVC_MAX_PPS_COUNT_def)
  then show ?thesis
    using passes(1) [where alloc = "\<lambda>_. True" and pad = "\<lambda>_. ones_pad" and al = 0 and c = 1, OF s] h
    by (simp add: hvcc_write_def Let_def)
qed

lemma hvcc_record_is_read_witness:
  "\<exists>cs. ff_isom_write_hvcc (\<lambda>_. True) (\<lambda>_. ones_pad) 0 (annexb short_params) 1 = Some (0, cs) \<and>
    read_hvcc (bytes_of cs) =
      [(True, 32, [[0x40, 1]]), (True, 33, [[0x42, 1]]), (True, 34, [[0x44, 1]])]"
proof -
  obtain cs where w: "ff_isom_write_hvcc (\<lambda>_. True) (\<lambda>_. ones_pad) 0 (annexb short_params) 1 = Some (0, cs)"
    using short_params_written by blast
  have s: "hvcc_stream short_params" by code_simp
  have p: "\<forall>k::nat. length ones_pad = 32" by (simp add: ones_pad_def)
  have "map (array_read 1 (ps_units (map snd short_params))) (type_order (ps_units (map snd short_params))) =
    [(True, 32, [[0x40, 1]]), (True, 33, [[0x42, 1]]), (True, 34, [[0x44, 1]])]"
    by code_simp
  with hvcc_record_is_read [where pad = "\<lambda>_. ones_pad", OF s p w] w show ?thesis by auto
qed

lemma hvcc_size_is_right_witness:
  "\<exists>cs. ff_isom_write_hvcc (\<lambda>_. True) (\<lambda>_. ones_pad) 0 (annexb short_params) 1 = Some (0, cs) \<and>
    FFIsomGetHvccSize (\<lambda>_. True) (\<lambda>_. ones_pad) 0 (annexb short_params) 1 = Some (of_nat (blen cs))"
proof -
  obtain cs where w: "ff_isom_write_hvcc (\<lambda>_. True) (\<lambda>_. ones_pad) 0 (annexb short_params) 1 = Some (0, cs)"
    using short_params_written by blast
  have s: "hvcc_stream short_params" by code_simp
  have p: "\<forall>k::nat. length ones_pad = 32" by (simp add: ones_pad_def)
  from hvcc_size_is_right [where pad = "\<lambda>_. ones_pad", OF s p w] w show ?thesis by blast
qed

end
