(* ===== verification/AacMuxer.thy ===== *)
theory AacMuxer
  imports Mp4Mov FsWriter
begin

text \<open>
  The AAC muxer (libmuxer/aac_muxer/AacMuxer.c): every frame goes to the file behind an ADTS
  header, of which the part that does not depend on the frame is made once, by \<open>SETAVPARA\<close>. The
  packets are those of include_muxer/record_writer.h.
\<close>

section \<open>The header\<close>

definition ADTS_HEADER_SIZE :: nat where "ADTS_HEADER_SIZE = 7"

record aac_context =
  aac_sample_rate :: u32
  aac_channels :: u32
  adts :: "byte list"
  aac_pb :: bool
  aac_writer :: bool

definition sampleRateTable :: "u32 list" where
  "sampleRateTable =
     [96000, 88200, 64000, 48000, 44100, 32000, 24000, 22050, 16000, 12000, 11025, 8000, 7350, 0, 0, 0]"

text \<open>The loop of \<open>getSampleRateIndex\<close>; \<open>None\<close> is \<open>-1\<close>.\<close>

fun rate_loop :: "u32 list \<Rightarrow> nat \<Rightarrow> u32 \<Rightarrow> nat option" where
  "rate_loop [] i sampleRate = None"
| "rate_loop (r # rs) i sampleRate = (if sampleRate = r then Some i else rate_loop rs (i + 1) sampleRate)"

definition getSampleRateIndex :: "u32 \<Rightarrow> nat option" where
  "getSampleRateIndex sampleRate = rate_loop sampleRateTable 0 sampleRate"

text \<open>The fields of the header are bytes or, for the fullness, 16 bits.\<close>

definition initADTSHeader :: "u32 \<Rightarrow> u32 \<Rightarrow> aac_context \<Rightarrow> int \<times> aac_context" where
  "initADTSHeader sampleRate chans s =
     (case getSampleRateIndex sampleRate of
        None \<Rightarrow> (- 1, s)
      | Some i \<Rightarrow>
          let layer = (0 :: byte); protection_absent = 1; profile = 1; sf_index = of_nat i; private_bit = 0;
              channel_configuration = ucast chans; original = 0; home = 0;
              copyright_identification_bit = 0; copyright_identification_start = 0;
              adts_buffer_fullness = (0x7ff :: u16); no_raw_data_blocks_in_frame = 0
          in (0, s\<lparr>adts :=
               [0xff,
                or (or 0xf0 (push_bit 1 (and layer 0x03))) (and protection_absent 0x01),
                or (or (or (push_bit 6 (and profile 0x03)) (push_bit 2 (and sf_index 0x0F)))
                       (push_bit 1 (and private_bit 0x01)))
                   (drop_bit 2 (and channel_configuration 0x04)),
                or (or (or (or (push_bit 6 (and channel_configuration 0x03)) (push_bit 5 (and original 0x01)))
                       (push_bit 4 (and home 0x01)))
                       (push_bit 3 (and copyright_identification_bit 0x01)))
                   (push_bit 2 (and copyright_identification_start 0x01)),
                0,
                and (ucast (drop_bit 6 adts_buffer_fullness)) 0x1F,
                or (ucast (push_bit 2 (and adts_buffer_fullness 0x003F))) (and no_raw_data_blocks_in_frame 0x03)]\<rparr>))"

definition generateAdtsHeader :: "u32 \<Rightarrow> aac_context \<Rightarrow> aac_context" where
  "generateAdtsHeader len s =
     (let frame_len = len + of_nat ADTS_HEADER_SIZE; a = adts s
      in s\<lparr>adts := a[3 := or (and (a ! 3) 0xFC) (and (ucast (drop_bit 11 frame_len)) 0x03),
                     4 := ucast (drop_bit 3 frame_len),
                     5 := or (and (a ! 5) 0x1F) (push_bit 5 (ucast (and frame_len 0x0007)))]\<rparr>)"

section \<open>The muxer\<close>

definition AacMuxerOpen :: aac_context where
  "AacMuxerOpen = \<lparr>aac_sample_rate = 0, aac_channels = 0, adts = replicate ADTS_HEADER_SIZE 0, aac_pb = False,
     aac_writer = False\<rparr>"

text \<open>\<open>SETAVPARA\<close>, which ignores what \<open>initADTSHeader\<close> returns; and a command that opens the stream.\<close>

definition aac_SETAVPARA :: "u32 \<Rightarrow> u32 \<Rightarrow> aac_context \<Rightarrow> aac_context" where
  "aac_SETAVPARA chans rate s =
     snd (initADTSHeader rate chans (s\<lparr>aac_channels := chans, aac_sample_rate := rate\<rparr>))"

definition aac_SETCACHEFD :: "bool \<Rightarrow> aac_context \<Rightarrow> int \<times> aac_context" where
  "aac_SETCACHEFD opened s = (if opened then (0, s\<lparr>aac_pb := True\<rparr>) else (- 1, s\<lparr>aac_pb := False\<rparr>))"

text \<open>\<open>created\<close>: what \<open>createFsWriter\<close> gives.\<close>

definition AacMuxerWriteHeader :: "bool \<Rightarrow> aac_context \<Rightarrow> int \<times> aac_context" where
  "AacMuxerWriteHeader created s =
     (if aac_pb s then (if created then (0, s\<lparr>aac_writer := True\<rparr>) else (- 1, s\<lparr>aac_writer := False\<rparr>)) else (0, s))"

definition AacMuxerWritePacket :: "AVPacket \<Rightarrow> aac_context \<Rightarrow> int \<times> aac_context \<times> calls" where
  "AacMuxerWritePacket pkt s =
     (if aac_writer s
      then let s1 = generateAdtsHeader (of_nat (length (data0 pkt))) s in (0, s1, [adts s1, data0 pkt])
      else (- 1, s, []))"

fun aac_packets :: "AVPacket list \<Rightarrow> aac_context \<Rightarrow> aac_context \<times> calls" where
  "aac_packets [] s = (s, [])"
| "aac_packets (p # ps) s =
     (let (r, s1, c) = AacMuxerWritePacket p s; (s2, cs) = aac_packets ps s1 in (s2, c @ cs))"

section \<open>A reader of ADTS frames\<close>

text \<open>The fields of a header after ISO 13818-7, and the frames of a file.\<close>

definition adts_sync :: "byte list \<Rightarrow> bool" where
  "adts_sync b \<longleftrightarrow> 7 \<le> length b \<and> b ! 0 = 0xff \<and> and (b ! 1) 0xf6 = 0xf0"

definition adts_rate :: "byte list \<Rightarrow> nat" where
  "adts_rate b = unat (and (drop_bit 2 (b ! 2)) 0xf)"

definition adts_channels :: "byte list \<Rightarrow> nat" where
  "adts_channels b = unat (and (b ! 2) 1) * 4 + unat (drop_bit 6 (b ! 3))"

definition adts_length :: "byte list \<Rightarrow> nat" where
  "adts_length b = unat (and (b ! 3) 3) * 2048 + unat (b ! 4) * 8 + unat (drop_bit 5 (b ! 5))"

function read_adts :: "byte list \<Rightarrow> (nat \<times> nat \<times> byte list) list option" where
  "read_adts b =
     (if b = [] then Some []
      else if \<not> adts_sync b \<or> adts_length b < 7 \<or> length b < adts_length b then None
      else do {
        fs \<leftarrow> read_adts (drop (adts_length b) b);
        Some ((adts_rate b, adts_channels b, drop 7 (take (adts_length b) b)) # fs)
      })"
  by pat_completeness auto
termination by (relation "measure length") auto

declare read_adts.simps [simp del]

section \<open>The header of a frame\<close>

lemma rate_loop_bound: "rate_loop rs i r = Some j \<Longrightarrow> i \<le> j \<and> j < i + length rs"
  by (induction rs i r rule: rate_loop.induct) (auto split: if_splits)

lemma getSampleRateIndex_bound: "getSampleRateIndex r = Some i \<Longrightarrow> i < 16"
  using rate_loop_bound [of sampleRateTable 0 r i] by (simp add: getSampleRateIndex_def sampleRateTable_def)

text \<open>What the header is, but for the three bytes with the length.\<close>

definition adts_byte2 :: "nat \<Rightarrow> nat \<Rightarrow> byte" where
  "adts_byte2 i ch = or (or 0x40 (push_bit 2 (of_nat i))) (drop_bit 2 (and (of_nat ch) 4))"

definition adts_ok :: "nat \<Rightarrow> nat \<Rightarrow> aac_context \<Rightarrow> bool" where
  "adts_ok i ch s \<longleftrightarrow> (\<exists>x y z. adts s = [0xff, 0xf1, adts_byte2 i ch, x, y, z, 0xfc] \<and>
     and x 0xFC = push_bit 6 (of_nat ch) \<and> and z 0x1F = 0x1F)"

lemma byte2_fields:
  assumes "i < 16" "ch < 8"
  shows "unat (and (drop_bit 2 (adts_byte2 i ch)) 0xf) = i" "unat (and (adts_byte2 i ch) 1) = ch div 4"
proof -
  have "\<forall>i \<in> set [0..<16]. \<forall>ch \<in> set [0..<8]. unat (and (drop_bit 2 (adts_byte2 i ch)) 0xf) = i \<and> unat (and (adts_byte2 i ch) 1) = ch div 4"
    by code_simp
  then show "unat (and (drop_bit 2 (adts_byte2 i ch)) 0xf) = i" "unat (and (adts_byte2 i ch) 1) = ch div 4"
    using assms by simp_all
qed

lemma byte_masks:
  "(3 :: byte) = mask 2" "(7 :: u32) = mask 3" "(0x1F :: byte) = mask 5" "(0xFC :: byte) = push_bit 2 (mask 6)"
  by (simp_all add: mask_eq_exp_minus_1)

lemma byte_mask_shift:
  "push_bit 6 (and w 3) = push_bit 6 (w :: byte)" "and (push_bit 6 w) 0xFC = push_bit 6 w"
  unfolding byte_masks by (rule bit_word_eqI, auto simp: bit_simps)+

lemma initADTSHeader_ok:
  assumes "getSampleRateIndex r = Some i" "unat chans < 8"
  shows "fst (initADTSHeader r chans s) = 0" "adts_ok i (unat chans) (snd (initADTSHeader r chans s))"
proof -
  define ch where "ch = unat chans"
  have c: "(ucast chans :: byte) = of_nat ch" by (simp add: ch_def)
  have z: "and (of_nat i) 0x0F = (of_nat i :: byte)"
  proof -
    have "\<forall>i \<in> set [0..<16]. and (of_nat i) 0x0F = (of_nat i :: byte)" by code_simp
    then show ?thesis using getSampleRateIndex_bound [OF assms(1)] by simp
  qed
  show "fst (initADTSHeader r chans s) = 0" using assms(1) by (simp add: initADTSHeader_def Let_def)
  show "adts_ok i (unat chans) (snd (initADTSHeader r chans s))"
    unfolding ch_def [symmetric] adts_ok_def adts_byte2_def initADTSHeader_def Let_def assms(1) option.case c z
      byte_mask_shift(1)
    using byte_mask_shift(2) [of "of_nat ch"] by simp
qed

text \<open>The length of a frame has thirteen bits.\<close>

lemma thirteen_bits: "n div 2048 mod 4 * 2048 + n div 8 mod 256 * 8 + n mod 8 = n mod (8192 :: nat)"
  using mod_mult2_eq [of n 8 1024] mod_mult2_eq [of "n div 8" 256 4] by (simp add: div_mult2_eq [symmetric])

lemma generate_ok:
  assumes ok: "adts_ok i ch s" and b: "i < 16" "ch < 8" and n: "unat len + 7 < 2 ^ 32"
  defines "h \<equiv> adts (generateAdtsHeader len s)"
  shows "adts_ok i ch (generateAdtsHeader len s)" "length h = 7" "adts_sync (h @ d)" "adts_rate (h @ d) = i"
    "adts_channels (h @ d) = ch" "adts_length (h @ d) = (unat len + 7) mod 8192"
proof -
  obtain x y z where a: "adts s = [0xff, 0xf1, adts_byte2 i ch, x, y, z, 0xfc]"
    "and x 0xFC = push_bit 6 (of_nat ch)" "and z 0x1F = 0x1F"
    using ok by (auto simp: adts_ok_def)
  define m where "m = len + 7"
  define b3 :: byte where "b3 = or (push_bit 6 (of_nat ch)) (and (ucast (drop_bit 11 m)) 0x03)"
  define b5 :: byte where "b5 = or 0x1F (push_bit 5 (ucast (and m 0x0007)))"
  have h: "h = [0xff, 0xf1, adts_byte2 i ch, b3, ucast (drop_bit 3 m), b5, 0xfc]"
    using a by (simp add: h_def generateAdtsHeader_def Let_def m_def b3_def b5_def ADTS_HEADER_SIZE_def numeral_eq_Suc)
  have m: "unat m = unat len + 7"
    using n unat_plus_no_overflow [of len 7] by (simp add: m_def)
  have f: "and b3 0xFC = push_bit 6 (of_nat ch)" "and b3 3 = and (ucast (drop_bit 11 m)) 3"
    "drop_bit 6 b3 = take_bit 2 (of_nat ch)" "and b5 0x1F = 0x1F" "drop_bit 5 b5 = ucast (take_bit 3 m)"
    unfolding b3_def b5_def byte_masks
    by (rule bit_word_eqI, auto simp: bit_simps)+
  have u: "unat (and (ucast (drop_bit 11 m)) 3 :: byte) = unat m div 2048 mod 4"
    "unat (ucast (drop_bit 3 m) :: byte) = unat m div 8 mod 256"
    "unat (ucast (take_bit 3 m) :: byte) = unat m mod 8" "unat (take_bit 2 (of_nat ch) :: byte) = ch mod 4"
    unfolding byte_masks
    by (simp_all only: unsigned_ucast_eq unsigned_take_bit_eq unat_drop_bit_eq take_bit_eq_mask [symmetric] unsigned_of_nat)
      (simp_all add: take_bit_eq_mod drop_bit_eq_div mod_mod_cancel)
  show "adts_ok i ch (generateAdtsHeader len s)"
    using h f by (auto simp: adts_ok_def h_def)
  show "length h = 7" by (simp add: h)
  show "adts_sync (h @ d)" by (simp add: h adts_sync_def)
  show "adts_rate (h @ d) = i" using byte2_fields [OF b] by (simp add: h adts_rate_def)
  show "adts_channels (h @ d) = ch"
    using byte2_fields [OF b] by (simp add: h adts_channels_def f u)
  show "adts_length (h @ d) = (unat len + 7) mod 8192"
    using thirteen_bits [of "unat m"] by (simp add: h adts_length_def f u m)
qed

section \<open>A recording\<close>

lemma read_adts_frame:
  assumes "length h = 7" "adts_sync (h @ d @ r)" "adts_length (h @ d @ r) = 7 + length d"
  shows "read_adts (h @ d @ r) =
    do { fs \<leftarrow> read_adts r; Some ((adts_rate (h @ d @ r), adts_channels (h @ d @ r), d) # fs) }"
proof -
  have "h \<noteq> []" using assms(1) by auto
  then show ?thesis using assms by (subst read_adts.simps) simp
qed

lemma aac_packets_read:
  assumes "adts_ok i ch s" "aac_writer s" "i < 16" "ch < 8" "\<forall>p \<in> set ps. length (data0 p) \<le> 8184"
  shows "read_adts (concat (snd (aac_packets ps s))) = Some (map (\<lambda>p. (i, ch, data0 p)) ps)"
  using assms
proof (induction ps arbitrary: s)
  case Nil
  then show ?case by (simp add: read_adts.simps)
next
  case (Cons p ps)
  let ?n = "of_nat (length (data0 p)) :: u32"
  define s1 where "s1 = generateAdtsHeader ?n s"
  have len: "length (data0 p) \<le> 8184" using Cons.prems(5) by simp
  then have n: "unat ?n = length (data0 p)" by (simp only: unat_of_nat) simp
  have "unat ?n + 7 < 2 ^ 32" using n len by simp
  note g = generate_ok [OF Cons.prems(1,3,4) this, folded s1_def]
  have w: "aac_writer s1" using Cons.prems(2) by (simp add: s1_def generateAdtsHeader_def Let_def)
  have "(length (data0 p) + 7) mod 8192 = 7 + length (data0 p)" using len by simp
  then have r: "read_adts (adts s1 @ data0 p @ concat (snd (aac_packets ps s1))) =
      Some ((i, ch, data0 p) # map (\<lambda>p. (i, ch, data0 p)) ps)"
    using g Cons.IH [OF g(1) w Cons.prems(3,4)] Cons.prems(5) n by (subst read_adts_frame) simp_all
  have "AacMuxerWritePacket p s = (0, s1, [adts s1, data0 p])"
    using Cons.prems(2) by (simp add: AacMuxerWritePacket_def s1_def Let_def)
  then show ?case using r by (simp split: prod.split) (metis snd_conv)
qed

text \<open>The muxer as it is opened and set up.\<close>

definition aac_start :: "u32 \<Rightarrow> u32 \<Rightarrow> aac_context" where
  "aac_start chans rate =
     snd (AacMuxerWriteHeader True (snd (aac_SETCACHEFD True (aac_SETAVPARA chans rate AacMuxerOpen))))"

lemma aac_start_ok:
  assumes "getSampleRateIndex rate = Some i" "unat chans < 8"
  shows "adts_ok i (unat chans) (aac_start chans rate)" "aac_writer (aac_start chans rate)"
proof -
  have "adts (aac_start chans rate) = adts (aac_SETAVPARA chans rate AacMuxerOpen)" "aac_writer (aac_start chans rate)"
    by (simp_all add: aac_start_def AacMuxerWriteHeader_def aac_SETCACHEFD_def)
  then show "adts_ok i (unat chans) (aac_start chans rate)" "aac_writer (aac_start chans rate)"
    using initADTSHeader_ok(2) [OF assms] by (simp_all add: adts_ok_def aac_SETAVPARA_def)
qed

section \<open>Properties\<close>

text \<open>
  C37: an AAC recording through the write-behind cache is read back: for a sample rate of the
  table and up to seven channels, every frame of at most 8184 bytes is found in the file with its
  bytes, the index of the rate and the number of channels, in order.
\<close>

theorem aac_recording_reads_back:
  assumes "getSampleRateIndex rate = Some i" "unat chans < 8" "\<forall>p \<in> set ps. length (data0 p) \<le> 8184"
    and "sc_inv w" "sc_view w = ([], 0)" "length (concat (snd (aac_packets ps (aac_start chans rate)))) < max_offset"
  shows "read_adts (fst (sc_disk (simple_flush (fold (\<lambda>xs w. simple_write w xs) (snd (aac_packets ps (aac_start chans rate))) w)))) =
    Some (map (\<lambda>p. (i, unat chans, data0 p)) ps)"
proof -
  have "fst (sc_disk (simple_flush (fold (\<lambda>xs w. simple_write w xs) (snd (aac_packets ps (aac_start chans rate))) w))) =
      concat (snd (aac_packets ps (aac_start chans rate)))"
    using fs_simple.fold_write_flush [OF assms(4)] assms(5,6) by (simp add: fput_def file_put_def)
  then show ?thesis
    using aac_packets_read [OF aac_start_ok [OF assms(1,2)] getSampleRateIndex_bound [OF assms(1)] assms(2,3)] by simp
qed

definition aac_demo_packets :: "AVPacket list" where
  "aac_demo_packets =
     [\<lparr>data0 = [1, 2, 3], data1 = [], stream_index = 0, flags = 0, duration = 0\<rparr>,
      \<lparr>data0 = [], data1 = [], stream_index = 0, flags = 0, duration = 0\<rparr>]"

definition aac_demo_file :: fs_simple_cache where
  "aac_demo_file =
     the (initFsSimpleCache True True True [0, 0, 0]
       (demo_stream []\<lparr>s_file := \<lparr>p_data = [], p_pos = 0, p_errno = 0, p_calls = 0, p_outcomes = demo_outcomes []\<rparr>, cur_offset := 0\<rparr>) 3)"

lemma aac_recording_reads_back_witness:
  "read_adts (fst (sc_disk (simple_flush (fold (\<lambda>xs w. simple_write w xs)
      (snd (aac_packets aac_demo_packets (aac_start 2 44100))) aac_demo_file)))) = Some [(4, 2, [1, 2, 3]), (4, 2, [])]"
proof -
  have i: "getSampleRateIndex 44100 = Some 4" by (simp add: getSampleRateIndex_def sampleRateTable_def)
  have c: "unat (2 :: u32) < 8" by simp
  have w: "sc_inv aac_demo_file" "sc_view aac_demo_file = ([], 0)"
    by (simp_all add: aac_demo_file_def initFsSimpleCache_def sc_inv_def sc_view_def stream_ok_def
        stream_view_def demo_stream_def EIO_def max_offset_def)
  have p: "\<forall>p \<in> set aac_demo_packets. length (data0 p) \<le> 8184" by (simp add: aac_demo_packets_def)
  have "length (concat (snd (aac_packets aac_demo_packets (aac_start 2 44100)))) < max_offset"
    using aac_start_ok [OF i c] by (simp add: aac_demo_packets_def AacMuxerWritePacket_def Let_def generateAdtsHeader_def
        adts_ok_def max_offset_def split: prod.split) (auto simp: max_offset_def)
  from aac_recording_reads_back [OF i c p w this] show ?thesis by (simp add: aac_demo_packets_def)
qed

text \<open>
  A frame of 8185 bytes or more is not a frame of the file: the thirteen bits of the length
  in its header do not hold it, and a reader goes on inside the frame.
\<close>

theorem long_aac_frame_is_cut:
  assumes "adts_ok i ch s" "i < 16" "ch < 8" "8185 \<le> length d" "length d + 7 < 2 ^ 32"
  shows "adts_length (adts (generateAdtsHeader (of_nat (length d)) s) @ d) < 7 + length d"
proof -
  have n: "unat (of_nat (length d) :: u32) = length d" using assms(5) by (simp only: unat_of_nat) simp
  have "(length d + 7) mod 8192 < 8192" by simp
  then show ?thesis using generate_ok(6) [OF assms(1-3), of "of_nat (length d)" d] assms(4,5) n by simp
qed

lemma long_aac_frame_is_cut_witness:
  "adts_length (adts (generateAdtsHeader (of_nat (length (replicate 9000 (0 :: byte)))) (aac_start 1 8000)) @ replicate 9000 0) <
    7 + length (replicate 9000 (0 :: byte))"
proof (rule long_aac_frame_is_cut)
  have i: "getSampleRateIndex 8000 = Some 11" by (simp add: getSampleRateIndex_def sampleRateTable_def)
  show "adts_ok 11 (unat (1 :: u32)) (aac_start 1 8000)" by (rule aac_start_ok [OF i]) simp
qed simp_all

end
