(* ===== verification/Mp3Muxer.thy ===== *)
theory Mp3Muxer
  imports Mp4Mov FsWriter "HOL-Library.Monad_Syntax"
begin

text \<open>
  The MP3 muxer (libmuxer/mp3_muxer/mp3.c, Mp3Muxer.c): an ID3v2.4 tag with the metadata, the
  frames, and an ID3v1 tag. C strings are byte lists without a zero; the tables of names are
  lists of strings. The size of the tag is written when its frames are, so the header goes back
  in the file.
\<close>

section \<open>Tables\<close>

definition ff_id3v1_genre_str :: "string list" where
  "ff_id3v1_genre_str = [
     ''Blues'', ''Classic Rock'', ''Country'', ''Dance'', ''Disco'', ''Funk'', ''Grunge'',
      ''Hip-Hop'', ''Jazz'', ''Metal'', ''New Age'', ''Oldies'', ''Other'', ''Pop'', ''R&B'',
      ''Rap'', ''Reggae'', ''Rock'', ''Techno'', ''Industrial'', ''Alternative'', ''Ska'',
      ''Death Metal'', ''Pranks'', ''Soundtrack'', ''Euro-Techno'', ''Ambient'', ''Trip-Hop'',
      ''Vocal'', ''Jazz+Funk'', ''Fusion'', ''Trance'', ''Classical'', ''Instrumental'', ''Acid'',
      ''House'', ''Game'', ''Sound Clip'', ''Gospel'', ''Noise'', ''AlternRock'', ''Bass'',
      ''Soul'', ''Punk'', ''Space'', ''Meditative'', ''Instrumental Pop'', ''Instrumental Rock'',
      ''Ethnic'', ''Gothic'', ''Darkwave'', ''Techno-Industrial'', ''Electronic'', ''Pop-Folk'',
      ''Eurodance'', ''Dream'', ''Southern Rock'', ''Comedy'', ''Cult'', ''Gangsta'', ''Top 40'',
      ''Christian Rap'', ''Pop/Funk'', ''Jungle'', ''Native American'', ''Cabaret'', ''New Wave'',
      ''Psychadelic'', ''Rave'', ''Showtunes'', ''Trailer'', ''Lo-Fi'', ''Tribal'', ''Acid Punk'',
      ''Acid Jazz'', ''Polka'', ''Retro'', ''Musical'', ''Rock & Roll'', ''Hard Rock'', ''Folk'',
      ''Folk-Rock'', ''National Folk'', ''Swing'', ''Fast Fusion'', ''Bebob'', ''Latin'',
      ''Revival'', ''Celtic'', ''Bluegrass'', ''Avantgarde'', ''Gothic Rock'',
      ''Progressive Rock'', ''Psychedelic Rock'', ''Symphonic Rock'', ''Slow Rock'', ''Big Band'',
      ''Chorus'', ''Easy Listening'', ''Acoustic'', ''Humour'', ''Speech'', ''Chanson'', ''Opera'',
      ''Chamber Music'', ''Sonata'', ''Symphony'', ''Booty Bass'', ''Primus'', ''Porn Groove'',
      ''Satire'', ''Slow Jam'', ''Club'', ''Tango'', ''Samba'', ''Folklore'', ''Ballad'',
      ''Power Ballad'', ''Rhythmic Soul'', ''Freestyle'', ''Duet'', ''Punk Rock'', ''Drum Solo'',
      ''A capella'', ''Euro-House'', ''Dance Hall'', ''Goa'', ''Drum & Bass'', ''Club-House'',
      ''Hardcore'', ''Terror'', ''Indie'', ''BritPop'', ''Negerpunk'', ''Polsk Punk'', ''Beat'',
      ''Christian Gangsta'', ''Heavy Metal'', ''Black Metal'', ''Crossover'',
      ''Contemporary Christian'', ''Christian Rock'', ''Merengue'', ''Salsa'', ''Thrash Metal'',
      ''Anime'', ''JPop'', ''SynthPop'']"

definition ff_id3v2_tags :: "string list" where
  "ff_id3v2_tags = [
     ''TALB'', ''TBPM'', ''TCOM'', ''TCON'', ''TCOP'', ''TDEN'', ''TDLY'', ''TDOR'', ''TDRC'',
      ''TDRL'', ''TDTG'', ''TENC'', ''TEXT'', ''TFLT'', ''TIPL'', ''TIT1'', ''TIT2'', ''TIT3'',
      ''TKEY'', ''TLAN'', ''TLEN'', ''TMCL'', ''TMED'', ''TMOO'', ''TOAL'', ''TOFN'', ''TOLY'',
      ''TOPE'', ''TOWN'', ''TPE1'', ''TPE2'', ''TPE3'', ''TPE4'', ''TPOS'', ''TPRO'', ''TPUB'',
      ''TRCK'', ''TRSN'', ''TRSO'', ''TSOA'', ''TSOP'', ''TSOT'', ''TSRC'', ''TSSE'', ''TSST'']"

section \<open>Metadata\<close>

record AVMetadataTag =
  key :: "byte list"
  "value" :: "byte list"

text \<open>\<open>toupper\<close> in the C locale.\<close>

definition toupper :: "byte \<Rightarrow> byte" where
  "toupper c = (if 97 \<le> c \<and> c \<le> 122 then c - 32 else c)"

text \<open>The loop that compares the key: what is left of the two strings.\<close>

fun key_prefix :: "(byte \<Rightarrow> byte) \<Rightarrow> byte list \<Rightarrow> byte list \<Rightarrow> byte list \<times> byte list" where
  "key_prefix f (x # s) (k # ks) = (if f x = f k then key_prefix f s ks else (x # s, k # ks))"
| "key_prefix f s ks = (s, ks)"

text \<open>The search from the element \<open>i\<close> on; its value is the index of the element found.\<close>

fun metadata_from :: "AVMetadataTag list \<Rightarrow> nat \<Rightarrow> byte list \<Rightarrow> bool \<Rightarrow> bool \<Rightarrow> nat option" where
  "metadata_from [] i k match_case ignore_suffix = None"
| "metadata_from (t # ts) i k match_case ignore_suffix =
     (let (s, r) = key_prefix (if match_case then id else toupper) (key t) k
      in if r \<noteq> [] then metadata_from ts (i + 1) k match_case ignore_suffix
         else if s \<noteq> [] \<and> \<not> ignore_suffix then metadata_from ts (i + 1) k match_case ignore_suffix
         else Some i)"

definition av_metadata_get ::
  "AVMetadataTag list \<Rightarrow> byte list \<Rightarrow> nat option \<Rightarrow> bool \<Rightarrow> bool \<Rightarrow> nat option" where
  "av_metadata_get m k prev match_case ignore_suffix =
     (let i = (case prev of Some p \<Rightarrow> p + 1 | None \<Rightarrow> 0)
      in metadata_from (drop i m) i k match_case ignore_suffix)"

section \<open>The tag at the end\<close>

definition ID3v1_TAG_SIZE :: nat where "ID3v1_TAG_SIZE = 128"
definition ID3v1_GENRE_MAX :: nat where "ID3v1_GENRE_MAX = 147"

text \<open>\<open>strncpy\<close> into a part of the buffer: the string, and zeros up to the size.\<close>

definition strncpy_at :: "byte list \<Rightarrow> nat \<Rightarrow> byte list \<Rightarrow> nat \<Rightarrow> byte list" where
  "strncpy_at buf off v n = mem_put buf off (take n v @ replicate (n - length v) 0)"

definition id3v1_set_string :: "AVMetadataTag list \<Rightarrow> string \<Rightarrow> nat \<Rightarrow> nat \<Rightarrow> byte list \<Rightarrow> nat \<times> byte list" where
  "id3v1_set_string m k off buf_size buf =
     (case av_metadata_get m (tag_bytes k) None False False of
        None \<Rightarrow> (0, buf)
      | Some j \<Rightarrow> (1, strncpy_at buf off (value (m ! j)) buf_size))"

text \<open>\<open>atoi\<close>: white space, a sign, digits.\<close>

fun atoi_digits :: "int \<Rightarrow> byte list \<Rightarrow> int" where
  "atoi_digits n (c # cs) = (if 48 \<le> c \<and> c \<le> 57 then atoi_digits (10 * n + int (unat c - 48)) cs else n)"
| "atoi_digits n [] = n"

definition atoi :: "byte list \<Rightarrow> int" where
  "atoi s =
     (let t = dropWhile (\<lambda>c. c = 32 \<or> 9 \<le> c \<and> c \<le> 13) s
      in case t of [] \<Rightarrow> 0
         | c # cs \<Rightarrow> if c = 45 then - atoi_digits 0 cs else if c = 43 then atoi_digits 0 cs else atoi_digits 0 t)"

definition strcasecmp_eq :: "byte list \<Rightarrow> byte list \<Rightarrow> bool" where
  "strcasecmp_eq s t \<longleftrightarrow> map toupper s = map toupper t"

fun find_genre :: "byte list \<Rightarrow> nat \<Rightarrow> string list \<Rightarrow> nat option" where
  "find_genre v i [] = None"
| "find_genre v i (g # gs) = (if strcasecmp_eq v (tag_bytes g) then Some i else find_genre v (i + 1) gs)"

definition id3v1_create_tag :: "AVMetadataTag list \<Rightarrow> nat \<times> byte list" where
  "id3v1_create_tag m =
     (let b0 = (replicate ID3v1_TAG_SIZE 0)[0 := of_char (CHR ''T''), 1 := of_char (CHR ''A''), 2 := of_char (CHR ''G'')];
          (n1, b1) = id3v1_set_string m ''title'' 3 30 b0;
          (n2, b2) = id3v1_set_string m ''author'' 33 30 b1;
          (n3, b3) = id3v1_set_string m ''album'' 63 30 b2;
          (n4, b4) = id3v1_set_string m ''date'' 93 4 b3;
          (n5, b5) = id3v1_set_string m ''comment'' 97 30 b4;
          (n6, b6) = (case av_metadata_get m (tag_bytes ''track'') None False False of
              None \<Rightarrow> (0, b5) | Some j \<Rightarrow> (1, b5[125 := 0, 126 := of_int (atoi (value (m ! j)))]));
          b7 = b6[127 := 0xFF];
          (n8, b8) = (case av_metadata_get m (tag_bytes ''genre'') None False False of
              None \<Rightarrow> (0, b7)
            | Some j \<Rightarrow> (case find_genre (value (m ! j)) 0 ff_id3v1_genre_str of
                None \<Rightarrow> (0, b7) | Some i \<Rightarrow> (1, b7[127 := of_nat i])))
      in (n1 + n2 + n3 + n4 + n5 + n6 + n8, b8))"

section \<open>The tag at the start\<close>

definition ID3v2_HEADER_SIZE :: nat where "ID3v2_HEADER_SIZE = 10"

definition mp3_put_byte :: "u32 \<Rightarrow> calls" where "mp3_put_byte b = [take 1 (le_bytes32 b)]"
definition mp3_put_buffer :: "byte list \<Rightarrow> calls" where "mp3_put_buffer buf = [buf]"
definition mp3_put_be32 :: "u32 \<Rightarrow> calls" where "mp3_put_be32 val = [le_bytes32 (bswap32 val)]"
definition mp3_put_be16 :: "u32 \<Rightarrow> calls" where
  "mp3_put_be16 val = mp3_put_byte (drop_bit 8 val) @ mp3_put_byte val"

definition id3v2_put_size :: "u32 \<Rightarrow> calls" where
  "id3v2_put_size sz =
     mp3_put_byte (and (drop_bit 21 sz) 0x7f) @ mp3_put_byte (and (drop_bit 14 sz) 0x7f) @
     mp3_put_byte (and (drop_bit 7 sz) 0x7f) @ mp3_put_byte (and sz 0x7f)"

text \<open>\<open>buf\<close> is what is read of the buffer, its first \<open>len\<close> bytes.\<close>

definition id3v2_put_ttag :: "byte list \<Rightarrow> u32 \<Rightarrow> calls" where
  "id3v2_put_ttag buf tg =
     mp3_put_be32 tg @ id3v2_put_size (of_nat (length buf + 1)) @ mp3_put_be16 0 @ mp3_put_byte 3 @ mp3_put_buffer buf"

text \<open>One element: its frame, and what the frame adds to \<open>totlen\<close>.\<close>

definition id3v2_known :: "byte list \<Rightarrow> bool" where
  "id3v2_known k \<longleftrightarrow> k \<noteq> [] \<and> k ! 0 = of_char (CHR ''T'') \<and> length k = 4 \<and>
     list_ex (\<lambda>t. rd32 k = rd32 (tag_bytes t)) ff_id3v2_tags"

definition id3v2_frame :: "AVMetadataTag \<Rightarrow> calls \<times> nat" where
  "id3v2_frame t =
     (let len = length (key t); len1 = length (value t)
      in if id3v2_known (key t)
         then (id3v2_put_ttag (value t @ [0]) (rd32 (key t)), len1 + ID3v2_HEADER_SIZE + 2)
         else (id3v2_put_ttag (key t @ [0] @ value t @ [0]) (rd32 (tag_bytes ''TXXX'')),
               len + len1 + ID3v2_HEADER_SIZE + 3))"

lemma metadata_from_bound: "metadata_from ts i k a b = Some j \<Longrightarrow> i \<le> j \<and> j < i + length ts"
proof (induction ts arbitrary: i)
  case (Cons t ts)
  have "metadata_from ts (i + 1) k a b = Some j \<or> j = i"
    using Cons.prems by (auto simp: Let_def split: prod.splits if_splits)
  then show ?case using Cons.IH [of "i + 1"] by auto
qed simp

lemma av_metadata_get_bound:
  "av_metadata_get m k prev a b = Some j \<Longrightarrow> (case prev of Some p \<Rightarrow> p < j | None \<Rightarrow> True) \<and> j < length m"
  unfolding av_metadata_get_def Let_def by (drule metadata_from_bound) (auto split: option.splits)

text \<open>
  The frames from the element after \<open>prev\<close> on, and \<open>totlen\<close>; \<open>mem j\<close> says that there is memory to
  build the frame of the element \<open>j\<close>, and without it the header ends there.
\<close>

function id3v2_frames :: "(nat \<Rightarrow> bool) \<Rightarrow> AVMetadataTag list \<Rightarrow> nat option \<Rightarrow> calls \<times> nat option" where
  "id3v2_frames mem m prev =
     (case av_metadata_get m [] prev False True of
        None \<Rightarrow> ([], Some 0)
      | Some j \<Rightarrow>
          (if \<not> id3v2_known (key (m ! j)) \<and> \<not> mem j then ([], None)
           else (let (c, n) = id3v2_frame (m ! j); (cs, ns) = id3v2_frames mem m (Some j)
                 in (c @ cs, map_option (\<lambda>k. n + k) ns))))"
  by pat_completeness auto
termination
  by (relation "measure (\<lambda>(mem, m, prev). case prev of None \<Rightarrow> Suc (length m) | Some p \<Rightarrow> length m - p)")
    (auto dest!: av_metadata_get_bound split: option.splits)

declare id3v2_frames.simps [simp del]

text \<open>\<open>pos\<close> is where the writer stands at the start.\<close>

definition id3v2_head :: calls where
  "id3v2_head =
     mp3_put_be32 (rd32 [of_char (CHR ''I''), of_char (CHR ''D''), of_char (CHR ''3''), 4]) @ mp3_put_byte 0 @ mp3_put_byte 0"

definition mp3_ENOMEM :: int where "mp3_ENOMEM = 12"

definition mp3_write_header :: "(nat \<Rightarrow> bool) \<Rightarrow> nat \<Rightarrow> AVMetadataTag list \<Rightarrow> int \<times> fsop list" where
  "mp3_write_header mem pos m =
     (let size_pos = pos + blen id3v2_head;
          (frames, total) = id3v2_frames mem m None;
          cur_pos = size_pos + 4 + blen frames;
          ops = map FsWrite (id3v2_head @ mp3_put_be32 0 @ frames)
      in case total of
           None \<Rightarrow> (- mp3_ENOMEM, ops)
         | Some totlen \<Rightarrow>
             (0, ops @ [FsSeek size_pos] @ map FsWrite (id3v2_put_size (of_nat totlen)) @ [FsSeek cur_pos]))"

definition mp3_write_packet :: "AVPacket \<Rightarrow> fsop list" where
  "mp3_write_packet pkt = map FsWrite (mp3_put_buffer (data0 pkt))"

definition mp3_write_trailer :: "AVMetadataTag list \<Rightarrow> fsop list" where
  "mp3_write_trailer m =
     (let (n, buf) = id3v1_create_tag m in if n > 0 then map FsWrite (mp3_put_buffer buf) else [])"

section \<open>The driver\<close>

text \<open>The writer is there once the header has been written; without it every call fails.\<close>

definition Mp3MuxerWriteHeader :: "(nat \<Rightarrow> bool) \<Rightarrow> bool \<Rightarrow> bool \<Rightarrow> AVMetadataTag list \<Rightarrow> int \<times> bool \<times> fsop list" where
  "Mp3MuxerWriteHeader mem pb created m =
     (if pb \<and> created then (let (r, ops) = mp3_write_header mem 0 m in (r, True, ops)) else (- 1, False, []))"

definition Mp3MuxerWritePacket :: "bool \<Rightarrow> AVPacket \<Rightarrow> int \<times> fsop list" where
  "Mp3MuxerWritePacket writer pkt = (if writer then (0, mp3_write_packet pkt) else (- 1, []))"

definition Mp3MuxerWriteTrailer :: "bool \<Rightarrow> AVMetadataTag list \<Rightarrow> int \<times> fsop list" where
  "Mp3MuxerWriteTrailer writer m = (if writer then (0, mp3_write_trailer m) else (- 1, []))"

text \<open>A recording: the header, the packets, the trailer.\<close>

definition mp3_record :: "(nat \<Rightarrow> bool) \<Rightarrow> AVMetadataTag list \<Rightarrow> AVPacket list \<Rightarrow> fsop list" where
  "mp3_record mem m ps =
     (let (_, w, h) = Mp3MuxerWriteHeader mem True True m
      in h @ concat (map (\<lambda>p. snd (Mp3MuxerWritePacket w p)) ps) @ snd (Mp3MuxerWriteTrailer w m))"

section \<open>Reading the tags\<close>

text \<open>A size in the tag has seven bits in each byte.\<close>

definition synchsafe :: "byte list \<Rightarrow> nat option" where
  "synchsafe bs =
     (if length bs = 4 \<and> list_all (\<lambda>b. b < 128) bs
      then Some (unat (bs ! 0) * 2097152 + unat (bs ! 1) * 16384 + unat (bs ! 2) * 128 + unat (bs ! 3)) else None)"

definition read_text :: "byte list \<Rightarrow> byte list \<Rightarrow> AVMetadataTag option" where
  "read_text tg body =
     (if body = [] \<or> hd body \<noteq> 3 then None
      else (let s = takeWhile (\<lambda>b. b \<noteq> 0) (tl body); r = dropWhile (\<lambda>b. b \<noteq> 0) (tl body)
            in if tg = tag_bytes ''TXXX'' then Some \<lparr>key = s, value = takeWhile (\<lambda>b. b \<noteq> 0) (tl r)\<rparr>
               else Some \<lparr>key = tg, value = s\<rparr>))"

function read_frames :: "byte list \<Rightarrow> AVMetadataTag list option" where
  "read_frames bs =
     (if bs = [] then Some []
      else if length bs < 10 then None
      else do {
        n \<leftarrow> synchsafe (take 4 (drop 4 bs));
        t \<leftarrow> (if length bs < 10 + n then None else read_text (take 4 bs) (take n (drop 10 bs)));
        ts \<leftarrow> read_frames (drop (10 + n) bs);
        Some (t # ts)
      })"
  by pat_completeness auto
termination by (relation "measure length") auto

declare read_frames.simps [simp del]

definition read_id3v2 :: "byte list \<Rightarrow> (AVMetadataTag list \<times> byte list) option" where
  "read_id3v2 f =
     (if length f < 10 \<or> take 6 f \<noteq> tag_bytes ''ID3'' @ [4, 0, 0] then None
      else do {
        n \<leftarrow> synchsafe (take 4 (drop 6 f));
        ts \<leftarrow> (if length f < 10 + n then None else read_frames (take n (drop 10 f)));
        Some (ts, drop (10 + n) f)
      })"

section \<open>What the writer writes\<close>

lemma mp3_put_bytes [calls_simps]:
  "concat (mp3_put_byte b) = [ucast b]" "concat (mp3_put_buffer xs) = xs" "concat (mp3_put_be32 v) = be32 v"
  "concat (mp3_put_be16 v) = [ucast (drop_bit 8 v), ucast v]"
  by (simp_all add: mp3_put_byte_def mp3_put_buffer_def mp3_put_be32_def mp3_put_be16_def le_bytes32_bswap32)
    (simp_all add: le_bytes32_def)

definition ss_bytes :: "u32 \<Rightarrow> byte list" where
  "ss_bytes n = [ucast (and (drop_bit 21 n) 0x7f), ucast (and (drop_bit 14 n) 0x7f),
     ucast (and (drop_bit 7 n) 0x7f), ucast (and n 0x7f)]"

lemma id3v2_put_size_bytes [calls_simps]: "concat (id3v2_put_size n) = ss_bytes n"
  by (simp add: id3v2_put_size_def ss_bytes_def calls_simps)

lemma length_ss_bytes [simp]: "length (ss_bytes n) = 4"
  by (simp add: ss_bytes_def)

lemma ss_byte: "unat (ucast (and (drop_bit k n) 0x7f) :: byte) = unat (n :: u32) div 2 ^ k mod 128"
proof -
  have "(0x7f :: u32) = mask 7" by (simp add: mask_eq_exp_minus_1)
  then show ?thesis
    by (simp only: unsigned_ucast_eq unsigned_take_bit_eq unat_drop_bit_eq take_bit_eq_mask [symmetric])
      (simp add: take_bit_eq_mod drop_bit_eq_div mod_mod_cancel)
qed

lemma ss_byte_less: "(ucast (and x 0x7f) :: byte) < (128 :: byte)" for x :: u32
proof -
  have "unat (ucast (and (drop_bit 0 x) 0x7f) :: byte) < 128" by (subst ss_byte) simp
  then show ?thesis by (simp add: word_less_nat_alt)
qed

text \<open>Twenty-eight bits of the number are in the four bytes.\<close>

lemma synchsafe_ss_bytes [simp]: "synchsafe (ss_bytes n) = Some (unat n mod 2 ^ 28)"
proof -
  define m where "m = unat n"
  have "m div 2 ^ 21 mod 128 * 2097152 + m div 2 ^ 14 mod 128 * 16384 + m div 2 ^ 7 mod 128 * 128 + m div 2 ^ 0 mod 128 = m mod 2 ^ 28"
    using mod_mult2_eq [of m 128 2097152] mod_mult2_eq [of "m div 128" 128 16384] mod_mult2_eq [of "m div 16384" 128 128]
    by (simp add: div_mult2_eq [symmetric])
  then show ?thesis
    using ss_byte [of 0 n] by (simp add: synchsafe_def ss_bytes_def ss_byte_less ss_byte m_def)
qed

lemma be32_rd32: "length k = 4 \<Longrightarrow> be32 (rd32 k) = k"
proof -
  assume "length k = 4"
  then obtain a b c d where k: "k = [a, b, c, d]" by (auto simp: numeral_eq_Suc length_Suc_conv)
  have "(ucast (drop_bit 24 (rd32 k)) :: byte) = a" "(ucast (drop_bit 16 (rd32 k)) :: byte) = b"
    "(ucast (drop_bit 8 (rd32 k)) :: byte) = c" "(ucast (rd32 k) :: byte) = d"
    unfolding k rd32_def by (rule bit_word_eqI, auto simp: bit_simps dest: bit_imp_le_length)+
  then show ?thesis by (simp add: be32_def k)
qed

text \<open>The bytes of a frame, and what a reader makes of them.\<close>

definition frame_bytes :: "AVMetadataTag \<Rightarrow> byte list" where
  "frame_bytes t = concat (fst (id3v2_frame t))"

definition frame_total :: "AVMetadataTag \<Rightarrow> nat" where
  "frame_total t = snd (id3v2_frame t)"

lemma ttag_bytes [calls_simps]:
  "concat (id3v2_put_ttag buf tg) = be32 tg @ ss_bytes (of_nat (length buf + 1)) @ [0, 0, 3] @ buf"
  by (simp add: id3v2_put_ttag_def calls_simps)

lemma frame_total_eq: "length (frame_bytes t) = frame_total t"
  by (simp add: frame_bytes_def frame_total_def id3v2_frame_def Let_def calls_simps ID3v2_HEADER_SIZE_def)

lemma frame_parts: "concat (fst (id3v2_frame t)) = frame_bytes t" "snd (id3v2_frame t) = frame_total t"
  by (simp_all add: frame_bytes_def frame_total_def)

text \<open>A C string.\<close>

definition c_string :: "byte list \<Rightarrow> bool" where
  "c_string s \<longleftrightarrow> 0 \<notin> set s"

definition c_tag :: "AVMetadataTag \<Rightarrow> bool" where
  "c_tag t \<longleftrightarrow> c_string (key t) \<and> c_string (value t)"

lemma takeWhile_c: "c_string s \<Longrightarrow> takeWhile (\<lambda>b. b \<noteq> 0) (s @ 0 # r) = s"
  and dropWhile_c: "c_string s \<Longrightarrow> dropWhile (\<lambda>b. b \<noteq> 0) (s @ 0 # r) = 0 # r"
  by (auto simp: c_string_def takeWhile_tail)
    (metis (mono_tags, lifting) dropWhile.simps(2) dropWhile_append2)

lemma id3v2_known_in: "id3v2_known k \<Longrightarrow> length k = 4 \<and> k \<in> tag_bytes ` set ff_id3v2_tags"
proof -
  assume k: "id3v2_known k"
  then obtain t where t: "t \<in> set ff_id3v2_tags" "rd32 k = rd32 (tag_bytes t)" and l: "length k = 4"
    by (auto simp: id3v2_known_def list_ex_iff)
  have "\<forall>t \<in> set ff_id3v2_tags. length t = 4" by (simp add: ff_id3v2_tags_def)
  then have "length (tag_bytes t) = 4" using t(1) by simp
  from be32_rd32 [OF l] be32_rd32 [OF this] have "k = tag_bytes t" unfolding t(2) by (rule trans [OF sym])
  then have "k \<in> tag_bytes ` set ff_id3v2_tags" using t(1) by (rule image_eqI)
  with l show ?thesis by (rule conjI)
qed

lemma known_not_TXXX: "id3v2_known k \<Longrightarrow> k \<noteq> tag_bytes ''TXXX''"
proof
  assume "id3v2_known k" "k = tag_bytes ''TXXX''"
  then have "tag_bytes ''TXXX'' \<in> tag_bytes ` set ff_id3v2_tags" using id3v2_known_in [of k] by simp
  then have "''TXXX'' \<in> set ff_id3v2_tags" unfolding image_iff tag_bytes_inject by blast
  then show False by (simp add: ff_id3v2_tags_def)
qed

lemma frame_cases:
  assumes "c_tag t"
  obtains tg body where "frame_bytes t = tg @ ss_bytes (of_nat (length body)) @ [0, 0] @ body" "length tg = 4"
    "frame_total t = 10 + length body" "read_text tg body = Some t"
proof (cases "id3v2_known (key t)")
  case True
  then have l: "length (key t) = 4" using id3v2_known_in by blast
  show ?thesis
  proof (rule that [of "key t" "3 # value t @ [0]"])
    show "frame_bytes t = key t @ ss_bytes (of_nat (length (3 # value t @ [0]))) @ [0, 0] @ 3 # value t @ [0]"
      using True by (simp add: frame_bytes_def id3v2_frame_def Let_def calls_simps be32_rd32 l)
    show "read_text (key t) (3 # value t @ [0]) = Some t"
      using known_not_TXXX [OF True] takeWhile_c [of "value t" "[]"] assms by (simp add: read_text_def c_tag_def)
  qed (use True l in \<open>simp_all add: frame_total_def id3v2_frame_def Let_def ID3v2_HEADER_SIZE_def\<close>)
next
  case False
  have l: "length (tag_bytes ''TXXX'') = 4" by simp
  show ?thesis
  proof (rule that [of "tag_bytes ''TXXX''" "3 # key t @ 0 # value t @ [0]"])
    show "frame_bytes t = tag_bytes ''TXXX'' @ ss_bytes (of_nat (length (3 # key t @ 0 # value t @ [0]))) @ [0, 0] @
        3 # key t @ 0 # value t @ [0]"
      using False by (simp add: frame_bytes_def id3v2_frame_def Let_def calls_simps be32_rd32 [OF l])
    show "read_text (tag_bytes ''TXXX'') (3 # key t @ 0 # value t @ [0]) = Some t"
      using takeWhile_c [of "key t" "value t @ [0]"] dropWhile_c [of "key t" "value t @ [0]"]
        takeWhile_c [of "value t" "[]"] assms by (simp add: read_text_def c_tag_def Let_def)
  qed (use False in \<open>simp_all add: frame_total_def id3v2_frame_def Let_def ID3v2_HEADER_SIZE_def\<close>)
qed

lemma read_frame:
  assumes "c_tag t" "frame_total t < 2 ^ 28"
  shows "read_frames (frame_bytes t @ r) = do { ts \<leftarrow> read_frames r; Some (t # ts) }"
proof -
  obtain tg body where f: "frame_bytes t = tg @ ss_bytes (of_nat (length body)) @ [0, 0] @ body" "length tg = 4"
    "frame_total t = 10 + length body" "read_text tg body = Some t"
    by (rule frame_cases [OF assms(1)])
  have b: "length body < 2 ^ 28" using f(3) assms(2) by simp
  have n: "unat (of_nat (length body) :: u32) mod 2 ^ 28 = length body"
    using b by (simp only: unat_of_nat) simp
  have d: "drop (10 + length body) (tg @ ss_bytes (of_nat (length body)) @ 0 # 0 # body @ r) = r"
    "drop 10 (tg @ ss_bytes (of_nat (length body)) @ 0 # 0 # body @ r) = body @ r"
    using f(2) by simp_all
  have "synchsafe (take 4 (drop 4 (tg @ ss_bytes (of_nat (length body)) @ [0, 0] @ body @ r))) = Some (length body)"
    using f(2) n by simp
  then show ?thesis
    using f by (subst read_frames.simps) (simp add: d del: drop_append)
qed

lemma read_all_frames:
  "\<forall>t \<in> set m. c_tag t \<Longrightarrow> (\<Sum>t\<leftarrow>m. frame_total t) < 2 ^ 28 \<Longrightarrow> read_frames (concat (map frame_bytes m)) = Some m"
proof (induction m)
  case Nil
  then show ?case by (simp add: read_frames.simps)
qed (simp add: read_frame)

text \<open>The search with the empty key goes through the elements one by one.\<close>

lemma next_element:
  "av_metadata_get m [] None False True = (if m = [] then None else Some 0)"
  "av_metadata_get m [] (Some p) False True = (if Suc p < length m then Some (Suc p) else None)"
proof -
  have k: "key_prefix toupper s [] = (s, [])" for s by (cases s) simp_all
  have "metadata_from ts i [] False True = (if ts = [] then None else Some i)" for ts i
    by (cases ts) (simp_all add: k)
  then show "av_metadata_get m [] None False True = (if m = [] then None else Some 0)"
    "av_metadata_get m [] (Some p) False True = (if Suc p < length m then Some (Suc p) else None)"
    by (simp_all add: av_metadata_get_def)
qed

lemma id3v2_frames_from:
  assumes "\<forall>j < length m. mem j" "p < length m"
  shows "concat (fst (id3v2_frames mem m (Some p))) = concat (map frame_bytes (drop (Suc p) m)) \<and>
    snd (id3v2_frames mem m (Some p)) = Some (\<Sum>t\<leftarrow>drop (Suc p) m. frame_total t)"
  using assms(2)
proof (induction "length m - p" arbitrary: p rule: less_induct)
  case less
  show ?case
  proof (cases "Suc p < length m")
    case True
    then have "drop (Suc p) m = m ! Suc p # drop (Suc (Suc p)) m" by (simp add: Cons_nth_drop_Suc)
    moreover have "length m - Suc p < length m - p" using True by simp
    ultimately show ?thesis
      using less.hyps [of "Suc p"] True assms(1)
      by (subst (1 2) id3v2_frames.simps)
        (simp add: next_element Let_def case_prod_unfold frame_parts)
  next
    case False
    then show ?thesis by (simp add: id3v2_frames.simps next_element)
  qed
qed

lemma id3v2_frames_all:
  assumes "\<forall>j < length m. mem j"
  shows "concat (fst (id3v2_frames mem m None)) = concat (map frame_bytes m)"
    "snd (id3v2_frames mem m None) = Some (\<Sum>t\<leftarrow>m. frame_total t)"
proof -
  have "concat (fst (id3v2_frames mem m None)) = concat (map frame_bytes m) \<and>
    snd (id3v2_frames mem m None) = Some (\<Sum>t\<leftarrow>m. frame_total t)"
  proof (cases m)
    case Nil
    then show ?thesis by (simp add: id3v2_frames.simps next_element)
  next
    case (Cons t ts)
    then show ?thesis
      using id3v2_frames_from [OF assms, of 0] assms
      by (subst (1 2) id3v2_frames.simps)
        (simp add: next_element Let_def case_prod_unfold frame_parts)
  qed
  then show "concat (fst (id3v2_frames mem m None)) = concat (map frame_bytes m)"
    "snd (id3v2_frames mem m None) = Some (\<Sum>t\<leftarrow>m. frame_total t)" by blast+
qed

section \<open>The file\<close>

definition mp3_trailer :: "AVMetadataTag list \<Rightarrow> byte list" where
  "mp3_trailer m = (if fst (id3v1_create_tag m) > 0 then snd (id3v1_create_tag m) else [])"

definition mp3_file :: "AVMetadataTag list \<Rightarrow> AVPacket list \<Rightarrow> byte list" where
  "mp3_file m ps = tag_bytes ''ID3'' @ [4, 0, 0] @ ss_bytes (of_nat (\<Sum>t\<leftarrow>m. frame_total t)) @ concat (map frame_bytes m) @
     concat (map data0 ps) @ mp3_trailer m"

lemma length_frames: "length (concat (map frame_bytes m)) = (\<Sum>t\<leftarrow>m. frame_total t)"
  by (induction m) (simp_all add: frame_total_eq)

lemma mp3_packets_writes:
  "concat (map (\<lambda>p. snd (Mp3MuxerWritePacket True p)) ps) = map FsWrite (map data0 ps)"
  by (induction ps) (simp_all add: Mp3MuxerWritePacket_def mp3_write_packet_def mp3_put_buffer_def)

lemma mp3_trailer_writes:
  obtains tr where "snd (Mp3MuxerWriteTrailer True m) = map FsWrite tr" "concat tr = mp3_trailer m"
proof
  let ?tr = "if fst (id3v1_create_tag m) > 0 then [mp3_trailer m] else []"
  show "snd (Mp3MuxerWriteTrailer True m) = map FsWrite ?tr" "concat ?tr = mp3_trailer m"
    by (simp_all add: Mp3MuxerWriteTrailer_def mp3_write_trailer_def mp3_trailer_def mp3_put_buffer_def case_prod_unfold)
qed

lemma mp3_file_written:
  assumes "\<forall>j < length m. mem j" "length (mp3_file m ps) < max_offset"
  shows "fs_view (mp3_record mem m ps) ([], 0) = (mp3_file m ps, length (mp3_file m ps))" (is ?v)
    and "fs_fits (mp3_record mem m ps) 0" (is ?f)
proof -
  define tot where "tot = (\<Sum>t\<leftarrow>m. frame_total t)"
  define head where "head = id3v2_head"
  define fs where "fs = fst (id3v2_frames mem m None)"
  define sz where "sz = id3v2_put_size (of_nat tot)"
  have h: "concat head = tag_bytes ''ID3'' @ [4, 0, 0]"
    by (simp add: head_def id3v2_head_def calls_simps be32_rd32 tag_bytes_def)
  have f: "concat fs = concat (map frame_bytes m)" "length (concat fs) = tot"
    using id3v2_frames_all [OF assms(1)] by (simp_all add: fs_def tot_def length_frames)
  have hl: "length (concat head) = 6" by (simp add: h)
  have s: "concat sz = ss_bytes (of_nat tot)" by (simp add: sz_def calls_simps)
  obtain tr where tr: "snd (Mp3MuxerWriteTrailer True m) = map FsWrite tr" "concat tr = mp3_trailer m"
    by (rule mp3_trailer_writes)
  have r: "mp3_record mem m ps = map FsWrite (head @ mp3_put_be32 0 @ fs) @ FsSeek 6 # map FsWrite sz @
      FsSeek (10 + tot) # map FsWrite (map data0 ps @ tr)"
    using id3v2_frames_all(2) [OF assms(1)]
    by (simp add: mp3_record_def Mp3MuxerWriteHeader_def mp3_write_header_def Let_def case_prod_unfold mp3_packets_writes tr
        head_def [symmetric] fs_def [symmetric] tot_def [symmetric] sz_def [symmetric] blen_def hl f
        f(2) [unfolded f(1)])
  have b: "concat (head @ mp3_put_be32 0 @ fs) = concat head @ be32 0 @ concat fs" by (simp add: calls_simps)
  have q: "file_put (concat head @ be32 0 @ concat fs) 6 (concat sz) = concat head @ concat sz @ concat fs"
    by (rule file_put_patch) (simp_all add: hl s)
  have e: "fput ([], 0) xs = (xs, length xs)" for xs by (simp add: fput_def file_put_def)
  have p: "fs_view (mp3_record mem m ps) ([], 0) =
      fput (concat head @ concat sz @ concat fs, 10 + tot) (concat (map data0 ps @ tr))"
    unfolding r fs_view_append fs_view_writes fs_view.simps b e by (simp only: fput_def fst_conv snd_conv q)
  have l: "10 + tot = length (concat head @ concat sz @ concat fs)" by (simp add: hl s f(2))
  show ?v unfolding p l fput_def fst_conv snd_conv file_put_at_end by (simp add: mp3_file_def h s f tr tot_def)
  have "length (mp3_file m ps) = 10 + tot + length (concat (map data0 ps @ tr))"
    by (simp add: mp3_file_def tr length_frames tot_def)
  then have m: "10 + tot + length (concat (map data0 ps @ tr)) < max_offset" using assms(2) by simp
  have m0: "0 < max_offset" by (simp add: max_offset_def)
  have n: "length (concat head @ be32 0 @ concat fs) = 10 + tot" by (simp add: hl f(2))
  have "6 + length (concat sz) < max_offset" "(6 :: nat) < max_offset" by (simp_all add: s max_offset_def)
  then show ?f
    unfolding r using m m0
    by (simp only: fs_fits_writes_append fs_fits_writes fs_fits.simps b n add_0) simp
qed

section \<open>Properties\<close>

text \<open>
  C38: an MP3 recording through the write-behind cache is read back: when the strings of the metadata
  have no zero, the frames of the tag have less than 2^28 bytes and there is memory to build them,
  the file starts with an ID3v2.4 tag whose patched size ends where the audio starts and whose
  frames give back every element of the metadata in order (the known keys as text frames, the
  others as TXXX frames); then come the packets and, when an element has a field there, the
  ID3v1 tag.
\<close>

theorem mp3_recording_reads_back:
  assumes "\<forall>t \<in> set m. c_tag t" "(\<Sum>t\<leftarrow>m. frame_total t) < 2 ^ 28" "\<forall>j < length m. mem j"
    and "length (mp3_file m ps) < max_offset" "sc_inv w" "sc_view w = ([], 0)"
  shows "read_id3v2 (fst (sc_disk (fs_simple.run_ops (mp3_record mem m ps @ [FsFlush]) w))) =
    Some (m, concat (map data0 ps) @ mp3_trailer m)"
proof -
  define tot where "tot = (\<Sum>t\<leftarrow>m. frame_total t)"
  have t: "unat (of_nat tot :: u32) mod 2 ^ 28 = tot"
    using assms(2) unfolding tot_def [symmetric] by (simp only: unat_of_nat) simp
  have l: "length (concat (map frame_bytes m)) = tot" by (simp add: length_frames tot_def)
  have r: "read_frames (concat (map frame_bytes m)) = Some m" by (rule read_all_frames [OF assms(1,2)])
  define fs where "fs = concat (map frame_bytes m)"
  define rest where "rest = concat (map data0 ps) @ mp3_trailer m"
  define f where "f = tag_bytes ''ID3'' @ [4, 0, 0] @ ss_bytes (of_nat tot) @ fs @ rest"
  have "length f = 10 + tot + length rest" "take 6 f = tag_bytes ''ID3'' @ [4, 0, 0]"
    "take 4 (drop 6 f) = ss_bytes (of_nat tot)" "drop 10 f = fs @ rest"
    using l by (simp_all add: f_def tag_bytes_def fs_def)
  moreover from this(4) have "take tot (drop 10 f) = fs" "drop (10 + tot) f = rest"
    using l by (simp_all add: fs_def flip: drop_drop add: add.commute)
  ultimately have "read_id3v2 f = Some (m, rest)"
    using r t by (simp add: read_id3v2_def fs_def)
  then have "read_id3v2 (mp3_file m ps) = Some (m, concat (map data0 ps) @ mp3_trailer m)"
    by (simp add: f_def fs_def rest_def mp3_file_def tot_def)
  moreover have "sc_disk (fs_simple.run_ops (mp3_record mem m ps @ [FsFlush]) w) = (mp3_file m ps, length (mp3_file m ps))"
    using fs_simple.run_ops_flush [OF assms(5), of "mp3_record mem m ps"] mp3_file_written [OF assms(3,4)] assms(6) by simp
  ultimately show ?thesis by simp
qed

text \<open>The fields of the last tag.\<close>

definition id3v1_field :: "AVMetadataTag list \<Rightarrow> string \<Rightarrow> nat \<Rightarrow> byte list" where
  "id3v1_field m k n =
     (case av_metadata_get m (tag_bytes k) None False False of
        None \<Rightarrow> replicate n 0
      | Some j \<Rightarrow> take n (value (m ! j)) @ replicate (n - length (value (m ! j))) 0)"

definition id3v1_comment :: "AVMetadataTag list \<Rightarrow> byte list" where
  "id3v1_comment m =
     (case av_metadata_get m (tag_bytes ''track'') None False False of
        None \<Rightarrow> id3v1_field m ''comment'' 30
      | Some j \<Rightarrow> take 28 (id3v1_field m ''comment'' 30) @ [0, of_int (atoi (value (m ! j)))])"

definition id3v1_genre :: "AVMetadataTag list \<Rightarrow> byte" where
  "id3v1_genre m =
     (case av_metadata_get m (tag_bytes ''genre'') None False False of
        None \<Rightarrow> 255
      | Some j \<Rightarrow> (case find_genre (value (m ! j)) 0 ff_id3v1_genre_str of None \<Rightarrow> 255 | Some i \<Rightarrow> of_nat i))"

lemma length_id3v1_field [simp]: "length (id3v1_field m k n) = n"
  by (auto simp: id3v1_field_def split: option.split)

lemma set_string_field:
  "length a = off \<Longrightarrow> snd (id3v1_set_string m k off n (a @ replicate n 0 @ b)) = a @ id3v1_field m k n @ b"
  by (simp add: id3v1_set_string_def id3v1_field_def strncpy_at_def mem_put_def split: option.split)

lemma last_two: "length c = n + 2 \<Longrightarrow> c[n := a, n + 1 := b] = take n c @ [a, b]"
  by (rule nth_equalityI) (auto simp: nth_append nth_list_update nth_Cons split: nat.split)

lemma length_id3v1_comment: "length (id3v1_comment m) = 30"
  by (simp add: id3v1_comment_def split: option.split)

lemma id3v1_create_tag_eq:
  "snd (id3v1_create_tag m) =
    tag_bytes ''TAG'' @ id3v1_field m ''title'' 30 @ id3v1_field m ''author'' 30 @ id3v1_field m ''album'' 30 @
    id3v1_field m ''date'' 4 @ id3v1_comment m @ [id3v1_genre m]"
proof -
  define P where "P = tag_bytes ''TAG'' @ id3v1_field m ''title'' 30 @ id3v1_field m ''author'' 30 @
    id3v1_field m ''album'' 30 @ id3v1_field m ''date'' 4"
  have b0: "(replicate ID3v1_TAG_SIZE 0)[0 := of_char (CHR ''T''), 1 := of_char (CHR ''A''), 2 := of_char (CHR ''G'')] =
      tag_bytes ''TAG'' @ replicate 30 0 @ replicate 30 0 @ replicate 30 0 @ replicate 4 0 @ replicate 30 0 @ [0]"
    by (simp add: ID3v1_TAG_SIZE_def numeral_eq_Suc tag_bytes_def)
  note parts = set_string_field [of "tag_bytes ''TAG''" 3 m "''title''" 30]
    set_string_field [of "tag_bytes ''TAG'' @ id3v1_field m ''title'' 30" 33 m "''author''" 30]
    set_string_field [of "tag_bytes ''TAG'' @ id3v1_field m ''title'' 30 @ id3v1_field m ''author'' 30" 63 m "''album''" 30]
    set_string_field [of "tag_bytes ''TAG'' @ id3v1_field m ''title'' 30 @ id3v1_field m ''author'' 30 @
      id3v1_field m ''album'' 30" 93 m "''date''" 4]
    set_string_field [of P 97 m "''comment''" 30]
  have P: "length P = 97" by (simp add: P_def)
  have e: "tag_bytes ''TAG'' @ id3v1_field m ''title'' 30 @ id3v1_field m ''author'' 30 @
    id3v1_field m ''album'' 30 @ id3v1_field m ''date'' 4 @ r = P @ r" for r by (simp add: P_def)
  have upd: "(P @ c @ [g])[127 := g'] = P @ c @ [g']" "(P @ c @ [g])[125 := 0, 126 := x] = P @ take 28 c @ [0, x] @ [g]"
    "(P @ take 28 c @ [0, x, g])[127 := g'] = P @ take 28 c @ [0, x, g']"
    if "length c = 30" for c g g' x
    using P that last_two [of c 28] by (simp_all add: list_update_append)
  show ?thesis
    unfolding id3v1_create_tag_def Let_def case_prod_unfold b0
    using P by (simp add: parts [unfolded append_assoc] P upd e id3v1_comment_def id3v1_genre_def split: option.split)
qed

definition mp3_demo_tags :: "AVMetadataTag list" where
  "mp3_demo_tags =
     [\<lparr>key = tag_bytes ''TIT2'', value = tag_bytes ''Song''\<rparr>, \<lparr>key = tag_bytes ''genre'', value = tag_bytes ''pop''\<rparr>]"

definition mp3_demo_packets :: "AVPacket list" where
  "mp3_demo_packets = [\<lparr>data0 = [0xff, 0xfb, 1], data1 = [], stream_index = 0, flags = 0, duration = 0\<rparr>]"

definition mp3_demo_cache :: fs_simple_cache where
  "mp3_demo_cache =
     the (initFsSimpleCache True True True [0, 0, 0]
       (demo_stream []\<lparr>s_file := \<lparr>p_data = [], p_pos = 0, p_errno = 0, p_calls = 0, p_outcomes = demo_outcomes []\<rparr>, cur_offset := 0\<rparr>) 3)"

lemma mp3_recording_reads_back_witness:
  "read_id3v2 (fst (sc_disk (fs_simple.run_ops (mp3_record (\<lambda>_. True) mp3_demo_tags mp3_demo_packets @ [FsFlush])
      mp3_demo_cache))) = Some (mp3_demo_tags, [0xff, 0xfb, 1] @ mp3_trailer mp3_demo_tags)"
proof -
  have w: "sc_inv mp3_demo_cache" "sc_view mp3_demo_cache = ([], 0)"
    by (simp_all add: mp3_demo_cache_def initFsSimpleCache_def sc_inv_def sc_view_def stream_ok_def
        stream_view_def demo_stream_def EIO_def max_offset_def)
  have c: "\<forall>t \<in> set mp3_demo_tags. c_tag t"
    by (simp add: mp3_demo_tags_def c_tag_def c_string_def tag_bytes_def of_char_def)
  have t: "(\<Sum>t\<leftarrow>mp3_demo_tags. frame_total t) < 28 + 30"
    by (simp add: mp3_demo_tags_def frame_total_def id3v2_frame_def Let_def ID3v2_HEADER_SIZE_def)
  have l: "length (mp3_trailer m) \<le> 128" for m by (simp add: mp3_trailer_def id3v1_create_tag_eq length_id3v1_comment)
  have "length (mp3_file mp3_demo_tags mp3_demo_packets) < max_offset"
    using l [of mp3_demo_tags] t by (simp add: mp3_file_def length_frames mp3_demo_packets_def max_offset_def)
  moreover have "(\<Sum>t\<leftarrow>mp3_demo_tags. frame_total t) < 2 ^ 28" using t by simp
  ultimately show ?thesis
    using mp3_recording_reads_back [of mp3_demo_tags "\<lambda>_. True" mp3_demo_packets mp3_demo_cache] c w
    by (simp add: mp3_demo_packets_def)
qed

text \<open>
  The ID3v1 tag has 128 bytes in the fixed layout: the mark, the title, the author, the album
  and the comment cut or padded to thirty bytes and the date to four, the last two bytes of the
  comment taken by the track number when there is one, and the index of the genre, 255 without
  one of the table.
\<close>

theorem id3v1_tag_layout:
  "snd (id3v1_create_tag m) =
    tag_bytes ''TAG'' @ id3v1_field m ''title'' 30 @ id3v1_field m ''author'' 30 @ id3v1_field m ''album'' 30 @
    id3v1_field m ''date'' 4 @ id3v1_comment m @ [id3v1_genre m]"
  by (rule id3v1_create_tag_eq)

end
