(* ===== verification/MuxDrv.thy ===== *)
theory MuxDrv
  imports FsCache TsMux Mp4Index
begin

text \<open>
  What the muxers open and close: the streams and writers that the commands of a muxer create, the
  temporary files of the MP4 muxer, and \<open>Close\<close>
  (libstream/cedarx_outstream.c, libmuxer/mp4_muxer/Mp4MuxerDrv.c, mpeg2ts_muxer/Mpeg2tsMuxerDrv.c,
  aac_muxer/AacMuxer.c, mp3_muxer/Mp3Muxer.c, muxers/record_writer.c). What \<open>SETAVPARA\<close>,
  \<open>SETTOTALTIME\<close>, the parameter sets and the packets do to the contents is in the theories of the
  muxers; here they only count for what they open.
\<close>

section \<open>Streams and writers\<close>

text \<open>
  The system: the live streams and writers by number, a writer with the stream it writes to, the
  temporary files on the disk, and the outcomes of the next attempts to open a file and to make a
  writer (success when the list is used up).
\<close>

datatype stream_kind = Stream_file | Stream_external | Stream_network

record system =
  sy_streams :: "(nat \<times> stream_kind) list"
  sy_writers :: "(nat \<times> nat) list"
  sy_tmp :: "(CHUNKID \<times> nat) list"
  sy_next :: nat
  sy_opens :: "bool list"
  sy_makes :: "bool list"

datatype source = Source_fd u32 | Source_path string | Source_callback

definition lower :: "char \<Rightarrow> char" where
  "lower c = (if of_char c \<in> {65..90::nat} then char_of (of_char c + 32 :: nat) else c)"

text \<open>\<open>strncasecmp("http://", url, 7) == 0\<close>\<close>

definition is_http :: "string \<Rightarrow> bool" where
  "is_http url \<longleftrightarrow> map lower (take 7 url) = ''http://''"

definition add_stream :: "stream_kind \<Rightarrow> system \<Rightarrow> nat option \<times> system" where
  "add_stream k s = (Some (sy_next s), s\<lparr>sy_streams := sy_streams s @ [(sy_next s, k)], sy_next := sy_next s + 1\<rparr>)"

text \<open>
  A network stream is made without any of its operations: their constructor is not called. A stream
  on a descriptor is made also when the descriptor cannot be duplicated; a path can fail to open.
\<close>

definition create_outstream_handle :: "source \<Rightarrow> system \<Rightarrow> nat option \<times> system" where
  "create_outstream_handle src s =
     (case src of
        Source_callback \<Rightarrow> add_stream Stream_external s
      | Source_fd fd \<Rightarrow> add_stream Stream_file s
      | Source_path url \<Rightarrow>
          if is_http url then add_stream Stream_network s
          else
            let s1 = s\<lparr>sy_opens := tl (sy_opens s)\<rparr>
            in if sy_opens s \<noteq> [] \<and> \<not> hd (sy_opens s) then (None, s1) else add_stream Stream_file s1)"

text \<open>\<open>None\<close>: the handle is not live, or its \<open>destory\<close> is a null pointer.\<close>

definition destroy_outstream_handle :: "nat \<Rightarrow> system \<Rightarrow> system option" where
  "destroy_outstream_handle h s =
     (case map_of (sy_streams s) h of
        None \<Rightarrow> None
      | Some Stream_network \<Rightarrow> None
      | Some _ \<Rightarrow> Some (s\<lparr>sy_streams := filter (\<lambda>(i, _). i \<noteq> h) (sy_streams s)\<rparr>))"

text \<open>
  \<open>createFsWriter\<close>: the mode is one of the three, the size of a cache in memory is positive, and
  what is asked of the system can be had.
\<close>

definition make_writer :: "int \<Rightarrow> int \<Rightarrow> nat \<Rightarrow> system \<Rightarrow> nat option \<times> system" where
  "make_writer mode nsize h s =
     (if mode \<notin> {FSWRITEMODE_CACHETHREAD, FSWRITEMODE_SIMPLECACHE, FSWRITEMODE_DIRECT}
         \<or> mode = FSWRITEMODE_SIMPLECACHE \<and> nsize \<le> 0 then (None, s)
      else
        let s1 = s\<lparr>sy_makes := tl (sy_makes s)\<rparr>
        in if sy_makes s \<noteq> [] \<and> \<not> hd (sy_makes s) then (None, s1)
           else (Some (sy_next s), s1\<lparr>sy_writers := sy_writers s @ [(sy_next s, h)], sy_next := sy_next s + 1\<rparr>))"

text \<open>Destroying a writer flushes it: its stream is used.\<close>

definition destroyFsWriter :: "nat \<Rightarrow> system \<Rightarrow> system option" where
  "destroyFsWriter k s =
     (case map_of (sy_writers s) k of
        None \<Rightarrow> None
      | Some h \<Rightarrow> if h \<in> fst ` set (sy_streams s)
                   then Some (s\<lparr>sy_writers := filter (\<lambda>(i, _). i \<noteq> k) (sy_writers s)\<rparr>) else None)"

section \<open>The context and the commands\<close>

record mux_ctx =
  pb_cache :: "nat option"
  OutStreamHandle :: "nat option"
  mpFsWriter :: "nat option"
  mFallocateLen :: u32
  mbSdcardDisappear :: bool
  mCacheMemInfo :: "bool \<times> u32"
  mFsWriteMode :: u32
  mFsSimpleCacheSize :: u32
  output_buffer_mode :: output_mode
  stream_callback :: "nat option"
  page_fd :: "((CHUNKID \<times> nat) \<times> nat) list"

definition new_ctx :: mux_ctx where
  "new_ctx = \<lparr>pb_cache = None, OutStreamHandle = None, mpFsWriter = None, mFallocateLen = 0,
     mbSdcardDisappear = False, mCacheMemInfo = (False, 0), mFsWriteMode = 0, mFsSimpleCacheSize = 0,
     output_buffer_mode = OUTPUT_TS_FILE, stream_callback = None, page_fd = []\<rparr>"

datatype command =
    SETAVPARA | SETTOTALTIME u32 | SETFALLOCATELEN u32 | SETCACHEFD string | SETCACHEFD2 u32
  | SETOUTURL string | REGISTER_WRITE_CALLBACK | SETSDCARDSTATE u32 | SETCACHEMEM bool u32
  | SET_FS_WRITE_MODE u32 | SET_FS_SIMPLE_CACHE_SIZE u32 | SET_STREAM_CALLBACK

type_synonym mux = "mux_ctx \<times> system"

text \<open>What the commands that open a stream share: the stream before is forgotten, also when the open fails.\<close>

definition open_pb :: "source \<Rightarrow> mux \<Rightarrow> int \<times> mux" where
  "open_pb src m =
     (let (h, s) = create_outstream_handle src (snd m)
      in (if h = None then - 1 else 0, (fst m)\<lparr>pb_cache := h\<rparr>, s))"

definition register_callback :: "mux \<Rightarrow> int \<times> mux" where
  "register_callback m =
     (case OutStreamHandle (fst m) of
        Some _ \<Rightarrow> (0, m)
      | None \<Rightarrow>
          let (h, s) = create_outstream_handle Source_callback (snd m)
          in (if h = None then - 1 else 0, (fst m)\<lparr>OutStreamHandle := h\<rparr>, s))"

definition set_stream_callback :: "mux_ctx \<Rightarrow> mux_ctx" where
  "set_stream_callback c = (if pb_cache c \<noteq> None then c\<lparr>stream_callback := pb_cache c\<rparr> else c)"

fun Mp4MuxerIoctrl :: "command \<Rightarrow> mux \<Rightarrow> int \<times> mux" where
  "Mp4MuxerIoctrl (SETFALLOCATELEN n) (c, s) = (0, c\<lparr>mFallocateLen := n\<rparr>, s)"
| "Mp4MuxerIoctrl (SETCACHEFD url) m = open_pb (Source_path url) m"
| "Mp4MuxerIoctrl (SETCACHEFD2 fd) m = open_pb (Source_fd fd) m"
| "Mp4MuxerIoctrl REGISTER_WRITE_CALLBACK m = register_callback m"
| "Mp4MuxerIoctrl (SETSDCARDSTATE p) (c, s) = (0, c\<lparr>mbSdcardDisappear := (p = 0)\<rparr>, s)"
| "Mp4MuxerIoctrl (SETCACHEMEM cache n) (c, s) = (0, c\<lparr>mCacheMemInfo := (cache, n)\<rparr>, s)"
| "Mp4MuxerIoctrl (SET_FS_WRITE_MODE p) (c, s) = (0, c\<lparr>mFsWriteMode := p\<rparr>, s)"
| "Mp4MuxerIoctrl (SET_FS_SIMPLE_CACHE_SIZE p) (c, s) = (0, c\<lparr>mFsSimpleCacheSize := p\<rparr>, s)"
| "Mp4MuxerIoctrl SET_STREAM_CALLBACK (c, s) = (0, set_stream_callback c, s)"
| "Mp4MuxerIoctrl _ m = (0, m)"

fun Mpeg2tsMuxerIoctrl :: "command \<Rightarrow> mux \<Rightarrow> int \<times> mux" where
  "Mpeg2tsMuxerIoctrl (SETFALLOCATELEN n) (c, s) = (0, c\<lparr>mFallocateLen := n\<rparr>, s)"
| "Mpeg2tsMuxerIoctrl (SETCACHEFD url) m =
     (let (r, c, s) = open_pb (Source_path url) m
      in if r < 0 then (r, c, s) else (r, c\<lparr>output_buffer_mode := OUTPUT_TS_FILE\<rparr>, s))"
| "Mpeg2tsMuxerIoctrl (SETCACHEFD2 fd) m =
     (let (r, c, s) = open_pb (Source_fd fd) m
      in if r < 0 then (r, c, s) else (r, c\<lparr>output_buffer_mode := OUTPUT_TS_FILE\<rparr>, s))"
| "Mpeg2tsMuxerIoctrl REGISTER_WRITE_CALLBACK (c, s) =
     register_callback (c\<lparr>output_buffer_mode := OUTPUT_CALLBACK_BUFFER\<rparr>, s)"
| "Mpeg2tsMuxerIoctrl (SETCACHEMEM cache n) (c, s) = (0, c\<lparr>mCacheMemInfo := (cache, n)\<rparr>, s)"
| "Mpeg2tsMuxerIoctrl (SET_FS_WRITE_MODE p) (c, s) = (0, c\<lparr>mFsWriteMode := p\<rparr>, s)"
| "Mpeg2tsMuxerIoctrl (SET_FS_SIMPLE_CACHE_SIZE p) (c, s) = (0, c\<lparr>mFsSimpleCacheSize := p\<rparr>, s)"
| "Mpeg2tsMuxerIoctrl SET_STREAM_CALLBACK (c, s) = (0, set_stream_callback c, s)"
| "Mpeg2tsMuxerIoctrl _ m = (0, m)"

fun AacMuxerIoctrl :: "command \<Rightarrow> mux \<Rightarrow> int \<times> mux" where
  "AacMuxerIoctrl (SETFALLOCATELEN n) (c, s) = (0, c\<lparr>mFallocateLen := n\<rparr>, s)"
| "AacMuxerIoctrl (SETCACHEFD url) m = open_pb (Source_path url) m"
| "AacMuxerIoctrl (SETCACHEFD2 fd) m = open_pb (Source_fd fd) m"
| "AacMuxerIoctrl (SETSDCARDSTATE p) (c, s) = (0, c\<lparr>mbSdcardDisappear := (p = 0)\<rparr>, s)"
| "AacMuxerIoctrl (SETCACHEMEM cache n) (c, s) = (0, c\<lparr>mCacheMemInfo := (cache, n)\<rparr>, s)"
| "AacMuxerIoctrl (SET_FS_WRITE_MODE p) (c, s) = (0, c\<lparr>mFsWriteMode := p\<rparr>, s)"
| "AacMuxerIoctrl (SET_FS_SIMPLE_CACHE_SIZE p) (c, s) = (0, c\<lparr>mFsSimpleCacheSize := p\<rparr>, s)"
| "AacMuxerIoctrl _ m = (0, m)"

fun Mp3MuxerIoctrl :: "command \<Rightarrow> mux \<Rightarrow> int \<times> mux" where
  "Mp3MuxerIoctrl (SETFALLOCATELEN n) (c, s) = (0, c\<lparr>mFallocateLen := n\<rparr>, s)"
| "Mp3MuxerIoctrl (SETCACHEFD url) m = open_pb (Source_path url) m"
| "Mp3MuxerIoctrl (SETCACHEFD2 fd) m = open_pb (Source_fd fd) m"
| "Mp3MuxerIoctrl (SETSDCARDSTATE p) (c, s) = (0, c\<lparr>mbSdcardDisappear := (p = 0)\<rparr>, s)"
| "Mp3MuxerIoctrl (SETCACHEMEM cache n) (c, s) = (0, c\<lparr>mCacheMemInfo := (cache, n)\<rparr>, s)"
| "Mp3MuxerIoctrl (SET_FS_WRITE_MODE p) (c, s) = (0, c\<lparr>mFsWriteMode := p\<rparr>, s)"
| "Mp3MuxerIoctrl (SET_FS_SIMPLE_CACHE_SIZE p) (c, s) = (0, c\<lparr>mFsSimpleCacheSize := p\<rparr>, s)"
| "Mp3MuxerIoctrl _ m = (0, m)"

text \<open>The raw muxer writes to one stream only, and opens it once.\<close>

definition open_once :: "source \<Rightarrow> mux \<Rightarrow> int \<times> mux" where
  "open_once src m =
     (case OutStreamHandle (fst m) of
        Some _ \<Rightarrow> (0, m)
      | None \<Rightarrow>
          let (h, s) = create_outstream_handle src (snd m)
          in (if h = None then - 1 else 0, (fst m)\<lparr>OutStreamHandle := h\<rparr>, s))"

fun RawMuxerIoctrl :: "command \<Rightarrow> mux \<Rightarrow> int \<times> mux" where
  "RawMuxerIoctrl (SETCACHEFD2 fd) m = open_once (Source_fd fd) m"
| "RawMuxerIoctrl (SETOUTURL url) m = open_once (Source_path url) m"
| "RawMuxerIoctrl REGISTER_WRITE_CALLBACK m = open_once Source_callback m"
| "RawMuxerIoctrl _ m = (0, m)"

section \<open>The header\<close>

text \<open>The mode of the writer and the size of its cache.\<close>

definition header_mode :: "mux_ctx \<Rightarrow> int \<times> int" where
  "header_mode c =
     (if uint (mFsWriteMode c) = FSWRITEMODE_CACHETHREAD
      then if snd (mCacheMemInfo c) > 0 \<and> fst (mCacheMemInfo c)
           then (FSWRITEMODE_CACHETHREAD, uint (snd (mCacheMemInfo c)))
           else (FSWRITEMODE_DIRECT, 0)
      else if uint (mFsWriteMode c) = FSWRITEMODE_SIMPLECACHE
      then (FSWRITEMODE_SIMPLECACHE, sint (mFsSimpleCacheSize c))
      else (uint (mFsWriteMode c), 0))"

definition header_writer :: "mux \<Rightarrow> int \<times> mux" where
  "header_writer m =
     (case pb_cache (fst m) of
        None \<Rightarrow> (0, m)
      | Some h \<Rightarrow>
          let (mode, nsize) = header_mode (fst m);
              (k, s) = make_writer mode nsize h (snd m)
          in (if k = None then - 1 else 0, (fst m)\<lparr>mpFsWriter := k\<rparr>, s))"

text \<open>
  MP4 and TS refuse a second header. The MP4 muxer writes the header at once, through a null pointer
  (\<open>None\<close>) when no file has been set; the MP3 muxer returns an error then. What a header contains is
  in the theories of the muxers.
\<close>

definition Mp4MuxerWriteHeader :: "mux \<Rightarrow> (int \<times> mux) option" where
  "Mp4MuxerWriteHeader m =
     (if mpFsWriter (fst m) \<noteq> None then Some (- 1, m)
      else
        let (r, m1) = header_writer m
        in if r < 0 then Some (- 1, m1)
           else if mpFsWriter (fst m1) = None then None
           else Some (0, m1))"

definition Mpeg2tsMuxerWriteHeader :: "mux \<Rightarrow> (int \<times> mux) option" where
  "Mpeg2tsMuxerWriteHeader m =
     (if mpFsWriter (fst m) \<noteq> None then Some (- 1, m) else Some (header_writer m))"

definition AacMuxerWriteHeader_fd :: "mux \<Rightarrow> (int \<times> mux) option" where
  "AacMuxerWriteHeader_fd m = Some (header_writer m)"

definition Mp3MuxerWriteHeader_fd :: "mux \<Rightarrow> (int \<times> mux) option" where
  "Mp3MuxerWriteHeader_fd m =
     (let (r, m1) = header_writer m
      in if r < 0 then Some (- 1, m1)
         else if mpFsWriter (fst m1) \<noteq> None then Some (0, m1)
         else Some (- 1, m1))"

definition RawMuxerWriteHeader_fd :: "mux \<Rightarrow> (int \<times> mux) option" where
  "RawMuxerWriteHeader_fd m = Some (0, m)"

section \<open>The temporary files of the MP4 muxer\<close>

definition movTmpPath :: "CHUNKID \<times> nat \<Rightarrow> string" where
  "movTmpPath f =
     ''/mnt/extsd/mp4tmp/mov_'' @
     (case fst f of STSZ_ID \<Rightarrow> ''stsz'' | STTS_ID \<Rightarrow> ''stts'' | STCO_ID \<Rightarrow> ''stco'' | STSC_ID \<Rightarrow> ''stsc'') @
     ''_muxer_''"

text \<open>
  \<open>openMovTmpFile\<close>. The number of the stream and the address of the muxer that end the name stand
  in the pair \<open>f\<close>: the files of one muxer have different names.
\<close>

definition openMovTmpFile :: "CHUNKID \<times> nat \<Rightarrow> mux \<Rightarrow> bool \<times> mux" where
  "openMovTmpFile f m =
     (let (h, s) = create_outstream_handle (Source_path (movTmpPath f)) (snd m)
      in case h of
           None \<Rightarrow> (False, fst m, s)
         | Some k \<Rightarrow>
             (True, (fst m)\<lparr>page_fd := page_fd (fst m) @ [(f, k)]\<rparr>, s\<lparr>sy_tmp := sy_tmp s @ [f]\<rparr>))"

fun open_pages :: "(CHUNKID \<times> nat) list \<Rightarrow> mux \<Rightarrow> int \<times> mux" where
  "open_pages [] m = (0, m)"
| "open_pages (f # fs) m =
     (if f \<in> fst ` set (page_fd (fst m)) then open_pages fs m
      else
        let (ok, m1) = openMovTmpFile f m
        in if ok then open_pages fs m1 else (- 1, m1))"

text \<open>A packet that fills a table: the files are made unless the first of them is open.\<close>

definition mov_spill :: "mux \<Rightarrow> int \<times> mux" where
  "mov_spill m =
     (if mpFsWriter (fst m) = None then (- 1, m)
      else if (STSZ_ID, 0) \<in> fst ` set (page_fd (fst m)) then (0, m)
      else open_pages tmp_list m)"

section \<open>Close\<close>

text \<open>Every pointer is tested before it is used; \<open>None\<close> is a fault of the operation behind it.\<close>

fun close_pages :: "(CHUNKID \<times> nat) list \<Rightarrow> mux \<Rightarrow> mux option" where
  "close_pages [] m = Some m"
| "close_pages (f # fs) (c, s) =
     (case map_of (page_fd c) f of
        None \<Rightarrow> close_pages fs (c, s)
      | Some h \<Rightarrow>
          Option.bind (destroy_outstream_handle h s) (\<lambda>s1.
            close_pages fs
              (c\<lparr>page_fd := filter (\<lambda>(g, _). g \<noteq> f) (page_fd c)\<rparr>,
               if mbSdcardDisappear c then s1 else s1\<lparr>sy_tmp := filter (\<lambda>g. g \<noteq> f) (sy_tmp s1)\<rparr>)))"

definition close_list :: "(CHUNKID \<times> nat) list" where
  "close_list = concat (map (\<lambda>i. [(STTS_ID, i), (STSZ_ID, i), (STCO_ID, i), (STSC_ID, i)]) [0, 1, 2])"

definition close_writer :: "mux \<Rightarrow> mux option" where
  "close_writer m =
     (case mpFsWriter (fst m) of
        None \<Rightarrow> Some m
      | Some k \<Rightarrow> map_option (\<lambda>s. ((fst m)\<lparr>mpFsWriter := None\<rparr>, s)) (destroyFsWriter k (snd m)))"

definition close_pb :: "mux \<Rightarrow> mux option" where
  "close_pb m =
     (case pb_cache (fst m) of
        None \<Rightarrow> Some m
      | Some h \<Rightarrow> map_option (\<lambda>s. ((fst m)\<lparr>pb_cache := None\<rparr>, s)) (destroy_outstream_handle h (snd m)))"

definition close_out :: "mux \<Rightarrow> mux option" where
  "close_out m =
     (case OutStreamHandle (fst m) of
        None \<Rightarrow> Some m
      | Some h \<Rightarrow> map_option (\<lambda>s. ((fst m)\<lparr>OutStreamHandle := None\<rparr>, s)) (destroy_outstream_handle h (snd m)))"

definition Mp4MuxerClose :: "mux \<Rightarrow> mux option" where
  "Mp4MuxerClose m =
     Option.bind (close_pages close_list m) (\<lambda>m1. Option.bind (close_writer m1) close_pb)"

definition Mpeg2tsMuxerClose :: "mux \<Rightarrow> mux option" where
  "Mpeg2tsMuxerClose m =
     Option.bind (close_writer m) (\<lambda>m1.
       Option.bind (if output_buffer_mode (fst m1) = OUTPUT_TS_FILE then close_pb m1 else Some m1) close_out)"

definition AacMuxerClose :: "mux \<Rightarrow> mux option" where
  "AacMuxerClose m = Option.bind (close_writer m) close_pb"

definition Mp3MuxerClose :: "mux \<Rightarrow> mux option" where
  "Mp3MuxerClose m = Option.bind (close_writer m) close_pb"

definition RawMuxerClose :: "mux \<Rightarrow> mux option" where
  "RawMuxerClose m = close_out m"

section \<open>The table of muxers\<close>

text \<open>
  The functions of a muxer, as far as they open or close something: \<open>MuxerWritePacket\<close> is here what a
  packet opens, and \<open>MuxerWriteExtraData\<close> and \<open>MuxerWriteTrailer\<close> open and close nothing. The
  handle is freed by \<open>MuxerClose\<close>.
\<close>

record CDX_RecordWriter =
  MuxerOpen :: mux_ctx
  MuxerClose :: "mux \<Rightarrow> mux option"
  MuxerWriteHeader :: "mux \<Rightarrow> (int \<times> mux) option"
  MuxerWritePacket :: "mux \<Rightarrow> int \<times> mux"
  MuxerIoctrl :: "command \<Rightarrow> mux \<Rightarrow> int \<times> mux"

definition record_writer_mp4 :: CDX_RecordWriter where
  "record_writer_mp4 = \<lparr>MuxerOpen = new_ctx, MuxerClose = Mp4MuxerClose,
     MuxerWriteHeader = Mp4MuxerWriteHeader, MuxerWritePacket = mov_spill, MuxerIoctrl = Mp4MuxerIoctrl\<rparr>"

definition record_writer_mpeg2ts :: CDX_RecordWriter where
  "record_writer_mpeg2ts = \<lparr>MuxerOpen = new_ctx, MuxerClose = Mpeg2tsMuxerClose,
     MuxerWriteHeader = Mpeg2tsMuxerWriteHeader, MuxerWritePacket = Pair 0, MuxerIoctrl = Mpeg2tsMuxerIoctrl\<rparr>"

definition record_writer_aac :: CDX_RecordWriter where
  "record_writer_aac = \<lparr>MuxerOpen = new_ctx, MuxerClose = AacMuxerClose,
     MuxerWriteHeader = AacMuxerWriteHeader_fd, MuxerWritePacket = Pair 0, MuxerIoctrl = AacMuxerIoctrl\<rparr>"

definition record_writer_mp3 :: CDX_RecordWriter where
  "record_writer_mp3 = \<lparr>MuxerOpen = new_ctx, MuxerClose = Mp3MuxerClose,
     MuxerWriteHeader = Mp3MuxerWriteHeader_fd, MuxerWritePacket = Pair 0, MuxerIoctrl = Mp3MuxerIoctrl\<rparr>"

definition record_writer_raw :: CDX_RecordWriter where
  "record_writer_raw = \<lparr>MuxerOpen = new_ctx, MuxerClose = RawMuxerClose,
     MuxerWriteHeader = RawMuxerWriteHeader_fd, MuxerWritePacket = Pair 0, MuxerIoctrl = RawMuxerIoctrl\<rparr>"

text \<open>\<open>MUXERMODES\<close>\<close>

definition MUXER_MODE_MP4 :: int where "MUXER_MODE_MP4 = 0"
definition MUXER_MODE_MP3 :: int where "MUXER_MODE_MP3 = 1"
definition MUXER_MODE_AAC :: int where "MUXER_MODE_AAC = 2"
definition MUXER_MODE_AWTS :: int where "MUXER_MODE_AWTS = 3"
definition MUXER_MODE_RAW :: int where "MUXER_MODE_RAW = 4"
definition MUXER_MODE_TS :: int where "MUXER_MODE_TS = 5"

text \<open>\<open>linux\<close> says whether \<open>__OS_LINUX\<close> is defined.\<close>

definition cedarx_record_writer :: "bool \<Rightarrow> CDX_RecordWriter option list" where
  "cedarx_record_writer linux =
     [Some record_writer_mp4, Some record_writer_mp3, Some record_writer_aac] @
     (if linux then [] else [None, Some record_writer_raw, Some record_writer_mpeg2ts]) @ [None]"

text \<open>\<open>None\<close>: the copy reads behind the table or through a null pointer. \<open>Some None\<close>: no memory.\<close>

definition cedarx_record_writer_create :: "bool \<Rightarrow> bool \<Rightarrow> int \<Rightarrow> CDX_RecordWriter option option" where
  "cedarx_record_writer_create linux malloc_ok mode =
     (if \<not> malloc_ok then Some None
      else if mode < 0 \<or> int (length (cedarx_record_writer linux)) \<le> mode then None
      else map_option Some (cedarx_record_writer linux ! nat mode))"

text \<open>A session: commands, headers, and packets that fill a table, in any order.\<close>

datatype mux_step = Cmd command | Header | Packet

fun mux_do :: "CDX_RecordWriter \<Rightarrow> mux_step \<Rightarrow> mux \<Rightarrow> mux option" where
  "mux_do w (Cmd cmd) m = Some (snd (MuxerIoctrl w cmd m))"
| "mux_do w Header m = map_option snd (MuxerWriteHeader w m)"
| "mux_do w Packet m = Some (snd (MuxerWritePacket w m))"

fun mux_run :: "CDX_RecordWriter \<Rightarrow> mux_step list \<Rightarrow> mux \<Rightarrow> mux option" where
  "mux_run w [] m = Some m"
| "mux_run w (st # steps) m = Option.bind (mux_do w st m) (mux_run w steps)"

end
