(* ===== verification/RawMuxer.thy ===== *)
theory RawMuxer
  imports TsMux ByteIO MuxDrv
begin

text \<open>
  The raw muxer (libmuxer/raw_muxer/RawMuxer.c): every packet goes to the application's callback as
  a message of a packed header and the data, without a container. What its commands open and close
  is in \<open>MuxDrv\<close>.

  A message names its parts by pointers: \<open>bs_data\<close> has four slots, and a slot that the code has not
  set is \<open>None\<close>. A callback gets the bytes of the first \<open>bs_count\<close> slots. \<open>malloc\<close> succeeds.
\<close>

section \<open>Messages\<close>

definition RawPacketTypeVideo :: u32 where "RawPacketTypeVideo = 0"
definition RawPacketTypeAudio :: u32 where "RawPacketTypeAudio = 1"
definition RawPacketTypeVideoExtra :: u32 where "RawPacketTypeVideoExtra = 128"
definition RawPacketTypeAudioExtra :: u32 where "RawPacketTypeAudioExtra = 129"

record RawPacketHeader =
  hd_stream_type :: u32
  hd_size :: u32
  hd_pts :: u64
  hd_CurrQp :: u32
  hd_avQp :: u32
  hd_nGopIndex :: u32
  hd_nFrameIndex :: u32
  hd_nTotalIndex :: u32

definition le_bytes64 :: "u64 \<Rightarrow> byte list" where
  "le_bytes64 v = le_bytes32 (ucast v) @ le_bytes32 (ucast (drop_bit 32 v))"

text \<open>The packed struct in the memory of a little-endian machine, \<open>sizeof(RawPacketHeader)\<close> bytes.\<close>

definition header_bytes :: "RawPacketHeader \<Rightarrow> byte list" where
  "header_bytes h =
     le_bytes32 (hd_stream_type h) @ le_bytes32 (hd_size h) @ le_bytes64 (hd_pts h) @
     le_bytes32 (hd_CurrQp h) @ le_bytes32 (hd_avQp h) @ le_bytes32 (hd_nGopIndex h) @
     le_bytes32 (hd_nFrameIndex h) @ le_bytes32 (hd_nTotalIndex h)"

record CDXRecorderBsInfo =
  bs_count :: nat
  total_size :: u32
  bs_data :: "byte list option list"
  bs_mode :: nat

definition raw_header_size :: nat where "raw_header_size = 36"

section \<open>The context\<close>

record raw_packet =
  rp_stream_index :: u32
  rp_data0 :: "byte list"
  rp_data1 :: "byte list"
  rp_pts :: u64
  rp_CurrQp :: u32
  rp_avQp :: u32
  rp_nGopIndex :: u32
  rp_nFrameIndex :: u32
  rp_nTotalIndex :: u32

record raw_track =
  rt_codec_type :: codec_type
  rt_StreamIndex :: nat
  rt_video :: "u32 \<times> u32 \<times> u32"
  rt_audio :: "u32 \<times> u32 \<times> u32 \<times> u32"
  rt_extradata :: "byte list"

text \<open>
  \<open>TrackCount\<close> is the length of the list, the array has \<open>RAW_MAX_STREAM_COUNT\<close> places. The messages
  that the callback got, and the values that it will return (0 when the list is used up), stand for
  the application.
\<close>

definition RAW_MAX_STREAM_COUNT :: nat where "RAW_MAX_STREAM_COUNT = 2"

record RAWCONTEXT =
  RawPacketHdr :: RawPacketHeader
  VideoStreamIndex :: nat
  AudioStreamIndex :: nat
  Track :: "raw_track list"
  raw_out :: "stream_kind option"
  raw_sent :: "CDXRecorderBsInfo list"
  raw_rets :: "int list"

definition RawMuxerOpen :: "int list \<Rightarrow> RAWCONTEXT" where
  "RawMuxerOpen rets = \<lparr>RawPacketHdr = \<lparr>hd_stream_type = 0, hd_size = 0, hd_pts = 0, hd_CurrQp = 0, hd_avQp = 0,
     hd_nGopIndex = 0, hd_nFrameIndex = 0, hd_nTotalIndex = 0\<rparr>, VideoStreamIndex = 0, AudioStreamIndex = 0,
     Track = [], raw_out = None, raw_sent = [], raw_rets = rets\<rparr>"

text \<open>
  \<open>cdx_write2\<close>: no stream, or one that is no callback stream and has no \<open>write2\<close>, is a call
  through a null pointer.
\<close>

definition raw_write2 :: "CDXRecorderBsInfo \<Rightarrow> RAWCONTEXT \<Rightarrow> (int \<times> RAWCONTEXT) option" where
  "raw_write2 info c =
     (if raw_out c = Some Stream_external
      then Some (case raw_rets c of [] \<Rightarrow> 0 | r # _ \<Rightarrow> r,
                 c\<lparr>raw_sent := raw_sent c @ [info], raw_rets := tl (raw_rets c)\<rparr>)
      else None)"

section \<open>The operations\<close>

record raw_media_inf =
  rm_nHeight :: u32
  rm_nWidth :: u32
  rm_uVideoFrmRate :: u32
  rm_channels :: u32
  rm_bits_per_sample :: u32
  rm_frame_size :: u32
  rm_sample_rate :: u32

text \<open>A new track, behind the array when it is full.\<close>

definition add_track :: "raw_track \<Rightarrow> RAWCONTEXT \<Rightarrow> RAWCONTEXT option" where
  "add_track t c =
     (if length (Track c) < RAW_MAX_STREAM_COUNT
      then Some (c\<lparr>Track := Track c @ [t\<lparr>rt_StreamIndex := length (Track c)\<rparr>]\<rparr>) else None)"

definition raw_SETAVPARA :: "raw_media_inf option \<Rightarrow> RAWCONTEXT \<Rightarrow> (int \<times> RAWCONTEXT) option" where
  "raw_SETAVPARA pMediaInf c =
     (case pMediaInf of
        None \<Rightarrow> Some (- 1, c)
      | Some mi \<Rightarrow>
          do {
            c1 \<leftarrow> (if rm_nWidth mi \<noteq> 0 \<and> rm_nWidth mi \<noteq> 0
                   then map_option (VideoStreamIndex_update (\<lambda>_. length (Track c)))
                     (add_track \<lparr>rt_codec_type = CODEC_TYPE_VIDEO, rt_StreamIndex = 0,
                        rt_video = (rm_nHeight mi, rm_nWidth mi, rm_uVideoFrmRate mi), rt_audio = (0, 0, 0, 0),
                        rt_extradata = []\<rparr> c)
                   else Some c);
            c2 \<leftarrow> (if rm_sample_rate mi \<noteq> 0 \<and> rm_channels mi \<noteq> 0
                   then map_option (AudioStreamIndex_update (\<lambda>_. length (Track c1)))
                     (add_track \<lparr>rt_codec_type = CODEC_TYPE_AUDIO, rt_StreamIndex = 0, rt_video = (0, 0, 0),
                        rt_audio = (rm_channels mi, rm_bits_per_sample mi, rm_frame_size mi, rm_sample_rate mi),
                        rt_extradata = []\<rparr> c1)
                   else Some c1);
            Some (0, c2)
          })"

text \<open>Without data the pointer to the track is read but not followed.\<close>

definition RawMuxerWriteVos :: "byte list \<Rightarrow> nat \<Rightarrow> RAWCONTEXT \<Rightarrow> (int \<times> RAWCONTEXT) option" where
  "RawMuxerWriteVos vosData idx c =
     (if RAW_MAX_STREAM_COUNT \<le> idx then None
      else if vosData = [] then Some (0, c)
      else if idx < length (Track c)
      then Some (0, c\<lparr>Track := (Track c)[idx := (Track c ! idx)\<lparr>rt_extradata := vosData\<rparr>]\<rparr>)
      else None)"

fun header_loop :: "raw_track list \<Rightarrow> RAWCONTEXT \<Rightarrow> (int \<times> RAWCONTEXT) option" where
  "header_loop [] c = Some (0, c)"
| "header_loop (t # ts) c =
     (if rt_extradata t \<noteq> []
      then
        let h = (RawPacketHdr c)\<lparr>
              hd_stream_type := if rt_codec_type t = CODEC_TYPE_VIDEO then RawPacketTypeVideoExtra
                                else RawPacketTypeAudioExtra,
              hd_size := of_nat (length (rt_extradata t)), hd_pts := 0\<rparr>;
            info = \<lparr>bs_count = 2, total_size = of_nat raw_header_size + of_nat (length (rt_extradata t)),
              bs_data = [Some (header_bytes h), Some (rt_extradata t), None, None], bs_mode = 0\<rparr>
        in do {
             (ret, c1) \<leftarrow> raw_write2 info (c\<lparr>RawPacketHdr := h\<rparr>);
             if ret < 0 then Some (- 1, c1) else header_loop ts c1
           }
      else header_loop ts c)"

definition RawMuxerWriteHeader :: "RAWCONTEXT \<Rightarrow> (int \<times> RAWCONTEXT) option" where
  "RawMuxerWriteHeader c = header_loop (Track c) c"

definition packet_header :: "raw_packet \<Rightarrow> RawPacketHeader" where
  "packet_header p = \<lparr>
     hd_stream_type = if rp_stream_index p = 0 then RawPacketTypeVideo else RawPacketTypeAudio,
     hd_size = of_nat (length (rp_data0 p)) + of_nat (length (rp_data1 p)), hd_pts = rp_pts p,
     hd_CurrQp = rp_CurrQp p, hd_avQp = rp_avQp p, hd_nGopIndex = rp_nGopIndex p,
     hd_nFrameIndex = rp_nFrameIndex p, hd_nTotalIndex = rp_nTotalIndex p\<rparr>"

text \<open>\<open>data0\<close> goes to slot 1 and \<open>data1\<close> to slot 2, whether slot 1 is used or not.\<close>

definition packet_info :: "raw_packet \<Rightarrow> CDXRecorderBsInfo" where
  "packet_info p =
     (let d0 = rp_data0 p; d1 = rp_data1 p
      in \<lparr>bs_count = 1 + (if d0 \<noteq> [] then 1 else 0) + (if d1 \<noteq> [] then 1 else 0),
          total_size = of_nat raw_header_size + of_nat (length d0) + of_nat (length d1),
          bs_data = [Some (header_bytes (packet_header p)), if d0 \<noteq> [] then Some d0 else None,
                     if d1 \<noteq> [] then Some d1 else None, None],
          bs_mode = 0\<rparr>)"

definition RawMuxerWritePacket :: "raw_packet \<Rightarrow> RAWCONTEXT \<Rightarrow> (int \<times> RAWCONTEXT) option" where
  "RawMuxerWritePacket p c =
     do {
       (ret, c1) \<leftarrow> raw_write2 (packet_info p) (c\<lparr>RawPacketHdr := packet_header p\<rparr>);
       Some (if ret < 0 then - 1 else 0, c1)
     }"

fun raw_packets :: "raw_packet list \<Rightarrow> RAWCONTEXT \<Rightarrow> RAWCONTEXT option" where
  "raw_packets [] c = Some c"
| "raw_packets (p # ps) c = do { (r, c1) \<leftarrow> RawMuxerWritePacket p c; raw_packets ps c1 }"

section \<open>The receiving application\<close>

text \<open>The bytes of a message, \<open>None\<close> when it names a slot that was not set.\<close>

definition message_bytes :: "CDXRecorderBsInfo \<Rightarrow> byte list option" where
  "message_bytes info =
     (let parts = take (bs_count info) (bs_data info)
      in if None \<in> set parts then None else Some (concat (map the parts)))"

definition get_le64 :: "byte list \<Rightarrow> u64" where
  "get_le64 xs = or (ucast (get_le32 xs)) (push_bit 32 (ucast (get_le32 (drop 4 xs))))"

definition parse_message :: "byte list \<Rightarrow> (RawPacketHeader \<times> byte list) option" where
  "parse_message xs =
     (if length xs < raw_header_size then None
      else
        let h = \<lparr>hd_stream_type = get_le32 xs, hd_size = get_le32 (drop 4 xs), hd_pts = get_le64 (drop 8 xs),
              hd_CurrQp = get_le32 (drop 16 xs), hd_avQp = get_le32 (drop 20 xs),
              hd_nGopIndex = get_le32 (drop 24 xs), hd_nFrameIndex = get_le32 (drop 28 xs),
              hd_nTotalIndex = get_le32 (drop 32 xs)\<rparr>
        in if raw_header_size + unat (hd_size h) \<le> length xs
           then Some (h, take (unat (hd_size h)) (drop raw_header_size xs)) else None)"

definition received :: "CDXRecorderBsInfo \<Rightarrow> (RawPacketHeader \<times> byte list) option" where
  "received info = Option.bind (message_bytes info) parse_message"

lemma length_le_bytes64 [simp]: "length (le_bytes64 v) = 8"
  by (simp add: le_bytes64_def)

lemma length_header_bytes [simp]: "length (header_bytes h) = raw_header_size"
  by (simp add: header_bytes_def raw_header_size_def)

lemma get_le64_bytes: "get_le64 (le_bytes64 v @ ys) = v"
proof -
  have "get_le32 (drop 4 (le_bytes64 v @ ys)) = ucast (drop_bit 32 v)"
    by (simp add: le_bytes64_def get_le32_bytes)
  then show ?thesis
    unfolding get_le64_def
    by (simp add: le_bytes64_def get_le32_bytes) (rule bit_word_eqI, auto simp: bit_simps)
qed

lemma parse_header:
  assumes "unat (hd_size h) = length d"
  shows "parse_message (header_bytes h @ d) = Some (h, d)"
proof -
  have d: "drop 4 (le_bytes32 v @ ys) = ys" "drop 8 (le_bytes64 u @ ys) = ys" for v u and ys :: "byte list"
    by simp_all
  have more: "drop (n + 4) (le_bytes32 v @ ys) = drop n ys" "drop (n + 8) (le_bytes64 u @ ys) = drop n ys"
    for n v u and ys :: "byte list"
    by (simp_all add: add.commute)
  note m = more(1) [of 4, simplified] more(1) [of 8, simplified] more(1) [of 12, simplified] 
    more(1) [of 16, simplified] more(1) [of 20, simplified] more(1) [of 24, simplified] more(1) [of 28, simplified]
    more(2) [of 4, simplified] more(2) [of 8, simplified] more(2) [of 12, simplified] more(2) [of 16, simplified]
  show ?thesis
    using assms
    by (simp add: parse_message_def Let_def)
      (simp add: header_bytes_def m d get_le32_bytes get_le64_bytes raw_header_size_def)
qed


section \<open>What the application receives\<close>

text \<open>The message of a track's parameter sets, and that of a packet.\<close>

definition extra_header :: "RawPacketHeader \<Rightarrow> raw_track \<Rightarrow> RawPacketHeader" where
  "extra_header h t = h\<lparr>
     hd_stream_type := if rt_codec_type t = CODEC_TYPE_VIDEO then RawPacketTypeVideoExtra
                       else RawPacketTypeAudioExtra,
     hd_size := of_nat (length (rt_extradata t)), hd_pts := 0\<rparr>"

definition packet_fits :: "raw_packet \<Rightarrow> bool" where
  "packet_fits p \<longleftrightarrow> rp_data0 p \<noteq> [] \<and> length (rp_data0 p) + length (rp_data1 p) < 2 ^ 32"

lemma extra_header_twice [simp]: "extra_header (extra_header h t) u = extra_header h u"
  by (simp add: extra_header_def)

lemma unat_of_nat_u32: "n < 2 ^ 32 \<Longrightarrow> unat (of_nat n :: u32) = n"
  by (simp add: unsigned_of_nat take_bit_nat_eq_self)

lemma received_packet:
  assumes "packet_fits p"
  shows "received (packet_info p) = Some (packet_header p, rp_data0 p @ rp_data1 p)"
proof -
  have size: "unat (hd_size (packet_header p)) = length (rp_data0 p @ rp_data1 p)"
    using assms unat_of_nat_u32 [of "length (rp_data0 p) + length (rp_data1 p)"]
    by (simp add: packet_fits_def packet_header_def)
  have "message_bytes (packet_info p) = Some (header_bytes (packet_header p) @ rp_data0 p @ rp_data1 p)"
    using assms by (simp add: packet_fits_def message_bytes_def packet_info_def Let_def)
  then show ?thesis
    using parse_header [OF size] by (simp add: received_def)
qed

text \<open>
  A packet whose first part is empty and whose second is not names a slot that was not set: the
  count says two, and slot 1 is left out.
\<close>

lemma second_part_alone:
  assumes "rp_data0 p = []" and "rp_data1 p \<noteq> []"
  shows "received (packet_info p) = None"
  using assms by (simp add: received_def message_bytes_def packet_info_def Let_def)

lemma packet_total_size:
  assumes "packet_fits p" and "raw_header_size + length (rp_data0 p) + length (rp_data1 p) < 2 ^ 32"
  shows "map_option length (message_bytes (packet_info p)) = Some (unat (total_size (packet_info p)))"
  using assms unat_of_nat_u32 [of "raw_header_size + length (rp_data0 p) + length (rp_data1 p)"]
  by (simp add: packet_fits_def message_bytes_def packet_info_def Let_def)

lemma raw_write2_callback:
  assumes "raw_out c = Some Stream_external" and "\<And>r. r \<in> set (raw_rets c) \<Longrightarrow> 0 \<le> r"
  obtains ret where "0 \<le> ret" and
    "raw_write2 info c = Some (ret, c\<lparr>raw_sent := raw_sent c @ [info], raw_rets := tl (raw_rets c)\<rparr>)"
proof (cases "raw_rets c")
  case Nil
  then show ?thesis using assms that [of 0] by (simp add: raw_write2_def)
next
  case (Cons r rs)
  then show ?thesis using assms that [of r] by (simp add: raw_write2_def)
qed

lemma header_loop_sends:
  assumes "raw_out c = Some Stream_external" and "\<And>r. r \<in> set (raw_rets c) \<Longrightarrow> 0 \<le> r"
    and "\<And>t. t \<in> set ts \<Longrightarrow> length (rt_extradata t) < 2 ^ 32"
  shows "\<exists>c1. header_loop ts c = Some (0, c1) \<and> raw_out c1 = Some Stream_external \<and>
           map received (raw_sent c1) = map received (raw_sent c) @
             map (\<lambda>t. Some (extra_header (RawPacketHdr c) t, rt_extradata t)) (filter (\<lambda>t. rt_extradata t \<noteq> []) ts)"
  using assms
proof (induction ts arbitrary: c)
  case Nil
  then show ?case by simp
next
  case (Cons t ts)
  show ?case
  proof (cases "rt_extradata t = []")
    case True
    then show ?thesis using Cons.IH [of c] Cons.prems by simp
  next
    case False
    define h where "h = extra_header (RawPacketHdr c) t"
    define info where "info = \<lparr>bs_count = 2,
      total_size = of_nat raw_header_size + of_nat (length (rt_extradata t)),
      bs_data = [Some (header_bytes h), Some (rt_extradata t), None, None], bs_mode = 0\<rparr>"
    obtain ret where ret: "0 \<le> ret" and w: "raw_write2 info (c\<lparr>RawPacketHdr := h\<rparr>) =
        Some (ret, c\<lparr>RawPacketHdr := h, raw_sent := raw_sent c @ [info], raw_rets := tl (raw_rets c)\<rparr>)"
      using raw_write2_callback [of "c\<lparr>RawPacketHdr := h\<rparr>" info] Cons.prems(1,2) by auto
    let ?c1 = "c\<lparr>RawPacketHdr := h, raw_sent := raw_sent c @ [info], raw_rets := tl (raw_rets c)\<rparr>"
    have loop: "header_loop (t # ts) c = header_loop ts ?c1"
      using False w ret by (simp add: h_def extra_header_def info_def Let_def)
    have size: "unat (hd_size h) = length (rt_extradata t)"
      using Cons.prems(3) [of t] unat_of_nat_u32 by (simp add: h_def extra_header_def)
    have got: "received info = Some (h, rt_extradata t)"
      using parse_header [OF size] by (simp add: info_def received_def message_bytes_def)
    have "\<And>r. r \<in> set (raw_rets ?c1) \<Longrightarrow> 0 \<le> r"
      using Cons.prems(2) by (cases "raw_rets c") auto
    then show ?thesis
      using Cons.IH [of ?c1] Cons.prems(1,3) False by (simp del: header_loop.simps add: loop got h_def)
  qed
qed

lemma raw_packets_sends:
  assumes "raw_out c = Some Stream_external" and "\<And>p. p \<in> set ps \<Longrightarrow> packet_fits p"
  shows "\<exists>c1. raw_packets ps c = Some c1 \<and> map received (raw_sent c1) = map received (raw_sent c) @
           map (\<lambda>p. Some (packet_header p, rp_data0 p @ rp_data1 p)) ps"
  using assms
proof (induction ps arbitrary: c)
  case Nil
  then show ?case by simp
next
  case (Cons p ps)
  then show ?case
    using Cons.IH [of "c\<lparr>RawPacketHdr := packet_header p, raw_sent := raw_sent c @ [packet_info p],
                          raw_rets := tl (raw_rets c)\<rparr>"]
    by (simp add: RawMuxerWritePacket_def raw_write2_def received_packet split: list.splits)
qed

text \<open>
  C6: A raw recording can be taken apart again. With a callback stream, \<open>RawMuxerWriteHeader\<close> and then
  \<open>RawMuxerWritePacket\<close> for any number of packets return, the header with 0 when the callback
  reports no error, and the application that reads the packed struct at the front of each message
  gets back, in this order, one message for each track that has parameter sets, with type 128 or
  129 and just these bytes, and one for each packet, with the packet's own type, time stamp, quantisers and
  counters and with its two parts joined. The hypotheses bound the sizes by the 32-bit size field
  and exclude the packets whose first part is empty, of which \<open>second_part_alone\<close> shows that their
  messages cannot be read.
\<close>

theorem raw_recording_reads_back:
  assumes "raw_out c = Some Stream_external" and "\<And>r. r \<in> set (raw_rets c) \<Longrightarrow> 0 \<le> r"
    and "\<And>t. t \<in> set (Track c) \<Longrightarrow> length (rt_extradata t) < 2 ^ 32"
    and "\<And>p. p \<in> set ps \<Longrightarrow> packet_fits p"
  shows "\<exists>c1 c2. RawMuxerWriteHeader c = Some (0, c1) \<and> raw_packets ps c1 = Some c2 \<and>
           map received (raw_sent c2) = map received (raw_sent c) @
             map (\<lambda>t. Some (extra_header (RawPacketHdr c) t, rt_extradata t))
               (filter (\<lambda>t. rt_extradata t \<noteq> []) (Track c)) @
             map (\<lambda>p. Some (packet_header p, rp_data0 p @ rp_data1 p)) ps"
proof -
  obtain c1 where h: "header_loop (Track c) c = Some (0, c1)" "raw_out c1 = Some Stream_external"
    and s: "map received (raw_sent c1) = map received (raw_sent c) @
      map (\<lambda>t. Some (extra_header (RawPacketHdr c) t, rt_extradata t)) (filter (\<lambda>t. rt_extradata t \<noteq> []) (Track c))"
    using header_loop_sends [OF assms(1-3)] by blast
  obtain c2 where "raw_packets ps c1 = Some c2" and "map received (raw_sent c2) = map received (raw_sent c1) @
      map (\<lambda>p. Some (packet_header p, rp_data0 p @ rp_data1 p)) ps"
    using raw_packets_sends [OF h(2) assms(4)] by blast
  then show ?thesis using h(1) s by (simp add: RawMuxerWriteHeader_def)
qed

definition example_raw :: RAWCONTEXT where
  "example_raw = (RawMuxerOpen [0])\<lparr>raw_out := Some Stream_external,
     Track := [\<lparr>rt_codec_type = CODEC_TYPE_VIDEO, rt_StreamIndex = 0, rt_video = (1080, 1920, 25),
                rt_audio = (0, 0, 0, 0), rt_extradata = [0, 0, 0, 1, 103]\<rparr>]\<rparr>"

definition example_packet :: raw_packet where
  "example_packet = \<lparr>rp_stream_index = 0, rp_data0 = [0, 0, 0, 1, 101], rp_data1 = [136, 132], rp_pts = 40000,
     rp_CurrQp = 30, rp_avQp = 31, rp_nGopIndex = 0, rp_nFrameIndex = 1, rp_nTotalIndex = 1\<rparr>"

lemma raw_recording_reads_back_witness:
  "\<exists>c1 c2. RawMuxerWriteHeader example_raw = Some (0, c1) \<and> raw_packets [example_packet] c1 = Some c2 \<and>
     map received (raw_sent c2) =
       [Some (extra_header (RawPacketHdr example_raw) (hd (Track example_raw)), [0, 0, 0, 1, 103]),
        Some (packet_header example_packet, [0, 0, 0, 1, 101, 136, 132])]"
  using raw_recording_reads_back [of example_raw "[example_packet]"]
  by (simp add: example_raw_def RawMuxerOpen_def example_packet_def packet_fits_def)

end
