(* ===== verification/MuxLife.thy ===== *)
theory MuxLife
  imports MuxDrv
begin

text \<open>
  What a session of commands holds and loses. The invariant \<open>life\<close> says that every handle of a
  muxer's context is live; the locale \<open>muxer_life\<close> is the contract of a muxer, and its lemmas follow
  a session from \<open>MuxerOpen\<close> to \<open>MuxerClose\<close>.
\<close>

section \<open>What is held, and the invariant\<close>

definition stream_ids :: "system \<Rightarrow> nat set" where "stream_ids s = fst ` set (sy_streams s)"
definition writer_ids :: "system \<Rightarrow> nat set" where "writer_ids s = fst ` set (sy_writers s)"

definition own_list :: "mux_ctx \<Rightarrow> nat list" where
  "own_list c =
     (case pb_cache c of None \<Rightarrow> [] | Some h \<Rightarrow> [h]) @
     (case OutStreamHandle c of None \<Rightarrow> [] | Some h \<Rightarrow> [h]) @ map snd (page_fd c)"

definition own_streams :: "mux_ctx \<Rightarrow> nat set" where "own_streams c = set (own_list c)"
definition own_writers :: "mux_ctx \<Rightarrow> nat set" where "own_writers c = set_option (mpFsWriter c)"

text \<open>Every handle of the context is live, and no two are the same.\<close>

definition held :: "mux \<Rightarrow> bool" where
  "held m \<longleftrightarrow>
     own_streams (fst m) \<subseteq> stream_ids (snd m) \<and> stream_ids (snd m) \<subseteq> {..<sy_next (snd m)} \<and>
     Stream_network \<notin> snd ` set (sy_streams (snd m)) \<and> distinct (own_list (fst m)) \<and>
     distinct (map fst (page_fd (fst m))) \<and> fst ` set (page_fd (fst m)) \<subseteq> set close_list"

text \<open>The stream of every writer is live and no temporary file.\<close>

definition writers_held :: "mux \<Rightarrow> bool" where
  "writers_held m \<longleftrightarrow>
     own_writers (fst m) \<subseteq> writer_ids (snd m) \<and> writer_ids (snd m) \<subseteq> {..<sy_next (snd m)} \<and>
     snd ` set (sy_writers (snd m)) \<subseteq> stream_ids (snd m) \<and>
     snd ` set (sy_writers (snd m)) \<inter> snd ` set (page_fd (fst m)) = {}"

text \<open>The temporary files on the disk are open.\<close>

definition tmp_held :: "mux \<Rightarrow> bool" where
  "tmp_held m \<longleftrightarrow> set (sy_tmp (snd m)) \<subseteq> fst ` set (page_fd (fst m))"

definition life :: "mux \<Rightarrow> bool" where "life m \<longleftrightarrow> held m \<and> writers_held m \<and> tmp_held m"

text \<open>A step opens only what it puts into the context.\<close>

definition mux_grows :: "mux \<Rightarrow> mux \<Rightarrow> bool" where
  "mux_grows m m' \<longleftrightarrow> life m' \<and>
     stream_ids (snd m') = stream_ids (snd m) \<union> (own_streams (fst m') - own_streams (fst m)) \<and>
     (own_streams (fst m') - own_streams (fst m)) \<inter> stream_ids (snd m) = {} \<and>
     writer_ids (snd m') = writer_ids (snd m) \<union> (own_writers (fst m') - own_writers (fst m)) \<and>
     (own_writers (fst m') - own_writers (fst m)) \<inter> writer_ids (snd m) = {}"

fun local_cmd :: "command \<Rightarrow> bool" where
  "local_cmd (SETCACHEFD url) \<longleftrightarrow> \<not> is_http url"
| "local_cmd (SETOUTURL url) \<longleftrightarrow> \<not> is_http url"
| "local_cmd _ \<longleftrightarrow> True"

fun local_step :: "mux_step \<Rightarrow> bool" where
  "local_step (Cmd cmd) \<longleftrightarrow> local_cmd cmd"
| "local_step _ \<longleftrightarrow> True"

lemma mux_grows_drop:
  assumes "life m"
    and "own_streams (fst m') \<subseteq> own_streams (fst m)" "distinct (own_list (fst m'))"
    and "page_fd (fst m') = page_fd (fst m)" "own_writers (fst m') \<subseteq> own_writers (fst m)"
    and "sy_streams (snd m') = sy_streams (snd m)" "sy_writers (snd m') = sy_writers (snd m)"
    and "sy_tmp (snd m') = sy_tmp (snd m)" "sy_next (snd m') = sy_next (snd m)"
  shows "mux_grows m m'"
  using assms by (auto simp: mux_grows_def life_def held_def writers_held_def tmp_held_def stream_ids_def writer_ids_def)

lemma mux_grows_same:
  assumes "life m"
    and "pb_cache (fst m') = pb_cache (fst m)" "OutStreamHandle (fst m') = OutStreamHandle (fst m)"
    and "page_fd (fst m') = page_fd (fst m)" "mpFsWriter (fst m') = mpFsWriter (fst m)"
    and "sy_streams (snd m') = sy_streams (snd m)" "sy_writers (snd m') = sy_writers (snd m)"
    and "sy_tmp (snd m') = sy_tmp (snd m)" "sy_next (snd m') = sy_next (snd m)"
  shows "mux_grows m m'"
proof -
  have "own_list (fst m') = own_list (fst m)" using assms by (simp add: own_list_def)
  then show ?thesis
    using assms by (intro mux_grows_drop) (auto simp: own_streams_def own_writers_def life_def held_def)
qed

lemma mux_grows_open:
  assumes "life m" and "n = sy_next (snd m)" and "k \<noteq> Stream_network"
    and "n \<in> own_streams (fst m')" "own_streams (fst m') \<subseteq> insert n (own_streams (fst m))"
    and "distinct (own_list (fst m'))"
    and "page_fd (fst m') = page_fd (fst m)" "mpFsWriter (fst m') = mpFsWriter (fst m)"
    and "sy_streams (snd m') = sy_streams (snd m) @ [(n, k)]" "sy_writers (snd m') = sy_writers (snd m)"
    and "sy_tmp (snd m') = sy_tmp (snd m)" "sy_next (snd m') = sy_next (snd m) + 1"
  shows "mux_grows m m'"
proof -
  have ids: "stream_ids (snd m') = insert n (stream_ids (snd m))"
    and wids: "writer_ids (snd m') = writer_ids (snd m)"
    using assms by (auto simp: stream_ids_def writer_ids_def)
  have n: "n \<notin> stream_ids (snd m)" and own: "own_streams (fst m) \<subseteq> stream_ids (snd m)"
    using assms by (auto simp: life_def held_def)
  then have new: "own_streams (fst m') - own_streams (fst m) = {n}" using assms by auto
  have "life m'"
    using assms own unfolding life_def held_def writers_held_def tmp_held_def ids wids own_writers_def by auto
  then show ?thesis using n assms(8) by (simp add: mux_grows_def ids wids new own_writers_def)
qed

lemma own_list_fresh:
  assumes "life m"
  shows "sy_next (snd m) \<notin> set (own_list (fst m))"
  using assms by (auto simp: life_def held_def own_streams_def)

text \<open>What opening a stream does to the system.\<close>

lemma create_local:
  assumes "case src of Source_path url \<Rightarrow> \<not> is_http url | _ \<Rightarrow> True"
  obtains (failed) bs where "create_outstream_handle src s = (None, s\<lparr>sy_opens := bs\<rparr>)"
  | (opened) k bs where "k \<noteq> Stream_network"
      "create_outstream_handle src s =
         (Some (sy_next s),
          s\<lparr>sy_opens := bs, sy_streams := sy_streams s @ [(sy_next s, k)], sy_next := sy_next s + 1\<rparr>)"
proof (cases src)
  case (Source_fd fd)
  show thesis
    by (rule opened [of Stream_file "sy_opens s"])
      (simp_all add: create_outstream_handle_def add_stream_def Source_fd)
next
  case Source_callback
  show thesis
    by (rule opened [of Stream_external "sy_opens s"])
      (simp_all add: create_outstream_handle_def add_stream_def Source_callback)
next
  case (Source_path url)
  then have u: "\<not> is_http url" using assms by simp
  show thesis
  proof (cases "sy_opens s \<noteq> [] \<and> \<not> hd (sy_opens s)")
    case True
    then show thesis
      using u by (intro failed [of "tl (sy_opens s)"]) (simp add: create_outstream_handle_def Source_path)
  next
    case False
    then show thesis
      using u by (intro opened [of Stream_file "tl (sy_opens s)"])
        (auto simp add: create_outstream_handle_def Source_path add_stream_def Let_def)
  qed
qed

lemma open_pb_grows:
  assumes "life m" and "case src of Source_path url \<Rightarrow> \<not> is_http url | _ \<Rightarrow> True"
  shows "mux_grows m (snd (open_pb src m))"
proof -
  have d: "distinct (own_list (fst m))" using assms(1) by (simp add: life_def held_def)
  note fresh = own_list_fresh [OF assms(1)]
  from assms(2) show ?thesis
  proof (cases rule: create_local [of _ "snd m"])
    case (failed bs)
    then show ?thesis
      using d by (intro mux_grows_drop [OF assms(1)])
        (auto simp: open_pb_def own_streams_def own_list_def own_writers_def split: option.splits)
  next
    case (opened k bs)
    then show ?thesis
      using d fresh by (intro mux_grows_open [OF assms(1) refl opened(1)])
        (auto simp: open_pb_def own_streams_def own_list_def split: option.splits)
  qed
qed

lemma open_once_grows:
  assumes "life m" and "case src of Source_path url \<Rightarrow> \<not> is_http url | _ \<Rightarrow> True"
  shows "mux_grows m (snd (open_once src m))"
proof (cases "OutStreamHandle (fst m)")
  case (Some h)
  then show ?thesis using assms(1) by (simp add: open_once_def mux_grows_same)
next
  case None
  have d: "distinct (own_list (fst m))" using assms(1) by (simp add: life_def held_def)
  note fresh = own_list_fresh [OF assms(1)]
  from assms(2) show ?thesis
  proof (cases rule: create_local [of _ "snd m"])
    case (failed bs)
    then show ?thesis
      using d None by (intro mux_grows_drop [OF assms(1)])
        (auto simp: open_once_def own_streams_def own_list_def own_writers_def split: option.splits)
  next
    case (opened k bs)
    then show ?thesis
      using d fresh None by (intro mux_grows_open [OF assms(1) refl opened(1)])
        (auto simp: open_once_def own_streams_def own_list_def split: option.splits)
  qed
qed

lemma register_callback_once: "register_callback m = open_once Source_callback m"
  by (simp add: register_callback_def open_once_def)

lemma header_writer_grows:
  assumes "life m"
  shows "mux_grows m (snd (header_writer m))"
proof (cases "pb_cache (fst m)")
  case None
  then show ?thesis using assms by (simp add: header_writer_def mux_grows_same)
next
  case (Some h)
  obtain mode n where hm: "header_mode (fst m) = (mode, n)" by force
  obtain k s where mk: "make_writer mode n h (snd m) = (k, s)" by force
  have res: "snd (header_writer m) = ((fst m)\<lparr>mpFsWriter := k\<rparr>, s)"
    by (simp add: header_writer_def Some hm mk)
  have h: "h \<in> stream_ids (snd m)" "h \<notin> snd ` set (page_fd (fst m))"
    using assms Some by (auto simp: life_def held_def own_streams_def own_list_def)
  have own: "own_list (fst (snd (header_writer m))) = own_list (fst m)"
    by (simp add: res own_list_def)
  have same: "\<exists>bs. t = t\<lparr>sy_makes := bs\<rparr>" for t :: system
    by (rule exI [of _ "sy_makes t"]) simp
  consider "k = None" "\<exists>bs. s = (snd m)\<lparr>sy_makes := bs\<rparr>"
    | "k = Some (sy_next (snd m))"
      "\<exists>bs. s = (snd m)\<lparr>sy_makes := bs, sy_writers := sy_writers (snd m) @ [(sy_next (snd m), h)],
                  sy_next := sy_next (snd m) + 1\<rparr>"
    using mk same [of "snd m"] by (auto simp: make_writer_def Let_def split: if_splits)
  then show ?thesis
  proof cases
    case 1
    then show ?thesis
      using assms own unfolding res
      by (intro mux_grows_drop) (auto simp: own_streams_def own_writers_def life_def held_def)
  next
    case 2
    then obtain bs where s: "s = (snd m)\<lparr>sy_makes := bs,
        sy_writers := sy_writers (snd m) @ [(sy_next (snd m), h)], sy_next := sy_next (snd m) + 1\<rparr>" by blast
    have ids: "stream_ids s = stream_ids (snd m)"
      and wids: "writer_ids s = insert (sy_next (snd m)) (writer_ids (snd m))"
      by (auto simp: s stream_ids_def writer_ids_def)
    have "sy_next (snd m) \<notin> writer_ids (snd m)" "own_writers (fst m) \<subseteq> writer_ids (snd m)"
      using assms by (auto simp: life_def writers_held_def)
    then have new: "own_writers ((fst m)\<lparr>mpFsWriter := k\<rparr>) - own_writers (fst m) = {sy_next (snd m)}"
      using 2(1) by (auto simp: own_writers_def)
    have same: "own_streams ((fst m)\<lparr>mpFsWriter := k\<rparr>) = own_streams (fst m)"
      using own by (simp add: res own_streams_def)
    have "life (snd (header_writer m))"
      using assms h own 2(1) unfolding life_def held_def writers_held_def tmp_held_def res fst_conv snd_conv same ids wids
      by (auto simp: own_writers_def s)
    then show ?thesis
      using \<open>sy_next (snd m) \<notin> writer_ids (snd m)\<close>
      by (simp add: mux_grows_def res ids wids new same)
  qed
qed

lemma mux_grows_refl: "life m \<Longrightarrow> mux_grows m m"
  by (rule mux_grows_same) simp_all

lemma Mp4MuxerIoctrl_grows: "life m \<Longrightarrow> local_cmd cmd \<Longrightarrow> mux_grows m (snd (Mp4MuxerIoctrl cmd m))"
  by (cases m; cases cmd)
    (auto simp: open_pb_grows register_callback_once open_once_grows set_stream_callback_def
      intro!: mux_grows_same)

lemma AacMuxerIoctrl_grows: "life m \<Longrightarrow> local_cmd cmd \<Longrightarrow> mux_grows m (snd (AacMuxerIoctrl cmd m))"
  by (cases m; cases cmd) (auto simp: open_pb_grows intro!: mux_grows_same)

lemma Mp3MuxerIoctrl_grows: "life m \<Longrightarrow> local_cmd cmd \<Longrightarrow> mux_grows m (snd (Mp3MuxerIoctrl cmd m))"
  by (cases m; cases cmd) (auto simp: open_pb_grows intro!: mux_grows_same)

lemma RawMuxerIoctrl_grows: "life m \<Longrightarrow> local_cmd cmd \<Longrightarrow> mux_grows m (snd (RawMuxerIoctrl cmd m))"
  by (cases m; cases cmd) (auto simp: open_once_grows intro!: mux_grows_same)

text \<open>The mode that a command of the TS muxer sets is no handle.\<close>

lemma own_list_mode [simp]: "own_list (c\<lparr>output_buffer_mode := a\<rparr>) = own_list c"
  by (simp add: own_list_def)

lemma life_mode [simp]: "life (c\<lparr>output_buffer_mode := a\<rparr>, s) = life (c, s)"
  by (simp add: life_def held_def writers_held_def tmp_held_def own_streams_def own_writers_def)

lemma mux_grows_mode:
  assumes "mux_grows m m'"
  shows "mux_grows ((fst m)\<lparr>output_buffer_mode := a\<rparr>, snd m) ((fst m')\<lparr>output_buffer_mode := b\<rparr>, snd m')"
  using assms unfolding mux_grows_def by (simp add: own_streams_def own_writers_def)

lemma Mpeg2tsMuxerIoctrl_grows:
  assumes "life m" and "local_cmd cmd"
  shows "mux_grows m (snd (Mpeg2tsMuxerIoctrl cmd m))"
proof -
  obtain c s where m: "m = (c, s)" by (cases m)
  have *: "mux_grows (c, s) ((fst (snd x))\<lparr>output_buffer_mode := b\<rparr>, snd (snd x))"
    if "mux_grows m (snd x)" for x :: "int \<times> mux" and b
    using mux_grows_mode [OF that, where a = "output_buffer_mode c" and b = b] by (simp add: m)
  have cb: "mux_grows (c, s) (snd (open_once Source_callback (c\<lparr>output_buffer_mode := b\<rparr>, s)))" for b
  proof -
    have l: "life (c\<lparr>output_buffer_mode := b\<rparr>, s)" using assms(1) by (simp add: m)
    let ?r = "snd (open_once Source_callback (c\<lparr>output_buffer_mode := b\<rparr>, s))"
    have "mux_grows (c\<lparr>output_buffer_mode := b\<rparr>, s) ?r" by (rule open_once_grows [OF l]) simp
    from mux_grows_mode [OF this, where a = "output_buffer_mode c" and b = "output_buffer_mode (fst ?r)"]
    show ?thesis by simp
  qed
  show ?thesis
  proof (cases cmd)
    case (SETCACHEFD url)
    then show ?thesis
      using assms * [of "open_pb (Source_path url) m"] open_pb_grows [OF assms(1), of "Source_path url"]
      by (auto simp: m case_prod_unfold Let_def)
  next
    case (SETCACHEFD2 fd)
    then show ?thesis
      using assms * [of "open_pb (Source_fd fd) m"] open_pb_grows [OF assms(1), of "Source_fd fd"]
      by (auto simp: m case_prod_unfold Let_def)
  next
    case REGISTER_WRITE_CALLBACK
    then show ?thesis using cb by (simp add: m register_callback_once)
  qed (use assms in \<open>auto simp: m set_stream_callback_def intro!: mux_grows_same\<close>)
qed

text \<open>The temporary files only add to what is held.\<close>

definition adds :: "mux \<Rightarrow> mux \<Rightarrow> bool" where
  "adds m m' \<longleftrightarrow> mux_grows m m' \<and> own_streams (fst m) \<subseteq> own_streams (fst m') \<and>
     pb_cache (fst m') = pb_cache (fst m) \<and> OutStreamHandle (fst m') = OutStreamHandle (fst m) \<and>
     mpFsWriter (fst m') = mpFsWriter (fst m)"

lemma adds_refl: "life m \<Longrightarrow> adds m m"
  by (simp add: adds_def mux_grows_refl)

lemma adds_trans: "adds m m1 \<Longrightarrow> adds m1 m2 \<Longrightarrow> adds m m2"
  unfolding adds_def mux_grows_def own_writers_def by auto

lemma movTmpPath_local: "\<not> is_http (movTmpPath f)"
  by (simp add: is_http_def movTmpPath_def lower_def)

lemma openMovTmpFile_adds:
  assumes "life m" and "f \<notin> fst ` set (page_fd (fst m))" and "f \<in> set close_list"
  shows "adds m (snd (openMovTmpFile f m))"
proof -
  have l: "case Source_path (movTmpPath f) of Source_path url \<Rightarrow> \<not> is_http url | _ \<Rightarrow> True"
    by (simp add: movTmpPath_local)
  show ?thesis
    using l
  proof (cases rule: create_local [of _ "snd m"])
    case (failed bs)
    then show ?thesis
      using assms(1) by (auto simp: openMovTmpFile_def adds_def intro!: mux_grows_same)
  next
    case (opened k bs)
    let ?n = "sy_next (snd m)"
    define m' where "m' = snd (openMovTmpFile f m)"
    have m': "m' = ((fst m)\<lparr>page_fd := page_fd (fst m) @ [(f, ?n)]\<rparr>,
        (snd m)\<lparr>sy_opens := bs, sy_streams := sy_streams (snd m) @ [(?n, k)], sy_next := ?n + 1,
          sy_tmp := sy_tmp (snd m) @ [f]\<rparr>)"
      by (simp add: m'_def openMovTmpFile_def opened(2))
    have own: "own_list (fst m') = own_list (fst m) @ [?n]"
      by (simp add: m' own_list_def split: option.splits)
    have ids: "stream_ids (snd m') = insert ?n (stream_ids (snd m))"
      and wids: "writer_ids (snd m') = writer_ids (snd m)"
      by (auto simp: m' stream_ids_def writer_ids_def)
    have n: "?n \<notin> stream_ids (snd m)" "?n \<notin> set (own_list (fst m))"
      using assms(1) by (auto simp: life_def held_def own_streams_def)
    have "life m'"
      using assms n opened(1)
      unfolding life_def held_def writers_held_def tmp_held_def ids wids own_streams_def own_writers_def own
      by (auto simp: m')
    moreover have "pb_cache (fst m') = pb_cache (fst m)" "OutStreamHandle (fst m') = OutStreamHandle (fst m)"
      "mpFsWriter (fst m') = mpFsWriter (fst m)" by (simp_all add: m')
    ultimately show ?thesis
      using n unfolding m'_def [symmetric]
      by (auto simp: adds_def mux_grows_def ids wids own_streams_def own own_writers_def)
  qed
qed

lemma open_pages_adds:
  "life m \<Longrightarrow> set fs \<subseteq> set close_list \<Longrightarrow> adds m (snd (open_pages fs m))"
proof (induction fs m rule: open_pages.induct)
  case (1 m)
  then show ?case by (simp add: adds_refl)
next
  case (2 f fs m)
  show ?case
  proof (cases "f \<in> fst ` set (page_fd (fst m))")
    case True
    then show ?thesis using 2 by simp
  next
    case False
    obtain ok m1 where o: "openMovTmpFile f m = (ok, m1)" by (cases "openMovTmpFile f m")
    then have a: "adds m m1" using openMovTmpFile_adds [OF 2(3) False] 2(4) by simp
    then have "life m1" by (simp add: adds_def mux_grows_def)
    then have "adds m1 (snd (open_pages fs m1))" if ok
      using 2(2) [OF False o [symmetric]] 2(4) that by (simp add: o)
    then show ?thesis using a adds_trans [OF a] False by (simp add: o)
  qed
qed

lemma mov_spill_adds:
  assumes "life m"
  shows "adds m (snd (mov_spill m))"
proof -
  have "set tmp_list \<subseteq> set close_list" by (simp add: tmp_list_def close_list_def)
  then show ?thesis using assms open_pages_adds [OF assms] by (simp add: mov_spill_def adds_refl)
qed

section \<open>Close gives back what is held\<close>

lemma destroy_held:
  assumes "held m" and "h \<in> own_streams (fst m)"
  shows "destroy_outstream_handle h (snd m) =
    Some ((snd m)\<lparr>sy_streams := filter (\<lambda>(i, _). i \<noteq> h) (sy_streams (snd m))\<rparr>)"
proof -
  obtain k where k: "map_of (sy_streams (snd m)) h = Some k"
    using assms by (cases "map_of (sy_streams (snd m)) h")
      (auto simp: held_def stream_ids_def map_of_eq_None_iff)
  then have "(h, k) \<in> set (sy_streams (snd m))" by (rule map_of_SomeD)
  then have "k \<noteq> Stream_network" using assms(1) by (force simp: held_def)
  then show ?thesis using k by (cases k) (simp_all add: destroy_outstream_handle_def)
qed

lemma ids_filter: "stream_ids (s\<lparr>sy_streams := filter (\<lambda>(i, _). i \<noteq> h) (sy_streams s)\<rparr>) = stream_ids s - {h}"
  by (force simp: stream_ids_def)

lemma close_pb_held:
  assumes "held m"
  obtains s where "close_pb m = Some ((fst m)\<lparr>pb_cache := None\<rparr>, s)"
    and "held ((fst m)\<lparr>pb_cache := None\<rparr>, s)"
    and "stream_ids s = stream_ids (snd m) - set_option (pb_cache (fst m))"
    and "sy_writers s = sy_writers (snd m)" and "sy_tmp s = sy_tmp (snd m)"
proof (cases "pb_cache (fst m)")
  case None
  then have c: "(fst m)\<lparr>pb_cache := None\<rparr> = fst m" by simp
  show thesis using assms None by (intro that [of "snd m"]) (simp_all add: close_pb_def c)
next
  case (Some h)
  then have h: "h \<in> own_streams (fst m)" by (simp add: own_streams_def own_list_def)
  let ?s = "(snd m)\<lparr>sy_streams := filter (\<lambda>(i, _). i \<noteq> h) (sy_streams (snd m))\<rparr>"
  have own: "own_list (fst m) = h # own_list ((fst m)\<lparr>pb_cache := None\<rparr>)"
    by (simp add: own_list_def Some)
  have "held ((fst m)\<lparr>pb_cache := None\<rparr>, ?s)"
    using assms unfolding held_def own_streams_def own fst_conv snd_conv ids_filter by auto
  then show thesis
    using Some by (intro that [of ?s]) (simp_all add: close_pb_def destroy_held [OF assms h] ids_filter)
qed

lemma close_out_held:
  assumes "held m"
  obtains s where "close_out m = Some ((fst m)\<lparr>OutStreamHandle := None\<rparr>, s)"
    and "held ((fst m)\<lparr>OutStreamHandle := None\<rparr>, s)"
    and "stream_ids s = stream_ids (snd m) - set_option (OutStreamHandle (fst m))"
    and "sy_writers s = sy_writers (snd m)" and "sy_tmp s = sy_tmp (snd m)"
proof (cases "OutStreamHandle (fst m)")
  case None
  then have c: "(fst m)\<lparr>OutStreamHandle := None\<rparr> = fst m" by simp
  show thesis using assms None by (intro that [of "snd m"]) (simp_all add: close_out_def c)
next
  case (Some h)
  then have h: "h \<in> own_streams (fst m)" by (simp add: own_streams_def own_list_def)
  let ?s = "(snd m)\<lparr>sy_streams := filter (\<lambda>(i, _). i \<noteq> h) (sy_streams (snd m))\<rparr>"
  have own: "own_streams ((fst m)\<lparr>OutStreamHandle := None\<rparr>) = own_streams (fst m) - {h}"
    "distinct (own_list ((fst m)\<lparr>OutStreamHandle := None\<rparr>))"
    using assms by (auto simp: own_streams_def own_list_def Some held_def split: option.splits)
  then have "held ((fst m)\<lparr>OutStreamHandle := None\<rparr>, ?s)"
    using assms unfolding held_def own fst_conv snd_conv ids_filter by auto
  then show thesis
    using Some by (intro that [of ?s]) (simp_all add: close_out_def destroy_held [OF assms h] ids_filter)
qed

lemma close_writer_held:
  assumes "held m" and "writers_held m"
  obtains s where "close_writer m = Some ((fst m)\<lparr>mpFsWriter := None\<rparr>, s)"
    and "held ((fst m)\<lparr>mpFsWriter := None\<rparr>, s)"
    and "writer_ids s = writer_ids (snd m) - own_writers (fst m)"
    and "sy_streams s = sy_streams (snd m)" and "sy_tmp s = sy_tmp (snd m)"
proof (cases "mpFsWriter (fst m)")
  case None
  then have c: "(fst m)\<lparr>mpFsWriter := None\<rparr> = fst m" by simp
  show thesis using assms None by (intro that [of "snd m"]) (simp_all add: close_writer_def c own_writers_def)
next
  case (Some k)
  let ?s = "(snd m)\<lparr>sy_writers := filter (\<lambda>(i, _). i \<noteq> k) (sy_writers (snd m))\<rparr>"
  obtain h where h: "map_of (sy_writers (snd m)) k = Some h"
    using assms(2) Some by (cases "map_of (sy_writers (snd m)) k")
      (auto simp: writers_held_def own_writers_def writer_ids_def map_of_eq_None_iff)
  then have "(k, h) \<in> set (sy_writers (snd m))" by (rule map_of_SomeD)
  then have "h \<in> fst ` set (sy_streams (snd m))"
    using assms(2) by (force simp: writers_held_def stream_ids_def)
  then have d: "destroyFsWriter k (snd m) = Some ?s" by (simp add: destroyFsWriter_def h)
  have "held ((fst m)\<lparr>mpFsWriter := None\<rparr>, ?s)"
    using assms(1) by (simp add: held_def own_streams_def own_list_def stream_ids_def)
  moreover have "writer_ids ?s = writer_ids (snd m) - {k}" by (force simp: writer_ids_def)
  ultimately show thesis
    using Some d by (intro that [of ?s]) (simp_all add: close_writer_def own_writers_def)
qed

definition without :: "(CHUNKID \<times> nat) set \<Rightarrow> mux_ctx \<Rightarrow> mux_ctx" where
  "without F c = c\<lparr>page_fd := filter (\<lambda>(g, _). g \<notin> F) (page_fd c)\<rparr>"

lemma without_simps [simp]:
  "pb_cache (without F c) = pb_cache c" "OutStreamHandle (without F c) = OutStreamHandle c"
  "mpFsWriter (without F c) = mpFsWriter c" "mbSdcardDisappear (without F c) = mbSdcardDisappear c"
  "set (page_fd (without F c)) = {x \<in> set (page_fd c). fst x \<notin> F}"
  by (auto simp: without_def)

lemma without_without: "without F (without G c) = without (G \<union> F) c"
  by (simp add: without_def case_prod_unfold)

lemma without_own:
  assumes "held (c, s)"
  shows "own_streams (without F c) = own_streams c - snd ` {x \<in> set (page_fd c). fst x \<in> F}"
    and "distinct (own_list (without F c))" and "distinct (map fst (page_fd (without F c)))"
proof -
  have d: "distinct (own_list c)" "distinct (map fst (page_fd c))" using assms by (simp_all add: held_def)
  have i: "inj_on snd (set (page_fd c))"
    using d(1) by (auto simp: own_list_def distinct_map)
  have "snd ` {x \<in> set (page_fd c). fst x \<notin> F} =
      snd ` set (page_fd c) - snd ` {x \<in> set (page_fd c). fst x \<in> F}"
    using i by (auto simp: inj_on_def)
  moreover have "set (case pb_cache c of None \<Rightarrow> [] | Some h \<Rightarrow> [h]) \<inter> snd ` set (page_fd c) = {}"
    "set (case OutStreamHandle c of None \<Rightarrow> [] | Some h \<Rightarrow> [h]) \<inter> snd ` set (page_fd c) = {}"
    using d(1) by (auto simp: own_list_def)
  ultimately show "own_streams (without F c) = own_streams c - snd ` {x \<in> set (page_fd c). fst x \<in> F}"
    by (auto simp: own_streams_def own_list_def)
  show "distinct (own_list (without F c))"
    using d(1) by (auto simp: own_list_def without_def distinct_map_filter)
  show "distinct (map fst (page_fd (without F c)))"
    using d(2) by (simp add: without_def distinct_map_filter)
qed

lemma close_page_held:
  assumes "held (c, s)" and "writers_held (c, s)" and "map_of (page_fd c) f = Some h"
    and "s1 = s\<lparr>sy_streams := filter (\<lambda>(i, _). i \<noteq> h) (sy_streams s)\<rparr>"
    and "s' = (if mbSdcardDisappear c then s1 else s1\<lparr>sy_tmp := filter (\<lambda>g. g \<noteq> f) (sy_tmp s1)\<rparr>)"
  shows "destroy_outstream_handle h s = Some s1" and "held (without {f} c, s')"
    and "writers_held (without {f} c, s')"
    and "stream_ids s' = stream_ids s - snd ` {x \<in> set (page_fd c). fst x = f}"
proof -
  have fh: "(f, h) \<in> set (page_fd c)" using assms(3) by (rule map_of_SomeD)
  have d: "distinct (map fst (page_fd c))" using assms(1) by (simp add: held_def)
  have only: "{x \<in> set (page_fd c). fst x = f} = {(f, h)}"
    using fh d by (auto dest: eq_key_imp_eq_value)
  have h: "h \<in> own_streams c" using fh by (force simp: own_streams_def own_list_def)
  then show "destroy_outstream_handle h s = Some s1"
    using destroy_held [OF assms(1), where h = h] by (simp add: assms(4))
  have ids: "stream_ids s' = stream_ids s - {h}"
    using ids_filter [where s = s and h = h] by (simp add: assms(4,5) stream_ids_def)
  then show "stream_ids s' = stream_ids s - snd ` {x \<in> set (page_fd c). fst x = f}" by (simp add: only)
  note own = without_own [OF assms(1), of "{f}", simplified only singleton_iff, simplified]
  have s': "sy_next s' = sy_next s" "set (sy_streams s') \<subseteq> set (sy_streams s)" "sy_writers s' = sy_writers s"
    by (auto simp: assms(4,5))
  show "held (without {f} c, s')"
    using assms(1) own s' by (auto simp: held_def ids)
  have "h \<notin> snd ` set (sy_writers s)"
    using assms(2) fh by (force simp: writers_held_def)
  then show "writers_held (without {f} c, s')"
    using assms(2) s' by (auto simp: writers_held_def ids own_writers_def writer_ids_def)
qed

lemma close_pages_held:
  assumes "held (c, s)" and "writers_held (c, s)"
  shows "\<exists>s'. close_pages fs (c, s) = Some (without (set fs) c, s') \<and>
     held (without (set fs) c, s') \<and> writers_held (without (set fs) c, s') \<and>
     stream_ids s' = stream_ids s - snd ` {x \<in> set (page_fd c). fst x \<in> set fs} \<and>
     sy_writers s' = sy_writers s \<and>
     (mbSdcardDisappear c \<longrightarrow> sy_tmp s' = sy_tmp s) \<and>
     (\<not> mbSdcardDisappear c \<longrightarrow> tmp_held (c, s) \<longrightarrow> tmp_held (without (set fs) c, s'))"
  using assms
proof (induction fs arbitrary: c s)
  case Nil
  have "without {} c = c" by (simp add: without_def case_prod_unfold)
  then show ?case using Nil by simp
next
  case (Cons f fs)
  show ?case
  proof (cases "map_of (page_fd c) f")
    case None
    then have f: "f \<notin> fst ` set (page_fd c)" by (simp add: map_of_eq_None_iff)
    then have "\<forall>x \<in> set (page_fd c). fst x \<noteq> f" by auto
    then have "filter (\<lambda>(g, _). g \<notin> set (f # fs)) (page_fd c) = filter (\<lambda>(g, _). g \<notin> set fs) (page_fd c)"
      by (auto intro!: filter_cong)
    then have "without (set (f # fs)) c = without (set fs) c" by (simp add: without_def)
    moreover have "{x \<in> set (page_fd c). fst x \<in> set (f # fs)} = {x \<in> set (page_fd c). fst x \<in> set fs}"
      using f by auto
    ultimately show ?thesis using Cons.IH [OF Cons.prems] None by simp
  next
    case (Some h)
    define s1 where "s1 = s\<lparr>sy_streams := filter (\<lambda>(i, _). i \<noteq> h) (sy_streams s)\<rparr>"
    define s2 where "s2 = (if mbSdcardDisappear c then s1 else s1\<lparr>sy_tmp := filter (\<lambda>g. g \<noteq> f) (sy_tmp s1)\<rparr>)"
    note one = close_page_held [OF Cons.prems Some s1_def s2_def]
    have w: "without (set fs) (without {f} c) = without (set (f # fs)) c"
      by (simp add: without_without)
    from Cons.IH [OF one(2,3)] obtain s' where ih:
      "close_pages fs (without {f} c, s2) = Some (without (set (f # fs)) c, s')"
      "held (without (set (f # fs)) c, s')" "writers_held (without (set (f # fs)) c, s')"
      "stream_ids s' = stream_ids s2 - snd ` {x \<in> set (page_fd (without {f} c)). fst x \<in> set fs}"
      "sy_writers s' = sy_writers s2" "mbSdcardDisappear c \<longrightarrow> sy_tmp s' = sy_tmp s2"
      "\<not> mbSdcardDisappear c \<longrightarrow> tmp_held (without {f} c, s2) \<longrightarrow> tmp_held (without (set (f # fs)) c, s')"
      unfolding w without_simps(4) by blast
    have "close_pages (f # fs) (c, s) = close_pages fs (without {f} c, s2)"
      by (simp add: Some one(1) s2_def without_def)
    moreover have "sy_writers s2 = sy_writers s" "mbSdcardDisappear c \<longrightarrow> sy_tmp s2 = sy_tmp s"
      "\<not> mbSdcardDisappear c \<longrightarrow> tmp_held (c, s) \<longrightarrow> tmp_held (without {f} c, s2)"
      by (auto simp: s1_def s2_def tmp_held_def)
    moreover have "stream_ids s' = stream_ids s - snd ` {x \<in> set (page_fd c). fst x \<in> set (f # fs)}"
      unfolding ih(4) one(4) without_simps by auto
    ultimately show ?thesis using ih(1-3,5-7) by (intro exI [of _ s']) argo
  qed
qed

section \<open>What every muxer keeps\<close>

text \<open>
  The contract of a muxer: what its context looks like, what its steps open, what they let go, and
  what \<open>MuxerClose\<close> gives back. \<open>kept\<close> are the handles that \<open>MuxerClose\<close> leaves.
\<close>

fun opens_stream :: "mux_step \<Rightarrow> bool" where
  "opens_stream (Cmd (SETCACHEFD url)) \<longleftrightarrow> True"
| "opens_stream (Cmd (SETCACHEFD2 fd)) \<longleftrightarrow> True"
| "opens_stream _ \<longleftrightarrow> False"

text \<open>The streams and the writers that a session loses: the context no longer names them.\<close>

fun dropped_streams :: "CDX_RecordWriter \<Rightarrow> mux_step list \<Rightarrow> mux \<Rightarrow> nat set" where
  "dropped_streams w [] m = {}"
| "dropped_streams w (st # steps) m =
     (case mux_do w st m of
        None \<Rightarrow> {}
      | Some m' \<Rightarrow> (own_streams (fst m) - own_streams (fst m')) \<union> dropped_streams w steps m')"

fun dropped_writers :: "CDX_RecordWriter \<Rightarrow> mux_step list \<Rightarrow> mux \<Rightarrow> nat set" where
  "dropped_writers w [] m = {}"
| "dropped_writers w (st # steps) m =
     (case mux_do w st m of
        None \<Rightarrow> {}
      | Some m' \<Rightarrow> (own_writers (fst m) - own_writers (fst m')) \<union> dropped_writers w steps m')"

definition new_system :: "bool list \<Rightarrow> bool list \<Rightarrow> system" where
  "new_system opens makes = \<lparr>sy_streams = [], sy_writers = [], sy_tmp = [], sy_next = 0,
     sy_opens = opens, sy_makes = makes\<rparr>"

lemma life_new: "life (new_ctx, new_system opens makes)"
  by (simp add: life_def held_def writers_held_def tmp_held_def own_streams_def own_list_def
      own_writers_def stream_ids_def writer_ids_def new_ctx_def new_system_def)

lemma new_nothing:
  "own_streams new_ctx = {}" "own_writers new_ctx = {}"
  "stream_ids (new_system opens makes) = {}" "writer_ids (new_system opens makes) = {}"
  by (simp_all add: own_streams_def own_list_def own_writers_def stream_ids_def writer_ids_def
      new_ctx_def new_system_def)

lemma lost_set: "A \<subseteq> I \<Longrightarrow> (B - A) \<inter> I = {} \<Longrightarrow> (I \<union> (B - A)) - B = (I - A) \<union> (A - B)"
  for A B I :: "'a set"
  by blast

lemma mux_grows_lost:
  assumes "life m" and "mux_grows m m'"
  shows "stream_ids (snd m') - own_streams (fst m') =
      (stream_ids (snd m) - own_streams (fst m)) \<union> (own_streams (fst m) - own_streams (fst m'))"
    and "writer_ids (snd m') - own_writers (fst m') =
      (writer_ids (snd m) - own_writers (fst m)) \<union> (own_writers (fst m) - own_writers (fst m'))"
proof -
  have "own_streams (fst m) \<subseteq> stream_ids (snd m)" "own_writers (fst m) \<subseteq> writer_ids (snd m)"
    using assms(1) by (simp_all add: life_def held_def writers_held_def)
  then show
    "stream_ids (snd m') - own_streams (fst m') =
      (stream_ids (snd m) - own_streams (fst m)) \<union> (own_streams (fst m) - own_streams (fst m'))"
    "writer_ids (snd m') - own_writers (fst m') =
      (writer_ids (snd m) - own_writers (fst m)) \<union> (own_writers (fst m) - own_writers (fst m'))"
    using assms(2) by (simp_all add: mux_grows_def lost_set)
qed

locale muxer_life =
  fixes w :: CDX_RecordWriter and shape :: "mux_ctx \<Rightarrow> bool" and kept :: "mux_ctx \<Rightarrow> nat set"
    and eager :: bool
  assumes open_fresh: "MuxerOpen w = new_ctx" "shape new_ctx"
    and step_grows: "life m \<Longrightarrow> shape (fst m) \<Longrightarrow> local_step st \<Longrightarrow> mux_do w st m = Some m' \<Longrightarrow>
          mux_grows m m' \<and> shape (fst m')"
    and step_drops: "life m \<Longrightarrow> shape (fst m) \<Longrightarrow> local_step st \<Longrightarrow> mux_do w st m = Some m' \<Longrightarrow>
          (opens_stream st \<and> own_streams (fst m) - own_streams (fst m') \<subseteq> set_option (pb_cache (fst m)) \<or>
           pb_cache (fst m') = pb_cache (fst m) \<and> own_streams (fst m) \<subseteq> own_streams (fst m')) \<and>
          (st = Header \<or> mpFsWriter (fst m') = mpFsWriter (fst m))"
    and step_faults: "mux_do w st m = None \<Longrightarrow> eager \<and> st = Header"
    and close_gives: "life m \<Longrightarrow> shape (fst m) \<Longrightarrow>
          \<exists>c' s'. MuxerClose w m = Some (c', s') \<and>
            stream_ids s' = stream_ids (snd m) - (own_streams (fst m) - kept (fst m)) \<and>
            writer_ids s' = writer_ids (snd m) - own_writers (fst m) \<and>
            (\<not> mbSdcardDisappear (fst m) \<longrightarrow> sy_tmp s' = [])"
    and kept_owned: "shape c \<Longrightarrow> kept c \<subseteq> own_streams c"
begin

lemma run_keeps:
  assumes "life m" and "shape (fst m)" and "\<forall>st \<in> set steps. local_step st"
    and "mux_run w steps m = Some m'"
  shows "life m' \<and> shape (fst m') \<and>
    stream_ids (snd m') - own_streams (fst m') =
      (stream_ids (snd m) - own_streams (fst m)) \<union> dropped_streams w steps m \<and>
    writer_ids (snd m') - own_writers (fst m') =
      (writer_ids (snd m) - own_writers (fst m)) \<union> dropped_writers w steps m"
  using assms
proof (induction steps arbitrary: m)
  case (Cons st steps)
  then obtain m1 where m1: "mux_do w st m = Some m1" and run: "mux_run w steps m1 = Some m'"
    by (cases "mux_do w st m") auto
  have g: "mux_grows m m1" "shape (fst m1)"
    using step_grows [OF Cons.prems(1,2) _ m1] Cons.prems(3) by auto
  then have l: "life m1" by (simp add: mux_grows_def)
  from Cons.IH [OF l g(2) _ run] Cons.prems(3) show ?case
    by (simp add: m1 mux_grows_lost [OF Cons.prems(1) g(1)] Un_assoc)
qed simp

lemma session:
  assumes "\<forall>st \<in> set steps. local_step st"
  shows "case mux_run w steps (MuxerOpen w, new_system opens makes) of
      None \<Rightarrow> eager \<and> Header \<in> set steps
    | Some (c, s) \<Rightarrow> \<exists>c' s'. MuxerClose w (c, s) = Some (c', s') \<and>
        stream_ids s' = dropped_streams w steps (MuxerOpen w, new_system opens makes) \<union> kept c \<and>
        writer_ids s' = dropped_writers w steps (MuxerOpen w, new_system opens makes) \<and>
        (\<not> mbSdcardDisappear c \<longrightarrow> sy_tmp s' = [])"
proof (cases "mux_run w steps (MuxerOpen w, new_system opens makes)")
  case None
  have "eager \<and> Header \<in> set ss" if "mux_run w ss m = None" for ss m
    using that
  proof (induction ss arbitrary: m)
    case (Cons st ss)
    then show ?case using step_faults [of st m] by (cases "mux_do w st m") auto
  qed simp
  then show ?thesis using None by simp
next
  case (Some m)
  obtain c s where m: "m = (c, s)" by (cases m)
  let ?m0 = "(MuxerOpen w, new_system opens makes)"
  have "life ?m0" "shape (fst ?m0)" using open_fresh life_new by simp_all
  from run_keeps [OF this assms Some]
  have k: "life (c, s)" "shape c"
    "stream_ids s - own_streams c = dropped_streams w steps ?m0"
    "writer_ids s - own_writers c = dropped_writers w steps ?m0"
    by (simp_all add: m open_fresh new_nothing)
  have "own_streams c \<subseteq> stream_ids s" using k(1) by (simp add: life_def held_def)
  moreover from close_gives [OF k(1)] k(2) obtain c' s' where close:
    "MuxerClose w (c, s) = Some (c', s')"
    "stream_ids s' = stream_ids s - (own_streams c - kept c)"
    "writer_ids s' = writer_ids s - own_writers c" "\<not> mbSdcardDisappear c \<longrightarrow> sy_tmp s' = []" by auto
  ultimately have "stream_ids s' = dropped_streams w steps ?m0 \<union> kept c"
    using k(3) kept_owned [OF k(2)] by blast
  then show ?thesis using close k(4) by (simp add: Some m)
qed

text \<open>With one file and one header nothing is lost.\<close>

lemma drops_no_stream:
  assumes "life m" and "shape (fst m)" and "\<forall>st \<in> set steps. local_step st"
    and "length (filter opens_stream steps) \<le> (if pb_cache (fst m) = None then 1 else 0)"
  shows "dropped_streams w steps m = {}"
  using assms
proof (induction steps arbitrary: m)
  case (Cons st steps)
  show ?case
  proof (cases "mux_do w st m")
    case (Some m1)
    have st: "local_step st" using Cons.prems(3) by simp
    have g: "life m1" "shape (fst m1)"
      using step_grows [OF Cons.prems(1,2) st Some] by (auto simp: mux_grows_def)
    note d = step_drops [OF Cons.prems(1,2) st Some]
    have "own_streams (fst m) - own_streams (fst m1) = {}"
      "length (filter opens_stream steps) \<le> (if pb_cache (fst m1) = None then 1 else 0)"
      using d Cons.prems(4) by (auto split: if_splits)
    then show ?thesis using Cons.IH [OF g] Cons.prems(3) Some by simp
  qed simp
qed simp

lemma drops_no_writer:
  assumes "life m" and "shape (fst m)" and "\<forall>st \<in> set steps. local_step st"
    and "length (filter ((=) Header) steps) \<le> (if mpFsWriter (fst m) = None then 1 else 0)"
  shows "dropped_writers w steps m = {}"
  using assms
proof (induction steps arbitrary: m)
  case (Cons st steps)
  show ?case
  proof (cases "mux_do w st m")
    case (Some m1)
    have st: "local_step st" using Cons.prems(3) by simp
    have g: "life m1" "shape (fst m1)"
      using step_grows [OF Cons.prems(1,2) st Some] by (auto simp: mux_grows_def)
    note d = step_drops [OF Cons.prems(1,2) st Some]
    have "own_writers (fst m) - own_writers (fst m1) = {}"
      "length (filter ((=) Header) steps) \<le> (if mpFsWriter (fst m1) = None then 1 else 0)"
      using d Cons.prems(4) by (auto simp: own_writers_def split: if_splits)
    then show ?thesis using Cons.IH [OF g] Cons.prems(3) Some by simp
  qed simp
qed simp

lemma nothing_dropped:
  assumes "\<forall>st \<in> set steps. local_step st"
    and "length (filter opens_stream steps) \<le> 1" and "length (filter ((=) Header) steps) \<le> 1"
  shows "dropped_streams w steps (MuxerOpen w, new_system opens makes) = {}"
    and "dropped_writers w steps (MuxerOpen w, new_system opens makes) = {}"
proof -
  have "pb_cache new_ctx = None" "mpFsWriter new_ctx = None" by (simp_all add: new_ctx_def)
  then show "dropped_streams w steps (MuxerOpen w, new_system opens makes) = {}"
    and "dropped_writers w steps (MuxerOpen w, new_system opens makes) = {}"
    using drops_no_stream [OF _ _ assms(1)] drops_no_writer [OF _ _ assms(1)] assms(2,3) open_fresh
    by (simp_all add: life_new)
qed

end

end
