(* ===== verification/MuxTable.thy ===== *)
theory MuxTable
  imports MuxLife
begin

text \<open>
  The muxers of the table in muxers/record_writer.c keep the contract of \<open>MuxLife\<close>.
\<close>

section \<open>The muxers keep the contract\<close>















lemma mov_spill_adds_drops:
  "life m \<Longrightarrow> pb_cache (fst (snd (mov_spill m))) = pb_cache (fst m) \<and>
    own_streams (fst m) \<subseteq> own_streams (fst (snd (mov_spill m))) \<and>
    mpFsWriter (fst (snd (mov_spill m))) = mpFsWriter (fst m)"
  using mov_spill_adds [of m] by (simp add: adds_def)



section \<open>The contexts of the muxers, and what they close\<close>
































section \<open>Properties\<close>







end
