(* ===== verification/ThreadPool.thy ===== *)
theory ThreadPool
  imports Prelude "HOL-Library.Multiset"
begin

text \<open>
  The thread pool of the tuning server (libisp/tuning_app/thread_pool.c): a list of nodes that only
  grows, each with at most one thread; \<open>add_work\<close> gives a work to the first node without one, and a
  node without a thread gets a thread first; \<open>exit_thread_pool\<close> stops the threads, waits for them and
  frees the list.

  \<open>add_work\<close> and \<open>exit_thread_pool\<close> hold \<open>g_global_lock\<close> from start to end, so there is one caller at
  a time; between the locks of the nodes it and the threads interleave in every way. A step is what
  one side does under the lock of a node, or without a lock. A work is a number (a function and its
  parameters); a null function is the work \<open>None\<close>.
\<close>

section \<open>Nodes, threads and the caller\<close>

datatype work_thread_flag =
    WORK_THREAD_STOP_NOT | WORK_THREAD_STOP_YES
  | WORK_THREAD_WORK_NOT | WORK_THREAD_WORK_YES
  | WORK_THREAD_EXIT_NOT | WORK_THREAD_EXIT_YES

text \<open>Where the thread of a node is in \<open>do_work_thread\<close>.\<close>

datatype thread_pc =
    No_thread
  | T_Stop             \<comment> \<open>about to read \<open>stop_flag\<close>\<close>
  | T_Work             \<comment> \<open>about to read \<open>work_flag\<close>\<close>
  | T_Call             \<comment> \<open>about to read \<open>thread_handle\<close>\<close>
  | T_Run nat          \<comment> \<open>in the work\<close>
  | T_Clear            \<comment> \<open>about to clear \<open>work_flag\<close>\<close>
  | T_Exit             \<comment> \<open>about to clear the node and to end\<close>

record work_thread_params =
  stop_flag :: work_thread_flag
  work_flag :: work_thread_flag
  status :: work_thread_flag
  thread_handle :: "nat option"
  thread_pc :: thread_pc

definition set_zero_work_thread_params :: "work_thread_params \<Rightarrow> work_thread_params" where
  "set_zero_work_thread_params p =
     p\<lparr>stop_flag := WORK_THREAD_STOP_NOT, work_flag := WORK_THREAD_WORK_NOT,
       status := WORK_THREAD_EXIT_YES, thread_handle := None\<rparr>"

text \<open>A node that was just allocated and cleared; it has no thread.\<close>

definition new_node :: work_thread_params where
  "new_node = \<lparr>stop_flag = WORK_THREAD_STOP_NOT, work_flag = WORK_THREAD_WORK_NOT,
     status = WORK_THREAD_EXIT_YES, thread_handle = None, thread_pc = No_thread\<rparr>"

text \<open>
  One step of \<open>do_work_thread\<close>. The second component is the work that the step finishes, the third
  the work that it forgets: the thread ends without having looked at \<open>work_flag\<close> again.
\<close>

definition do_work_thread :: "work_thread_params \<Rightarrow> work_thread_params \<times> nat list \<times> nat list" where
  "do_work_thread p =
     (case thread_pc p of
        No_thread \<Rightarrow> (p, [], [])
      | T_Stop \<Rightarrow> (p\<lparr>thread_pc := if stop_flag p = WORK_THREAD_STOP_NOT then T_Work else T_Exit\<rparr>, [], [])
      | T_Work \<Rightarrow> (p\<lparr>thread_pc := if work_flag p = WORK_THREAD_WORK_YES then T_Call else T_Stop\<rparr>, [], [])
      | T_Call \<Rightarrow> (p\<lparr>thread_pc := case thread_handle p of None \<Rightarrow> T_Clear | Some w \<Rightarrow> T_Run w\<rparr>, [], [])
      | T_Run w \<Rightarrow> (p\<lparr>thread_pc := T_Clear\<rparr>, [w], [])
      | T_Clear \<Rightarrow> (p\<lparr>work_flag := WORK_THREAD_WORK_NOT, thread_pc := T_Stop\<rparr>, [], [])
      | T_Exit \<Rightarrow>
          ((set_zero_work_thread_params p)\<lparr>thread_pc := No_thread\<rparr>, [],
           if work_flag p = WORK_THREAD_WORK_YES then (case thread_handle p of None \<Rightarrow> [] | Some w \<Rightarrow> [w]) else []))"

text \<open>Where the caller is: at which node of which loop.\<close>

datatype caller =
    Idle
  | Adding "nat option" nat      \<comment> \<open>\<open>add_work\<close>, at a node\<close>
  | Stopping nat                 \<comment> \<open>\<open>exit_thread_pool\<close>, first loop\<close>
  | Joining nat                  \<comment> \<open>\<open>exit_thread_pool\<close>, second loop\<close>

text \<open>
  The pool. \<open>pool_alive\<close> says whether the list and the lock exist; \<open>pool_fault\<close> is a use of the freed
  list, of the null head or of a freed node by a thread. \<open>accepted\<close>, \<open>finished\<close>, \<open>forgotten\<close> and
  \<open>stopped\<close> (\<open>exit_thread_pool\<close> has been called) are not read by any step.
\<close>

record pool =
  nodes :: "work_thread_params list"
  pool_alive :: bool
  caller :: caller
  add_result :: int
  pool_fault :: bool
  accepted :: "nat list"
  finished :: "nat list"
  forgotten :: "nat list"
  stopped :: bool

definition init_thread_pool :: pool where
  "init_thread_pool = \<lparr>nodes = replicate 6 new_node, pool_alive = True, caller = Idle, add_result = 0,
     pool_fault = False, accepted = [], finished = [], forgotten = [], stopped = False\<rparr>"

section \<open>The operations\<close>

definition accept :: "nat option \<Rightarrow> nat list \<Rightarrow> nat list" where
  "accept w ws = (case w of None \<Rightarrow> ws | Some j \<Rightarrow> ws @ [j])"

text \<open>A node gets a work; with its thread first (\<open>ok\<close>: \<open>pthread_create\<close> succeeds) or without.\<close>

definition give_work :: "nat option \<Rightarrow> work_thread_params \<Rightarrow> work_thread_params" where
  "give_work w p = p\<lparr>thread_handle := w, work_flag := WORK_THREAD_WORK_YES\<rparr>"

definition create_and_give :: "bool \<Rightarrow> nat option \<Rightarrow> work_thread_params \<Rightarrow> work_thread_params" where
  "create_and_give ok w p =
     (let p0 = set_zero_work_thread_params p
      in if ok then give_work w (p0\<lparr>status := WORK_THREAD_EXIT_NOT, thread_pc := T_Stop\<rparr>) else p0)"

definition returned :: "bool \<Rightarrow> nat option \<Rightarrow> pool \<Rightarrow> pool" where
  "returned ok w s =
     s\<lparr>caller := Idle, add_result := (if ok then 0 else - 1),
       accepted := (if ok then accept w (accepted s) else accepted s)\<rparr>"

definition add_work_step :: "bool \<Rightarrow> nat option \<Rightarrow> nat \<Rightarrow> pool \<Rightarrow> pool" where
  "add_work_step ok w i s =
     (if i < length (nodes s) then
        let p = nodes s ! i
        in if status p = WORK_THREAD_EXIT_YES
           then returned ok w (s\<lparr>nodes := (nodes s)[i := create_and_give ok w p]\<rparr>)
           else if work_flag p = WORK_THREAD_WORK_NOT
           then returned True w (s\<lparr>nodes := (nodes s)[i := give_work w p]\<rparr>)
           else s\<lparr>caller := Adding w (i + 1)\<rparr>
      else returned ok w (s\<lparr>nodes := nodes s @ [create_and_give ok w new_node]\<rparr>))"

definition exit_stop_step :: "nat \<Rightarrow> pool \<Rightarrow> pool" where
  "exit_stop_step i s =
     (if i < length (nodes s)
      then s\<lparr>nodes := (nodes s)[i := (nodes s ! i)\<lparr>stop_flag := WORK_THREAD_STOP_YES\<rparr>], caller := Stopping (i + 1)\<rparr>
      else s\<lparr>caller := Joining 0\<rparr>)"

text \<open>The list is freed after the last node: a fault, when a thread still has its node.\<close>

definition exit_join_step :: "nat \<Rightarrow> pool \<Rightarrow> pool" where
  "exit_join_step i s =
     (if i < length (nodes s)
      then if status (nodes s ! i) = WORK_THREAD_EXIT_NOT then s else s\<lparr>caller := Joining (i + 1)\<rparr>
      else s\<lparr>nodes := [], pool_alive := False, caller := Idle,
             pool_fault := pool_fault s \<or> (\<exists>p \<in> set (nodes s). thread_pc p \<noteq> No_thread)\<rparr>)"

definition caller_step :: "bool \<Rightarrow> pool \<Rightarrow> pool" where
  "caller_step ok s =
     (case caller s of
        Idle \<Rightarrow> s
      | Adding w i \<Rightarrow> add_work_step ok w i s
      | Stopping i \<Rightarrow> exit_stop_step i s
      | Joining i \<Rightarrow> exit_join_step i s)"

text \<open>The calls. Without a list, both dereference the null head.\<close>

definition add_work :: "nat option \<Rightarrow> pool \<Rightarrow> pool" where
  "add_work w s = (if pool_alive s then s\<lparr>caller := Adding w 0\<rparr> else s\<lparr>pool_fault := True\<rparr>)"

definition exit_thread_pool :: "pool \<Rightarrow> pool" where
  "exit_thread_pool s =
     (if pool_alive s then s\<lparr>caller := Stopping 0, stopped := True\<rparr> else s\<lparr>pool_fault := True\<rparr>)"

definition worker_step :: "nat \<Rightarrow> pool \<Rightarrow> pool" where
  "worker_step i s =
     (let (p, fin, lost) = do_work_thread (nodes s ! i)
      in s\<lparr>nodes := (nodes s)[i := p], finished := finished s @ fin, forgotten := forgotten s @ lost\<rparr>)"

datatype actor = Caller | Worker nat

inductive pool_step :: "actor \<Rightarrow> pool \<Rightarrow> pool \<Rightarrow> bool" where
  worker: "i < length (nodes s) \<Longrightarrow> thread_pc (nodes s ! i) \<noteq> No_thread \<Longrightarrow>
     pool_step (Worker i) s (worker_step i s)"
| call_add: "caller s = Idle \<Longrightarrow> pool_step Caller s (add_work w s)"
| call_exit: "caller s = Idle \<Longrightarrow> pool_step Caller s (exit_thread_pool s)"
| goes_on: "caller s \<noteq> Idle \<Longrightarrow> pool_step Caller s (caller_step ok s)"

inductive_cases pool_stepE: "pool_step a s s'"

inductive pool_reach :: "pool \<Rightarrow> bool" where
  start: "pool_reach init_thread_pool"
| step: "pool_reach s \<Longrightarrow> pool_step a s s' \<Longrightarrow> pool_reach s'"

section \<open>The invariant of a node\<close>

definition node_ok :: "work_thread_params \<Rightarrow> bool" where
  "node_ok p \<longleftrightarrow>
     status p = (if thread_pc p = No_thread then WORK_THREAD_EXIT_YES else WORK_THREAD_EXIT_NOT) \<and>
     (thread_pc p = No_thread \<longrightarrow> work_flag p = WORK_THREAD_WORK_NOT) \<and>
     (thread_pc p = T_Call \<longrightarrow> work_flag p = WORK_THREAD_WORK_YES) \<and>
     (thread_pc p = T_Clear \<longrightarrow> work_flag p = WORK_THREAD_WORK_YES) \<and>
     (thread_pc p = T_Exit \<longrightarrow> stop_flag p \<noteq> WORK_THREAD_STOP_NOT) \<and>
     (\<forall>w. thread_pc p = T_Run w \<longrightarrow> work_flag p = WORK_THREAD_WORK_YES \<and> thread_handle p = Some w)"

text \<open>The work of a node that has not been finished.\<close>

definition pending :: "work_thread_params \<Rightarrow> nat list" where
  "pending p =
     (if work_flag p = WORK_THREAD_WORK_YES \<and> thread_pc p \<noteq> T_Clear
      then (case thread_handle p of None \<Rightarrow> [] | Some w \<Rightarrow> [w]) else [])"

definition idle_or_stopping :: "work_thread_params \<Rightarrow> bool" where
  "idle_or_stopping p \<longleftrightarrow> thread_pc p = No_thread \<or> stop_flag p \<noteq> WORK_THREAD_STOP_NOT"

lemmas node_defs = node_ok_def pending_def do_work_thread_def set_zero_work_thread_params_def
  give_work_def create_and_give_def new_node_def

lemma do_work_thread_ok:
  assumes "node_ok p" and "do_work_thread p = (p', fin, lost)"
  shows "node_ok p'" and "mset (pending p) = mset (pending p') + mset fin + mset lost"
    and "lost \<noteq> [] \<Longrightarrow> stop_flag p \<noteq> WORK_THREAD_STOP_NOT"
    and "stop_flag p' \<noteq> WORK_THREAD_STOP_NOT \<Longrightarrow> stop_flag p \<noteq> WORK_THREAD_STOP_NOT"
    and "idle_or_stopping p \<Longrightarrow> idle_or_stopping p'"
    and "thread_pc p = No_thread \<Longrightarrow> p' = p"
proof -
  show "node_ok p'"
    using assms by (cases "thread_pc p") (auto simp: node_defs split: option.splits if_splits)
  show "mset (pending p) = mset (pending p') + mset fin + mset lost"
    using assms by (cases "thread_pc p") (auto simp: node_defs split: option.splits if_splits)
  show "lost \<noteq> [] \<Longrightarrow> stop_flag p \<noteq> WORK_THREAD_STOP_NOT"
    using assms by (cases "thread_pc p") (auto simp: node_defs)
  show "stop_flag p' \<noteq> WORK_THREAD_STOP_NOT \<Longrightarrow> stop_flag p \<noteq> WORK_THREAD_STOP_NOT"
    using assms by (cases "thread_pc p") (auto simp: node_defs)
  show "idle_or_stopping p \<Longrightarrow> idle_or_stopping p'"
    using assms by (cases "thread_pc p") (auto simp: node_defs idle_or_stopping_def split: if_splits)
  show "thread_pc p = No_thread \<Longrightarrow> p' = p"
    using assms by (auto simp: node_defs)
qed

lemma new_node_ok: "node_ok new_node" "pending new_node = []" "stop_flag new_node = WORK_THREAD_STOP_NOT"
  "thread_pc new_node = No_thread" "status new_node = WORK_THREAD_EXIT_YES"
  by (simp_all add: node_defs)

lemma create_and_give_ok:
  assumes "node_ok p" and "status p = WORK_THREAD_EXIT_YES"
  shows "node_ok (create_and_give ok w p)"
    and "mset (pending (create_and_give ok w p)) = (if ok then mset (accept w []) else {#})"
    and "pending p = []" and "stop_flag (create_and_give ok w p) = WORK_THREAD_STOP_NOT"
proof -
  have "thread_pc p = No_thread" using assms by (simp add: node_ok_def split: if_splits)
  then show "node_ok (create_and_give ok w p)" "pending p = []"
    "mset (pending (create_and_give ok w p)) = (if ok then mset (accept w []) else {#})"
    "stop_flag (create_and_give ok w p) = WORK_THREAD_STOP_NOT"
    using assms(1) by (cases ok; simp add: node_defs accept_def split: option.split)+
qed

lemma give_work_ok:
  assumes "node_ok p" and "status p \<noteq> WORK_THREAD_EXIT_YES" and "work_flag p = WORK_THREAD_WORK_NOT"
  shows "node_ok (give_work w p)" and "mset (pending (give_work w p)) = mset (accept w [])"
    and "pending p = []" and "stop_flag (give_work w p) = stop_flag p"
proof -
  have pc: "thread_pc p \<noteq> No_thread" "thread_pc p \<noteq> T_Call" "thread_pc p \<noteq> T_Clear" "thread_pc p \<noteq> T_Run j" for j
    using assms by (auto simp: node_ok_def)
  then show "node_ok (give_work w p)" "pending p = []"
    "mset (pending (give_work w p)) = mset (accept w [])" "stop_flag (give_work w p) = stop_flag p"
    using assms(1,3) by (simp_all add: node_ok_def pending_def give_work_def accept_def split: option.split)
qed

lemma stop_node_ok:
  assumes "node_ok p"
  shows "node_ok (p\<lparr>stop_flag := WORK_THREAD_STOP_YES\<rparr>)"
    and "pending (p\<lparr>stop_flag := WORK_THREAD_STOP_YES\<rparr>) = pending p"
    and "idle_or_stopping (p\<lparr>stop_flag := WORK_THREAD_STOP_YES\<rparr>)"
proof -
  show "node_ok (p\<lparr>stop_flag := WORK_THREAD_STOP_YES\<rparr>)"
    using assms unfolding node_ok_def by fastforce
qed (simp_all add: pending_def idle_or_stopping_def)

section \<open>The invariant of the pool\<close>

definition open_work :: "pool \<Rightarrow> nat multiset" where
  "open_work s = (\<Sum>p \<leftarrow> nodes s. mset (pending p))"

definition pool_inv :: "pool \<Rightarrow> bool" where
  "pool_inv s \<longleftrightarrow>
     (\<forall>p \<in> set (nodes s). node_ok p) \<and>
     mset (accepted s) = mset (finished s) + mset (forgotten s) + open_work s \<and>
     (forgotten s \<noteq> [] \<longrightarrow> stopped s) \<and>
     (\<forall>p \<in> set (nodes s). stop_flag p \<noteq> WORK_THREAD_STOP_NOT \<longrightarrow> stopped s) \<and>
     (\<not> pool_alive s \<longrightarrow> nodes s = [] \<and> caller s = Idle) \<and>
     (case caller s of
        Stopping i \<Rightarrow> stopped s \<and> (\<forall>j < min i (length (nodes s)). idle_or_stopping (nodes s ! j))
      | Joining i \<Rightarrow> stopped s \<and> (\<forall>p \<in> set (nodes s). idle_or_stopping p) \<and>
          (\<forall>j < min i (length (nodes s)). thread_pc (nodes s ! j) = No_thread)
      | _ \<Rightarrow> True)"

lemma sum_list_update_mset:
  "i < length xs \<Longrightarrow> (\<Sum>p \<leftarrow> xs[i := q]. f p) + f (xs ! i) = (\<Sum>p \<leftarrow> xs. f p) + (f q :: 'a multiset)"
proof (induction xs arbitrary: i)
  case (Cons x xs)
  show ?case
  proof (cases i)
    case (Suc n)
    then have "(\<Sum>p \<leftarrow> xs[n := q]. f p) + f (xs ! n) = (\<Sum>p \<leftarrow> xs. f p) + f q" using Cons by simp
    then show ?thesis by (simp add: Suc add.assoc)
  qed (simp add: ac_simps)
qed simp

lemma sum_list_empty: "\<forall>p \<in> set xs. f p = {#} \<Longrightarrow> (\<Sum>p \<leftarrow> xs. f p) = ({#} :: 'a multiset)"
  by (induction xs) simp_all

lemma open_work_update:
  assumes "i < length (nodes s)" and "mset (pending q) + X = mset (pending (nodes s ! i)) + Y"
  shows "open_work (s\<lparr>nodes := (nodes s)[i := q]\<rparr>) + X = open_work s + Y"
proof -
  let ?o = "open_work (s\<lparr>nodes := (nodes s)[i := q]\<rparr>)" and ?p = "mset (pending (nodes s ! i))"
  have e: "?o + ?p = open_work s + mset (pending q)"
    using sum_list_update_mset [OF assms(1), where f = "\<lambda>p. mset (pending p)"] by (simp add: open_work_def)
  have "?o + X + ?p = ?o + ?p + X" by (simp add: ac_simps)
  also have "\<dots> = open_work s + (mset (pending q) + X)" by (simp only: e add.assoc)
  also have "\<dots> = open_work s + Y + ?p" by (subst assms(2)) (simp add: ac_simps)
  finally show ?thesis by simp
qed

lemma set_update_ok:
  "\<forall>p \<in> set xs. P p \<Longrightarrow> P q \<Longrightarrow> \<forall>p \<in> set (xs[i := q]). P p"
  using set_update_subset_insert [of xs i q] by auto

lemma accept_mset: "mset (accept w ws) = mset ws + mset (accept w [])"
  by (simp add: accept_def split: option.split)

lemma pool_inv_init: "pool_inv init_thread_pool"
  by (simp add: pool_inv_def init_thread_pool_def open_work_def new_node_ok numeral_eq_Suc)

lemma worker_step_inv:
  assumes "pool_inv s" and "i < length (nodes s)"
  shows "pool_inv (worker_step i s)"
proof -
  obtain p fin lost where d: "do_work_thread (nodes s ! i) = (p, fin, lost)" by (cases "do_work_thread (nodes s ! i)")
  have ok: "node_ok (nodes s ! i)" using assms by (simp add: pool_inv_def)
  note o = do_work_thread_ok [OF ok d]
  have ns: "nodes (worker_step i s) = (nodes s)[i := p]" "finished (worker_step i s) = finished s @ fin"
    "forgotten (worker_step i s) = forgotten s @ lost" "caller (worker_step i s) = caller s"
    "stopped (worker_step i s) = stopped s" "accepted (worker_step i s) = accepted s"
    "pool_alive (worker_step i s) = pool_alive s"
    by (simp_all add: worker_step_def d)
  have "open_work (s\<lparr>nodes := (nodes s)[i := p]\<rparr>) + (mset fin + mset lost) = open_work s + {#}"
    using o(2) by (intro open_work_update [OF assms(2)]) (simp add: ac_simps)
  then have w: "open_work (worker_step i s) + (mset fin + mset lost) = open_work s"
    by (simp add: open_work_def ns)
  have stop: "stop_flag (nodes s ! i) \<noteq> WORK_THREAD_STOP_NOT \<longrightarrow> stopped s"
    using assms nth_mem by (auto simp: pool_inv_def)
  have 1: "\<forall>q \<in> set ((nodes s)[i := p]). node_ok q"
    using assms(1) o(1) by (intro set_update_ok) (simp_all add: pool_inv_def)
  have 2: "\<forall>q \<in> set ((nodes s)[i := p]). stop_flag q \<noteq> WORK_THREAD_STOP_NOT \<longrightarrow> stopped s"
    using assms(1) o(4) stop by (intro set_update_ok) (auto simp: pool_inv_def)
  have 3: "mset (accepted s) = mset (finished s @ fin) + mset (forgotten s @ lost) + open_work (worker_step i s)"
    using assms(1) by (simp add: pool_inv_def w [symmetric] ac_simps)
  have 4: "\<forall>j < n. Q (nodes s ! j) \<Longrightarrow> (Q (nodes s ! i) \<Longrightarrow> Q p) \<Longrightarrow> \<forall>j < n. Q ((nodes s)[i := p] ! j)"
    for n and Q :: "work_thread_params \<Rightarrow> bool"
    using assms(2) by (auto simp: nth_list_update)
  have 5: "\<forall>q \<in> set (nodes s). idle_or_stopping q \<Longrightarrow> \<forall>q \<in> set ((nodes s)[i := p]). idle_or_stopping q"
    using o(5) assms(2) by (intro set_update_ok) simp_all
  have 6: "case caller s of
        Stopping k \<Rightarrow> stopped s \<and> (\<forall>j < min k (length (nodes s)). idle_or_stopping ((nodes s)[i := p] ! j))
      | Joining k \<Rightarrow> stopped s \<and> (\<forall>q \<in> set ((nodes s)[i := p]). idle_or_stopping q) \<and>
          (\<forall>j < min k (length (nodes s)). thread_pc ((nodes s)[i := p] ! j) = No_thread)
      | _ \<Rightarrow> True"
  proof (cases "caller s")
    case (Stopping k)
    then show ?thesis using assms(1) 4 [of "min k (length (nodes s))" idle_or_stopping] o(5)
      by (simp add: pool_inv_def)
  next
    case (Joining k)
    then show ?thesis
      using assms(1) 4 [of "min k (length (nodes s))" "\<lambda>q. thread_pc q = No_thread"] o(6) 5
      by (simp add: pool_inv_def)
  qed simp_all
  have 7: "forgotten s @ lost \<noteq> [] \<longrightarrow> stopped s"
    using assms(1) o(3) stop by (auto simp: pool_inv_def)
  have 8: "\<not> pool_alive s \<longrightarrow> (nodes s)[i := p] = [] \<and> caller s = Idle"
    using assms by (auto simp: pool_inv_def)
  show ?thesis
    unfolding pool_inv_def ns length_list_update using 1 2 3 6 7 8 by (intro conjI)
qed

lemma returned_inv:
  assumes "pool_inv s" and "caller s = Adding v i" and "\<forall>p \<in> set ns. node_ok p"
    and "\<forall>p \<in> set ns. stop_flag p \<noteq> WORK_THREAD_STOP_NOT \<longrightarrow> stopped s"
    and "open_work (s\<lparr>nodes := ns\<rparr>) = open_work s + (if ok then mset (accept w []) else {#})"
  shows "pool_inv (returned ok w (s\<lparr>nodes := ns\<rparr>))"
proof -
  have a: "pool_alive s" using assms(1,2) by (cases "pool_alive s") (simp_all add: pool_inv_def)
  have o: "open_work (returned ok w (s\<lparr>nodes := ns\<rparr>)) = open_work s + (if ok then mset (accept w []) else {#})"
    using assms(5) by (simp add: open_work_def returned_def)
  have n: "nodes (returned ok w (s\<lparr>nodes := ns\<rparr>)) = ns" "stopped (returned ok w (s\<lparr>nodes := ns\<rparr>)) = stopped s"
    "finished (returned ok w (s\<lparr>nodes := ns\<rparr>)) = finished s" "forgotten (returned ok w (s\<lparr>nodes := ns\<rparr>)) = forgotten s"
    "caller (returned ok w (s\<lparr>nodes := ns\<rparr>)) = Idle" "pool_alive (returned ok w (s\<lparr>nodes := ns\<rparr>)) = True"
    "accepted (returned ok w (s\<lparr>nodes := ns\<rparr>)) = (if ok then accept w (accepted s) else accepted s)"
    using a by (simp_all add: returned_def)
  show ?thesis
    using assms(1,3,4) accept_mset [of w "accepted s"] unfolding pool_inv_def n o
    by (auto simp: ac_simps)
qed

lemma add_work_step_inv:
  assumes "pool_inv s" and "caller s = Adding v i"
  shows "pool_inv (add_work_step ok w i s)"
proof (cases "i < length (nodes s)")
  case False
  have "open_work (s\<lparr>nodes := nodes s @ [create_and_give ok w new_node]\<rparr>) =
      open_work s + (if ok then mset (accept w []) else {#})"
    by (simp add: open_work_def create_and_give_ok(2) [OF new_node_ok(1,5)])
  moreover have "\<forall>p \<in> set (nodes s @ [create_and_give ok w new_node]). node_ok p"
    "\<forall>p \<in> set (nodes s @ [create_and_give ok w new_node]). stop_flag p \<noteq> WORK_THREAD_STOP_NOT \<longrightarrow> stopped s"
    using assms(1) create_and_give_ok [OF new_node_ok(1,5)] by (auto simp: pool_inv_def)
  ultimately show ?thesis
    using returned_inv [OF assms] False by (simp add: add_work_step_def)
next
  case True
  have ok: "node_ok (nodes s ! i)" using assms(1) True by (simp add: pool_inv_def)
  have stop: "stop_flag (nodes s ! i) \<noteq> WORK_THREAD_STOP_NOT \<longrightarrow> stopped s"
    using assms(1) True nth_mem by (auto simp: pool_inv_def)
  have upd: "\<forall>p \<in> set ((nodes s)[i := q]). node_ok p"
    "\<forall>p \<in> set ((nodes s)[i := q]). stop_flag p \<noteq> WORK_THREAD_STOP_NOT \<longrightarrow> stopped s"
    if "node_ok q" "stop_flag q \<noteq> WORK_THREAD_STOP_NOT \<longrightarrow> stopped s" for q
    using assms(1) that by (intro set_update_ok; simp add: pool_inv_def)+
  have gain: "open_work (s\<lparr>nodes := (nodes s)[i := q]\<rparr>) = open_work s + Y"
    if "pending (nodes s ! i) = []" "mset (pending q) = Y" for q Y
    using open_work_update [OF True, of q "{#}" Y] that by simp
  consider (create) "status (nodes s ! i) = WORK_THREAD_EXIT_YES"
    | (give) "status (nodes s ! i) \<noteq> WORK_THREAD_EXIT_YES" "work_flag (nodes s ! i) = WORK_THREAD_WORK_NOT"
    | (busy) "status (nodes s ! i) \<noteq> WORK_THREAD_EXIT_YES" "work_flag (nodes s ! i) \<noteq> WORK_THREAD_WORK_NOT"
    by blast
  then show ?thesis
  proof cases
    case create
    note c = create_and_give_ok [OF ok create]
    show ?thesis
      using returned_inv [OF assms upd [OF c(1)] gain [OF c(3,2)]] c(4) create True
      by (simp add: add_work_step_def)
  next
    case give
    note g = give_work_ok [OF ok give]
    show ?thesis
      using returned_inv [OF assms upd [OF g(1)], where ok = True and w = w] gain [OF g(3,2)] g(4) stop give True
      by (simp add: add_work_step_def)
  next
    case busy
    then show ?thesis
      using assms True by (simp add: add_work_step_def pool_inv_def open_work_def)
  qed
qed

lemma exit_step_inv:
  assumes "pool_inv s"
  shows "caller s = Stopping i \<Longrightarrow> pool_inv (exit_stop_step i s)"
    and "caller s = Joining i \<Longrightarrow> pool_inv (exit_join_step i s)"
    and "caller s = Joining i \<Longrightarrow> pool_fault (exit_join_step i s) = pool_fault s"
proof -
  assume c: "caller s = Stopping i"
  then have st: "stopped s" "\<forall>j < min i (length (nodes s)). idle_or_stopping (nodes s ! j)" "pool_alive s"
    using assms by (auto simp: pool_inv_def)
  show "pool_inv (exit_stop_step i s)"
  proof (cases "i < length (nodes s)")
    case True
    let ?q = "(nodes s ! i)\<lparr>stop_flag := WORK_THREAD_STOP_YES\<rparr>"
    have ok: "node_ok (nodes s ! i)" using assms True by (simp add: pool_inv_def)
    have "open_work (s\<lparr>nodes := (nodes s)[i := ?q]\<rparr>) + {#} = open_work s + {#}"
      using stop_node_ok(2) [OF ok] by (intro open_work_update [OF True]) simp
    then have "open_work (exit_stop_step i s) = open_work s" using True by (simp add: exit_stop_step_def open_work_def)
    moreover have "\<forall>p \<in> set ((nodes s)[i := ?q]). node_ok p"
      using assms stop_node_ok(1) [OF ok] by (intro set_update_ok) (simp_all add: pool_inv_def)
    moreover have "\<forall>j < min (i + 1) (length (nodes s)). idle_or_stopping ((nodes s)[i := ?q] ! j)"
      using st(2) stop_node_ok(3) [OF ok] True by (auto simp: nth_list_update less_Suc_eq)
    ultimately show ?thesis
      using assms st(1,3) True by (simp add: pool_inv_def exit_stop_step_def)
  next
    case False
    then have "\<forall>p \<in> set (nodes s). idle_or_stopping p" using st(2) by (auto simp: in_set_conv_nth)
    then show ?thesis
      using assms st False by (simp add: pool_inv_def exit_stop_step_def open_work_def)
  qed
next
  assume c: "caller s = Joining i"
  then have st: "stopped s" "\<forall>p \<in> set (nodes s). idle_or_stopping p" "pool_alive s"
    "\<forall>j < min i (length (nodes s)). thread_pc (nodes s ! j) = No_thread"
    using assms by (auto simp: pool_inv_def)
  have ok: "\<forall>p \<in> set (nodes s). node_ok p" using assms by (simp add: pool_inv_def)
  have ended: "\<forall>p \<in> set (nodes s). thread_pc p = No_thread" if "\<not> i < length (nodes s)"
    using st(4) that by (auto simp: in_set_conv_nth)
  have none: "open_work s = {#}" if "\<not> i < length (nodes s)"
  proof -
    have "\<forall>p \<in> set (nodes s). mset (pending p) = {#}"
      using ended [OF that] ok by (auto simp: node_ok_def pending_def)
    then show ?thesis by (simp add: open_work_def sum_list_empty)
  qed
  show "pool_fault (exit_join_step i s) = pool_fault s"
    using ended by (auto simp: exit_join_step_def)
  show "pool_inv (exit_join_step i s)"
  proof (cases "i < length (nodes s)")
    case True
    have "thread_pc (nodes s ! i) = No_thread" if "status (nodes s ! i) \<noteq> WORK_THREAD_EXIT_NOT"
      using ok True that by (auto simp: node_ok_def split: if_splits)
    then have "\<forall>j < min (i + 1) (length (nodes s)). thread_pc (nodes s ! j) = No_thread"
      if "status (nodes s ! i) \<noteq> WORK_THREAD_EXIT_NOT"
      using st(4) that by (auto simp: less_Suc_eq)
    then show ?thesis
      using assms st(1-3) True by (simp add: pool_inv_def exit_join_step_def open_work_def)
  next
    case False
    then show ?thesis
      using assms none [OF False] st(1) by (simp add: pool_inv_def exit_join_step_def open_work_def)
  qed
qed

lemma pool_step_inv:
  assumes "pool_step a s s'" and "pool_inv s"
  shows "pool_inv s'"
  using assms
proof (cases rule: pool_step.cases)
  case (worker i)
  then show ?thesis using worker_step_inv assms(2) by simp
next
  case (call_add w)
  then show ?thesis using assms(2) by (simp add: add_work_def pool_inv_def open_work_def)
next
  case call_exit
  then show ?thesis using assms(2) by (auto simp: exit_thread_pool_def pool_inv_def open_work_def)
next
  case (goes_on ok)
  then show ?thesis
    using add_work_step_inv [OF assms(2)] exit_step_inv(1,2) [OF assms(2)]
    by (cases "caller s") (simp_all add: caller_step_def)
qed

lemma pool_reach_inv: "pool_reach s \<Longrightarrow> pool_inv s"
  by (induction rule: pool_reach.induct) (simp_all add: pool_inv_init pool_step_inv)

lemma pool_step_fault:
  assumes "pool_step a s s'" and "pool_inv s" and "pool_fault s'"
  shows "pool_fault s \<or> \<not> pool_alive s"
  using assms
proof (cases rule: pool_step.cases)
  case (worker i)
  then show ?thesis using assms(3) by (simp add: worker_step_def case_prod_unfold Let_def)
next
  case (call_add w)
  then show ?thesis using assms(3) by (auto simp: add_work_def split: if_splits)
next
  case call_exit
  then show ?thesis using assms(3) by (auto simp: exit_thread_pool_def split: if_splits)
next
  case (goes_on ok)
  then show ?thesis
    using assms(3) exit_step_inv(3) [OF assms(2)]
    by (cases "caller s")
      (auto simp: caller_step_def add_work_step_def returned_def exit_stop_step_def Let_def split: if_splits)
qed

section \<open>How far a thread is from its work and from its end\<close>

definition work_dist :: "work_thread_params \<Rightarrow> nat" where
  "work_dist p = (case thread_pc p of T_Stop \<Rightarrow> 3 | T_Work \<Rightarrow> 2 | T_Call \<Rightarrow> 1 | _ \<Rightarrow> 0)"

definition stop_dist :: "work_thread_params \<Rightarrow> nat" where
  "stop_dist p = (case thread_pc p of No_thread \<Rightarrow> 0 | T_Exit \<Rightarrow> 1 | T_Stop \<Rightarrow> 2 | T_Clear \<Rightarrow> 3
     | T_Run w \<Rightarrow> 4 | T_Call \<Rightarrow> 5 | T_Work \<Rightarrow> 6)"

definition threads_left :: "pool \<Rightarrow> nat" where
  "threads_left s = (\<Sum>p \<leftarrow> nodes s. stop_dist p)"

lemma do_work_thread_nearer:
  assumes "node_ok p" and "stop_flag p = WORK_THREAD_STOP_NOT" and "pending p = [j]"
    and "do_work_thread p = (p', fin, lost)"
  shows "fin = [j] \<or> fin = [] \<and> pending p' = [j] \<and> work_dist p' < work_dist p"
  using assms by (cases "thread_pc p") (auto simp: node_defs work_dist_def split: if_splits option.splits)

lemma do_work_thread_stops:
  assumes "node_ok p" and "idle_or_stopping p" and "do_work_thread p = (p', fin, lost)"
    and "thread_pc p \<noteq> No_thread"
  shows "stop_dist p' < stop_dist p"
  using assms by (cases "thread_pc p")
    (auto simp: node_defs stop_dist_def idle_or_stopping_def split: if_splits option.splits)

lemma sum_list_update_less:
  "i < length xs \<Longrightarrow> f q < f (xs ! i) \<Longrightarrow> (\<Sum>p \<leftarrow> xs[i := q]. f p) < ((\<Sum>p \<leftarrow> xs. f p) :: nat)"
proof (induction xs arbitrary: i)
  case (Cons x xs)
  then show ?case by (cases i) simp_all
qed simp

lemma pending_busy:
  assumes "node_ok p" and "pending p = [j]"
  shows "work_flag p = WORK_THREAD_WORK_YES \<and> thread_pc p \<noteq> No_thread \<and> status p \<noteq> WORK_THREAD_EXIT_YES"
proof -
  have w: "work_flag p = WORK_THREAD_WORK_YES" using assms(2) by (simp add: pending_def split: if_splits)
  then have t: "thread_pc p \<noteq> No_thread" using assms(1) by (auto simp: node_ok_def)
  then have "status p = WORK_THREAD_EXIT_NOT" using assms(1) by (simp add: node_ok_def)
  with w t show ?thesis by simp
qed

lemma others_keep_node:
  assumes "pool_step a s s'" and "a \<noteq> Worker i" and "pool_inv s" and "\<not> stopped s'"
    and "i < length (nodes s)" and "pending (nodes s ! i) = [j]"
  shows "nodes s' ! i = nodes s ! i \<and> i < length (nodes s')"
  using assms(1)
proof (cases rule: pool_step.cases)
  case (worker k)
  then show ?thesis using assms by (simp add: worker_step_def case_prod_unfold Let_def)
next
  case (call_add w)
  then show ?thesis using assms by (simp add: add_work_def)
next
  case call_exit
  then show ?thesis using assms by (auto simp: exit_thread_pool_def)
next
  case (goes_on ok)
  have ok: "node_ok (nodes s ! i)" using assms(3,5) by (simp add: pool_inv_def)
  have busy: "status (nodes s ! i) \<noteq> WORK_THREAD_EXIT_YES" "work_flag (nodes s ! i) = WORK_THREAD_WORK_YES"
    using pending_busy [OF ok assms(6)] by simp_all
  show ?thesis
  proof (cases "caller s")
    case (Adding w k)
    have "k \<noteq> i" if "status (nodes s ! k) = WORK_THREAD_EXIT_YES \<or> work_flag (nodes s ! k) = WORK_THREAD_WORK_NOT"
      using busy that by auto
    then show ?thesis
      using goes_on Adding assms(5) by (auto simp: caller_step_def add_work_step_def returned_def Let_def nth_append)
  next
    case (Stopping k)
    then show ?thesis using goes_on assms(3,4) by (auto simp: caller_step_def exit_stop_step_def pool_inv_def split: if_splits)
  next
    case (Joining k)
    then show ?thesis using goes_on assms(3,4) by (auto simp: caller_step_def exit_join_step_def pool_inv_def split: if_splits)
  qed (use goes_on in simp)
qed

section \<open>Properties\<close>

text \<open>
  C5: under every interleaving of the callers and the threads, whatever threads can be created, the
  works that \<open>add_work\<close> has accepted are exactly, each once, those that have been run, those that
  still wait or run in a node, and those that \<open>exit_thread_pool\<close> has made a thread forget; none is
  forgotten before \<open>exit_thread_pool\<close> is called. When the list has been freed no thread is left, so no
  thread ever uses a freed node: the only fault is a call after the end.
\<close>

theorem pool_runs_each_work_once:
  assumes "pool_reach s"
  shows "mset (accepted s) = mset (finished s) + mset (forgotten s) + open_work s \<and>
    (forgotten s \<noteq> [] \<longrightarrow> stopped s) \<and> (\<not> pool_alive s \<longrightarrow> open_work s = {#}) \<and>
    (\<forall>a s'. pool_step a s s' \<longrightarrow> pool_fault s' \<longrightarrow> pool_fault s \<or> \<not> pool_alive s)"
  using pool_reach_inv [OF assms] pool_step_fault
  by (auto simp: pool_inv_def open_work_def)

text \<open>
  C7: until \<open>exit_thread_pool\<close> is called, a work that waits in a node is run after at most four steps
  of the node's thread, which can always take one; no step of another thread or of a caller takes it
  away or moves it off.
\<close>

theorem pending_work_gets_nearer:
  assumes "pool_reach s" and "i < length (nodes s)" and "pending (nodes s ! i) = [j]"
    and "pool_step a s s'" and "\<not> stopped s'"
  shows "thread_pc (nodes s ! i) \<noteq> No_thread \<and> work_dist (nodes s ! i) \<le> 3 \<and>
    (if a = Worker i
     then finished s' = finished s @ [j] \<or>
       finished s' = finished s \<and> pending (nodes s' ! i) = [j] \<and> work_dist (nodes s' ! i) < work_dist (nodes s ! i)
     else nodes s' ! i = nodes s ! i \<and> i < length (nodes s'))"
proof -
  have inv: "pool_inv s" by (rule pool_reach_inv [OF assms(1)])
  then have ok: "node_ok (nodes s ! i)" using assms(2) by (simp add: pool_inv_def)
  have "thread_pc (nodes s ! i) \<noteq> No_thread"
    using pending_busy [OF ok assms(3)] by simp
  moreover have "work_dist (nodes s ! i) \<le> 3" by (simp add: work_dist_def split: thread_pc.split)
  moreover have "finished s' = finished s @ [j] \<or>
       finished s' = finished s \<and> pending (nodes s' ! i) = [j] \<and> work_dist (nodes s' ! i) < work_dist (nodes s ! i)"
    if "a = Worker i"
  proof -
    have s': "s' = worker_step i s" using assms(4) that by (auto elim: pool_step.cases)
    then have "\<not> stopped s" using assms(5) by (simp add: worker_step_def case_prod_unfold Let_def)
    then have "stop_flag (nodes s ! i) = WORK_THREAD_STOP_NOT"
      using inv assms(2) nth_mem unfolding pool_inv_def by blast
    then show ?thesis
      using do_work_thread_nearer [OF ok _ assms(3)] assms(2)
      by (cases "do_work_thread (nodes s ! i)") (auto simp: s' worker_step_def)
  qed
  moreover have "nodes s' ! i = nodes s ! i \<and> i < length (nodes s')" if "a \<noteq> Worker i"
    using others_keep_node [OF assms(4) that inv assms(5,2,3)] .
  ultimately show ?thesis by simp
qed

text \<open>
  C8: \<open>exit_thread_pool\<close> comes to its end. While it waits, no thread is created; every step of a thread
  brings the threads nearer to their ends, some thread can take one as long as any is left, and when
  none is left the second loop runs to the end of the list and frees it.
\<close>

theorem exit_thread_pool_ends:
  assumes "pool_reach s" and "caller s = Joining k"
  shows "(pool_step a s s' \<and> pool_alive s' \<longrightarrow>
       (if a = Caller then threads_left s' = threads_left s \<and> (\<exists>k'. caller s' = Joining k')
        else threads_left s' < threads_left s \<and> caller s' = Joining k)) \<and>
    (0 < threads_left s \<longrightarrow> (\<exists>i s1. pool_step (Worker i) s s1)) \<and>
    (threads_left s = 0 \<longrightarrow> \<not> pool_alive ((caller_step ok ^^ (length (nodes s) - k + 1)) s))"
proof -
  have inv: "pool_inv s" by (rule pool_reach_inv [OF assms(1)])
  then have ok: "\<forall>p \<in> set (nodes s). node_ok p" and idle: "\<forall>p \<in> set (nodes s). idle_or_stopping p"
    using assms(2) by (simp_all add: pool_inv_def)
  have steps: "if a = Caller then threads_left s' = threads_left s \<and> (\<exists>k'. caller s' = Joining k')
        else threads_left s' < threads_left s \<and> caller s' = Joining k"
    if "pool_step a s s'" "pool_alive s'"
    using that(1)
  proof (cases rule: pool_step.cases)
    case (worker i)
    then have n: "node_ok (nodes s ! i)" "idle_or_stopping (nodes s ! i)" using ok idle by simp_all
    obtain p fin lost where d: "do_work_thread (nodes s ! i) = (p, fin, lost)"
      by (cases "do_work_thread (nodes s ! i)")
    have "stop_dist p < stop_dist (nodes s ! i)" by (rule do_work_thread_stops [OF n d]) (use worker in simp)
    then show ?thesis
      using worker sum_list_update_less [OF worker(3), of stop_dist p] assms(2)
      by (simp add: threads_left_def worker_step_def d)
  next
    case (goes_on ok)
    then show ?thesis
      using that(2) assms(2) by (auto simp: caller_step_def exit_join_step_def threads_left_def split: if_splits)
  qed (use assms(2) in simp_all)
  have moves: "\<exists>i s1. pool_step (Worker i) s s1" if left: "0 < threads_left s"
  proof -
    have "\<exists>i < length (nodes s). thread_pc (nodes s ! i) \<noteq> No_thread"
    proof (rule ccontr)
      assume "\<not> ?thesis"
      then have "\<forall>p \<in> set (nodes s). stop_dist p = 0" by (auto simp: in_set_conv_nth stop_dist_def)
      then have "threads_left s = 0" by (simp add: threads_left_def sum_list_eq_0_iff)
      then show False using left by simp
    qed
    then show ?thesis using pool_step.worker by blast
  qed
  have ends: "\<not> pool_alive ((caller_step b ^^ (length (nodes t) - k + 1)) t)"
    if "caller t = Joining k" "\<forall>p \<in> set (nodes t). status p = WORK_THREAD_EXIT_YES" for t b k
    using that
  proof (induction "length (nodes t) - k" arbitrary: t k)
    case 0
    then show ?case by (simp add: caller_step_def exit_join_step_def)
  next
    case (Suc n)
    then have k: "k < length (nodes t)" by simp
    then have st: "status (nodes t ! k) = WORK_THREAD_EXIT_YES" using Suc.prems(2) by simp
    let ?t = "t\<lparr>caller := Joining (k + 1)\<rparr>"
    have "caller_step b t = ?t" using k st Suc.prems(1) by (simp add: caller_step_def exit_join_step_def)
    moreover have "\<not> pool_alive ((caller_step b ^^ (length (nodes ?t) - (k + 1) + 1)) ?t)"
      using Suc.hyps(2) Suc.prems by (intro Suc.hyps(1)) simp_all
    moreover have "length (nodes t) - k + 1 = Suc (length (nodes ?t) - (k + 1) + 1)" using k by simp
    ultimately show ?case by (simp only: funpow_Suc_right comp_apply not_False_eq_True)
  qed
  have "\<forall>p \<in> set (nodes s). status p = WORK_THREAD_EXIT_YES" if "threads_left s = 0"
  proof
    fix p
    assume p: "p \<in> set (nodes s)"
    then have "stop_dist p = 0" using that by (simp add: threads_left_def)
    then have "thread_pc p = No_thread" by (simp add: stop_dist_def split: thread_pc.splits)
    then show "status p = WORK_THREAD_EXIT_YES" using ok p by (simp add: node_ok_def)
  qed
  then show ?thesis using steps moves ends [OF assms(2)] by blast
qed

text \<open>The witnesses: one work is added to a fresh pool, and run or not before the end.\<close>

definition pool_demo :: pool where
  "pool_demo = caller_step True (add_work (Some 7) init_thread_pool)"

definition pool_demo_stopping :: pool where
  "pool_demo_stopping = (caller_step True ^^ 7) (exit_thread_pool pool_demo)"

lemma reach_caller: "pool_reach s \<Longrightarrow> pool_reach ((caller_step ok ^^ n) s)"
proof (induction n)
  case (Suc n)
  let ?t = "(caller_step ok ^^ n) s"
  show ?case
  proof (cases "caller ?t = Idle")
    case True
    then have "caller_step ok ?t = ?t" by (simp add: caller_step_def)
    then show ?thesis using Suc by simp
  next
    case False
    from pool_reach.step [OF Suc.IH [OF Suc.prems] pool_step.goes_on [OF False]] show ?thesis by simp
  qed
qed simp

lemma pool_demo_reach: "pool_reach pool_demo"
proof -
  have "pool_reach (add_work (Some 7) init_thread_pool)"
    by (rule pool_reach.step [OF start call_add]) (simp add: init_thread_pool_def)
  from reach_caller [OF this, where ok = True and n = 1] show ?thesis by (simp add: pool_demo_def)
qed

lemma pool_demo_state:
  "caller pool_demo = Idle" "length (nodes pool_demo) = 6" "pending (nodes pool_demo ! 0) = [7]"
  "thread_pc (nodes pool_demo ! 0) = T_Stop" "\<not> stopped (worker_step 0 pool_demo)"
  "accepted pool_demo = [7]" "finished pool_demo = []" "forgotten pool_demo = []"
  by code_simp+

theorem pool_runs_each_work_once_witness: "open_work pool_demo = {#7#} \<and> accepted pool_demo = [7]"
  using pool_runs_each_work_once [OF pool_demo_reach] by (simp add: pool_demo_state)

theorem pending_work_gets_nearer_witness:
  "pool_step (Worker 0) pool_demo (worker_step 0 pool_demo) \<and>
   (finished (worker_step 0 pool_demo) = [7] \<or>
    finished (worker_step 0 pool_demo) = [] \<and> pending (nodes (worker_step 0 pool_demo) ! 0) = [7] \<and>
    work_dist (nodes (worker_step 0 pool_demo) ! 0) < work_dist (nodes pool_demo ! 0))"
proof -
  have st: "pool_step (Worker 0) pool_demo (worker_step 0 pool_demo)"
    by (rule worker) (simp_all add: pool_demo_state)
  show ?thesis
    using st pending_work_gets_nearer [OF pool_demo_reach _ pool_demo_state(3) st pool_demo_state(5)]
    by (simp add: pool_demo_state)
qed

lemma pool_demo_stopping_state:
  "caller pool_demo_stopping = Joining 0" "threads_left pool_demo_stopping = 2"
  by code_simp+

theorem exit_thread_pool_ends_witness: "\<exists>i s1. pool_step (Worker i) pool_demo_stopping s1"
proof -
  have "pool_reach (exit_thread_pool pool_demo)"
    by (rule pool_reach.step [OF pool_demo_reach call_exit]) (simp add: pool_demo_state)
  then have "pool_reach pool_demo_stopping" unfolding pool_demo_stopping_def by (rule reach_caller)
  from exit_thread_pool_ends [OF this pool_demo_stopping_state(1)] show ?thesis
    by (simp add: pool_demo_stopping_state)
qed

end
