(* ===== verification/TextEnc.thy ===== *)
theory TextEnc
  imports Ring
begin

text \<open>
  The text encoder (textEncLib/TextEncApi.c): GPS records go through an input ring into an output
  ring, from which a client requests, returns and releases packets. Of an input packet the model
  has the GPS record and the time stamp; the other arrays are cleared and never read. The counters
  are C ints, the positions natural numbers. Each of the two rings has a mutex; what is done under
  one lock is one step. \<open>None\<close> is an access outside a buffer.
\<close>

section \<open>State\<close>

text \<open>
  The size of \<open>RMCINFO\<close> with doubles aligned to eight bytes, as on ARM, and that of \<open>EncPacket_t\<close>:
  the data, an \<open>int\<close>, four bytes of padding and a \<open>long long\<close>.
\<close>

definition RMCINFO_SIZE :: nat where "RMCINFO_SIZE = 144"
definition TEXTENC_PACKET_SIZE :: nat where "TEXTENC_PACKET_SIZE = 0x10 + RMCINFO_SIZE"
definition TEXTENC_PACKET_CNT :: nat where "TEXTENC_PACKET_CNT = 10"
definition ENC_PACKET_SIZE :: nat where "ENC_PACKET_SIZE = TEXTENC_PACKET_SIZE + 16"

lemma cnt_pos [simp]: "0 < TEXTENC_PACKET_CNT"
  and cnt_not_0 [simp]: "TEXTENC_PACKET_CNT \<noteq> 0"
  by (simp_all add: TEXTENC_PACKET_CNT_def)

definition TEXTENC_INPUT_TYPE_GPS :: nat where "TEXTENC_INPUT_TYPE_GPS = 0"
definition TEXTENC_PACK_TYPE_GPS :: u32 where "TEXTENC_PACK_TYPE_GPS = 1"

datatype text_enc_result =
    ERR_TEXT_ENC_NONE
  | ERR_TEXT_ENC_INPUT_UNDERFLOW
  | ERR_TEXT_ENC_OUTFRM_UNDERFLOW

record TextPacket =
  gps_data :: "byte list"
  in_pts :: int

record EncPacket =
  out_data :: "byte list"
  buf_id :: int
  out_pts :: int

record TextEncDataManager =
  enc_type_enable_flag :: u32
  in_pkt :: "TextPacket list"
  in_wid :: nat
  in_rid :: nat
  in_used :: int
  base_pts :: int
  te_pts :: int
  out_pkt :: "EncPacket list"
  out_wid :: nat
  out_rid :: nat
  out_used :: int
  prefetch_cnt :: int

definition blank_text :: TextPacket where
  "blank_text = \<lparr>gps_data = replicate RMCINFO_SIZE 0, in_pts = 0\<rparr>"

definition blank_enc :: EncPacket where
  "blank_enc = \<lparr>out_data = replicate TEXTENC_PACKET_SIZE 0, buf_id = 0, out_pts = 0\<rparr>"

definition TextEncInit :: "u32 \<Rightarrow> TextEncDataManager" where
  "TextEncInit enable =
     \<lparr>enc_type_enable_flag = enable,
      in_pkt = replicate TEXTENC_PACKET_CNT blank_text, in_wid = 0, in_rid = 0, in_used = 0,
      base_pts = 0, te_pts = 0,
      out_pkt = replicate TEXTENC_PACKET_CNT blank_enc, out_wid = 0, out_rid = 0, out_used = 0, prefetch_cnt = 0\<rparr>"

section \<open>Operations\<close>

definition ClearDataMgr :: "TextEncDataManager \<Rightarrow> TextEncDataManager" where
  "ClearDataMgr s =
     s\<lparr>in_pkt := replicate TEXTENC_PACKET_CNT blank_text, in_wid := 0, in_rid := 0, in_used := 0,
       out_pkt := replicate TEXTENC_PACKET_CNT blank_enc, out_wid := 0, out_rid := 0, out_used := 0,
       prefetch_cnt := 0\<rparr>"

text \<open>\<open>pInBuf\<close> is \<open>None\<close> for a null pointer.\<close>

definition RequestWriteBuf ::
  "byte list option \<Rightarrow> int \<Rightarrow> TextEncDataManager \<Rightarrow> (int \<times> TextEncDataManager) option" where
  "RequestWriteBuf pInBuf sz s =
     (if in_used s \<ge> int TEXTENC_PACKET_CNT then Some (- 1, s)
      else do {
        pkts \<leftarrow> (case pInBuf of
            None \<Rightarrow> Some (in_pkt s)
          | Some b \<Rightarrow>
              if 0 < sz
              then do { g \<leftarrow> mem_read b 0 RMCINFO_SIZE; Some ((in_pkt s)[in_wid s := blank_text\<lparr>gps_data := g\<rparr>]) }
              else Some (in_pkt s));
        Some (0, s\<lparr>in_pkt := pkts, in_used := in_used s + 1,
                   in_wid := (in_wid s + 1) mod TEXTENC_PACKET_CNT\<rparr>)
      })"

text \<open>The buffer of an output packet, cleared, filled and given out.\<close>

definition te_clear :: "nat \<Rightarrow> TextEncDataManager \<Rightarrow> TextEncDataManager" where
  "te_clear w s = s\<lparr>out_pkt := (out_pkt s)[w := (out_pkt s ! w)\<lparr>out_data := replicate TEXTENC_PACKET_SIZE 0\<rparr>]\<rparr>"

definition FillOneFrame :: "nat \<Rightarrow> TextEncDataManager \<Rightarrow> TextEncDataManager" where
  "FillOneFrame w s =
     (let pk = in_pkt s ! in_rid s;
          base = (if base_pts s = 0 then in_pts pk else base_pts s);
          out = (if and (enc_type_enable_flag s) (push_bit TEXTENC_INPUT_TYPE_GPS 1) = TEXTENC_PACK_TYPE_GPS
                 then (out_pkt s)[w := (out_pkt s ! w)\<lparr>out_data := mem_put (out_data (out_pkt s ! w)) 0 (gps_data pk)\<rparr>]
                 else out_pkt s)
      in s\<lparr>base_pts := base, te_pts := in_pts pk - base, out_pkt := out,
           in_used := in_used s - 1, in_rid := (in_rid s + 1) mod TEXTENC_PACKET_CNT\<rparr>)"

definition te_commit :: "nat \<Rightarrow> TextEncDataManager \<Rightarrow> TextEncDataManager" where
  "te_commit w s =
     s\<lparr>out_pkt := (out_pkt s)[w := (out_pkt s ! w)\<lparr>buf_id := int w, out_pts := te_pts s\<rparr>],
       out_wid := (out_wid s + 1) mod TEXTENC_PACKET_CNT, out_used := out_used s + 1,
       prefetch_cnt := prefetch_cnt s + 1\<rparr>"

definition TextEncodePro :: "TextEncDataManager \<Rightarrow> text_enc_result \<times> TextEncDataManager" where
  "TextEncodePro s =
     (if in_used s = 0 then (ERR_TEXT_ENC_INPUT_UNDERFLOW, s)
      else if out_used s \<ge> int TEXTENC_PACKET_CNT then (ERR_TEXT_ENC_OUTFRM_UNDERFLOW, s)
      else let w = out_wid s in (ERR_TEXT_ENC_NONE, te_commit w (FillOneFrame w (te_clear w s))))"

definition GetValidEncPktCnt :: "TextEncDataManager \<Rightarrow> int" where "GetValidEncPktCnt s = prefetch_cnt s"
definition GetValidInputPktCnt :: "TextEncDataManager \<Rightarrow> int" where "GetValidInputPktCnt s = in_used s"
definition GetEmptyOutFrameCnt :: "TextEncDataManager \<Rightarrow> int" where
  "GetEmptyOutFrameCnt s = int TEXTENC_PACKET_CNT - out_used s"

text \<open>A request gives the position of the packet, the size of its data, its time stamp and its number.\<close>

definition RequestTextEncBuf :: "TextEncDataManager \<Rightarrow> (nat \<times> nat \<times> int \<times> int) option \<times> TextEncDataManager" where
  "RequestTextEncBuf s =
     (if prefetch_cnt s \<le> 0 then (None, s)
      else let rid = out_rid s; p = out_pkt s ! rid
           in (Some (rid, RMCINFO_SIZE, out_pts p, buf_id p),
               s\<lparr>out_rid := (rid + 1) mod TEXTENC_PACKET_CNT, prefetch_cnt := prefetch_cnt s - 1\<rparr>))"

definition ReturnTextEncBuf :: "int \<Rightarrow> int \<Rightarrow> TextEncDataManager \<Rightarrow> int \<times> TextEncDataManager" where
  "ReturnTextEncBuf timeStamp nBufId s =
     (let rid = (out_rid s + TEXTENC_PACKET_CNT - 1) mod TEXTENC_PACKET_CNT; p = out_pkt s ! rid
      in if nBufId \<noteq> buf_id p \<or> timeStamp \<noteq> out_pts p then (- 1, s) else (0, s\<lparr>out_rid := rid\<rparr>))"

text \<open>
  A release finds the packet of the pointer it gets and compares its arguments with the packet, for a
  message only. \<open>pOutbuf\<close> is the distance of the pointer from the first packet, a word of the size of
  a pointer, because the division by the unsigned size of a packet is unsigned; a pointer before
  the packets is a large number. A packet outside the array is \<open>None\<close>.
\<close>

definition ReleaseTextEncBuf :: "u32 \<Rightarrow> TextEncDataManager \<Rightarrow> (int \<times> TextEncDataManager) option" where
  "ReleaseTextEncBuf pOutbuf s =
     (if out_used s = 0 then Some (- 1, s)
      else
        let pos = unat (pOutbuf div of_nat ENC_PACKET_SIZE)
        in if pos < length (out_pkt s) then Some (0, s\<lparr>out_used := out_used s - 1\<rparr>) else None)"

text \<open>Where \<open>RequestTextEncBuf\<close> says a packet is.\<close>

definition packet_address :: "nat \<Rightarrow> u32" where
  "packet_address i = of_nat (i * ENC_PACKET_SIZE)"

lemma packet_address_div: "i < TEXTENC_PACKET_CNT \<Longrightarrow> unat (packet_address i div of_nat ENC_PACKET_SIZE) = i"
proof -
  assume i: "i < TEXTENC_PACKET_CNT"
  have "i * ENC_PACKET_SIZE < 2 ^ 32"
    using i by (simp add: TEXTENC_PACKET_CNT_def ENC_PACKET_SIZE_def TEXTENC_PACKET_SIZE_def RMCINFO_SIZE_def)
  then have "unat (packet_address i) = i * ENC_PACKET_SIZE"
    by (simp add: packet_address_def unat_of_nat take_bit_nat_eq_self del: of_nat_mult)
  moreover have "unat (of_nat ENC_PACKET_SIZE :: u32) = ENC_PACKET_SIZE" "0 < ENC_PACKET_SIZE"
    by (simp_all add: ENC_PACKET_SIZE_def TEXTENC_PACKET_SIZE_def RMCINFO_SIZE_def)
  ultimately show ?thesis by (simp add: unat_div)
qed

text \<open>Any client, calling anything in any order.\<close>

datatype te_op =
    Te_Write "byte list option" int
  | Te_Encode
  | Te_Request
  | Te_Return int int
  | Te_Release u32
  | Te_Clear

fun te_call :: "te_op \<Rightarrow> TextEncDataManager \<Rightarrow> TextEncDataManager option" where
  "te_call (Te_Write b n) s = map_option snd (RequestWriteBuf b n s)"
| "te_call Te_Encode s = Some (snd (TextEncodePro s))"
| "te_call Te_Request s = Some (snd (RequestTextEncBuf s))"
| "te_call (Te_Return t i) s = Some (snd (ReturnTextEncBuf t i s))"
| "te_call (Te_Release p) s = map_option snd (ReleaseTextEncBuf p s)"
| "te_call Te_Clear s = Some (ClearDataMgr s)"

fun te_calls :: "te_op list \<Rightarrow> TextEncDataManager \<Rightarrow> TextEncDataManager option" where
  "te_calls [] s = Some s"
| "te_calls (c # cs) s = do { s1 \<leftarrow> te_call c s; te_calls cs s1 }"

section \<open>The shape of the state\<close>

definition te_shape :: "TextEncDataManager \<Rightarrow> bool" where
  "te_shape s \<longleftrightarrow> length (in_pkt s) = TEXTENC_PACKET_CNT \<and> length (out_pkt s) = TEXTENC_PACKET_CNT \<and>
     in_wid s < TEXTENC_PACKET_CNT \<and> in_rid s < TEXTENC_PACKET_CNT \<and>
     out_wid s < TEXTENC_PACKET_CNT \<and> out_rid s < TEXTENC_PACKET_CNT \<and>
     0 \<le> in_used s \<and> in_used s \<le> int TEXTENC_PACKET_CNT \<and>
     in_wid s = (in_rid s + nat (in_used s)) mod TEXTENC_PACKET_CNT \<and>
     0 \<le> out_used s \<and> out_used s \<le> int TEXTENC_PACKET_CNT \<and> 0 \<le> prefetch_cnt s \<and>
     (\<forall>p \<in> set (in_pkt s). length (gps_data p) = RMCINFO_SIZE) \<and>
     (\<forall>p \<in> set (out_pkt s). length (out_data p) = TEXTENC_PACKET_SIZE)"

text \<open>No packet ever gets a time stamp.\<close>

definition te_timeless :: "TextEncDataManager \<Rightarrow> bool" where
  "te_timeless s \<longleftrightarrow> base_pts s = 0 \<and> te_pts s = 0 \<and> (\<forall>p \<in> set (in_pkt s). in_pts p = 0) \<and>
     (\<forall>p \<in> set (out_pkt s). out_pts p = 0)"

lemma te_inits: "te_shape (TextEncInit e)" "te_timeless (TextEncInit e)"
  by (simp_all add: te_shape_def te_timeless_def TextEncInit_def TEXTENC_PACKET_CNT_def blank_text_def blank_enc_def)

lemma ball_update: "\<forall>x \<in> set xs. P x \<Longrightarrow> P y \<Longrightarrow> \<forall>x \<in> set (xs[i := y]). P x"
  using set_update_subset_insert by fastforce

lemma in_update: "x \<in> set (xs[i := y]) \<Longrightarrow> x = y \<or> x \<in> set xs"
  using set_update_subset_insert by fastforce

lemma RequestWriteBuf_cases:
  assumes "RequestWriteBuf b n s = Some (r, s')"
  obtains "s' = s" "r = - 1"
  | pkts where "r = 0" "in_used s < int TEXTENC_PACKET_CNT"
      "s' = s\<lparr>in_pkt := pkts, in_used := in_used s + 1, in_wid := (in_wid s + 1) mod TEXTENC_PACKET_CNT\<rparr>"
      "pkts = in_pkt s \<or> (\<exists>g. length g = RMCINFO_SIZE \<and> pkts = (in_pkt s)[in_wid s := \<lparr>gps_data = g, in_pts = 0\<rparr>])"
proof (cases "in_used s \<ge> int TEXTENC_PACKET_CNT")
  case True
  then show ?thesis using assms that(1) by (simp add: RequestWriteBuf_def)
next
  case False
  let ?t = "\<lambda>pkts. s\<lparr>in_pkt := pkts, in_used := in_used s + 1, in_wid := (in_wid s + 1) mod TEXTENC_PACKET_CNT\<rparr>"
  have "\<exists>pkts. r = 0 \<and> s' = ?t pkts \<and>
    (pkts = in_pkt s \<or> (\<exists>g. length g = RMCINFO_SIZE \<and> pkts = (in_pkt s)[in_wid s := \<lparr>gps_data = g, in_pts = 0\<rparr>]))"
  proof (cases "\<exists>c. b = Some c \<and> 0 < n")
    case True
    then obtain c where "b = Some c" "0 < n" by blast
    then have "r = 0 \<and> length (take RMCINFO_SIZE c) = RMCINFO_SIZE \<and>
        s' = ?t ((in_pkt s)[in_wid s := \<lparr>gps_data = take RMCINFO_SIZE c, in_pts = 0\<rparr>])"
      using assms False by (cases "mem_read c 0 RMCINFO_SIZE") (auto simp: RequestWriteBuf_def blank_text_def)
    then show ?thesis by blast
  next
    case stale: False
    then have "r = 0 \<and> s' = ?t (in_pkt s)" using assms False by (cases b) (auto simp: RequestWriteBuf_def)
    then show ?thesis by blast
  qed
  then show ?thesis using that(2) False by force
qed

lemma RequestWriteBuf_shape:
  assumes "te_shape s" "te_timeless s" "RequestWriteBuf b n s = Some (r, s')"
  shows "te_shape s' \<and> te_timeless s'"
  using assms(3)
proof (cases rule: RequestWriteBuf_cases)
  case (2 pkts)
  have w: "(in_rid s + nat (in_used s) + 1) mod TEXTENC_PACKET_CNT = (in_rid s + nat (in_used s + 1)) mod TEXTENC_PACKET_CNT"
    using assms(1) by (simp add: te_shape_def nat_add_distrib)
  have "length pkts = length (in_pkt s)" "\<forall>p \<in> set pkts. length (gps_data p) = RMCINFO_SIZE \<and> in_pts p = 0"
    using 2(4) assms(1,2) by (auto simp: te_shape_def te_timeless_def dest!: in_update)
  then show ?thesis
    using assms(1,2) 2(2) w unfolding 2(3) by (simp add: te_shape_def te_timeless_def mod_simps)
qed (use assms in simp)

lemma te_clear_shape:
  "te_shape s \<Longrightarrow> te_timeless s \<Longrightarrow> w < TEXTENC_PACKET_CNT \<Longrightarrow> te_shape (te_clear w s) \<and> te_timeless (te_clear w s)"
  by (auto simp: te_shape_def te_timeless_def te_clear_def dest!: in_update)

lemma FillOneFrame_shape:
  assumes "te_shape s" "te_timeless s" "w < TEXTENC_PACKET_CNT" "0 < in_used s"
  shows "te_shape (FillOneFrame w s) \<and> te_timeless (FillOneFrame w s)"
proof -
  have i: "in_rid s < length (in_pkt s)" "w < length (out_pkt s)" using assms by (simp_all add: te_shape_def)
  define pk where "pk = in_pkt s ! in_rid s"
  have "pk \<in> set (in_pkt s)" "out_pkt s ! w \<in> set (out_pkt s)" using i by (simp_all add: pk_def)
  then have p: "length (gps_data pk) = RMCINFO_SIZE" "in_pts pk = 0" "length (out_data (out_pkt s ! w)) = TEXTENC_PACKET_SIZE"
    "out_pts (out_pkt s ! w) = 0"
    using assms(1,2) by (auto simp: te_shape_def te_timeless_def)
  have "(in_rid s + 1 + nat (in_used s - 1)) mod TEXTENC_PACKET_CNT = (in_rid s + nat (in_used s)) mod TEXTENC_PACKET_CNT"
    using assms(4) by (simp add: nat_diff_distrib)
  then show ?thesis
    using assms p unfolding FillOneFrame_def Let_def pk_def [symmetric]
    by (auto simp: te_shape_def te_timeless_def TEXTENC_PACKET_SIZE_def mod_simps dest!: in_update)
qed

lemma te_commit_shape:
  "te_shape s \<Longrightarrow> te_timeless s \<Longrightarrow> w < TEXTENC_PACKET_CNT \<Longrightarrow> out_used s < int TEXTENC_PACKET_CNT \<Longrightarrow>
    te_shape (te_commit w s) \<and> te_timeless (te_commit w s)"
  by (auto simp: te_shape_def te_timeless_def te_commit_def dest!: in_update)

lemma te_call_shape:
  assumes "te_shape s" "te_timeless s" "te_call c s = Some s'"
  shows "te_shape s' \<and> te_timeless s'"
proof (cases c)
  case (Te_Write b n)
  then obtain r where "RequestWriteBuf b n s = Some (r, s')" using assms(3) by auto
  then show ?thesis by (rule RequestWriteBuf_shape [OF assms(1,2)])
next
  case Te_Encode
  define w where "w = out_wid s"
  have w: "w < TEXTENC_PACKET_CNT" using assms(1) by (simp add: w_def te_shape_def)
  show ?thesis
  proof (cases "in_used s = 0 \<or> out_used s \<ge> int TEXTENC_PACKET_CNT")
    case False
    note c = te_clear_shape [OF assms(1,2) w]
    have u: "0 < in_used (te_clear w s)" using False assms(1) by (simp add: te_clear_def te_shape_def)
    note f = FillOneFrame_shape [OF c [THEN conjunct1] c [THEN conjunct2] w u]
    have "out_used (FillOneFrame w (te_clear w s)) < int TEXTENC_PACKET_CNT"
      using False by (simp add: FillOneFrame_def te_clear_def Let_def)
    then show ?thesis
      using te_commit_shape [OF f [THEN conjunct1] f [THEN conjunct2] w] assms(3) Te_Encode False
      by (simp add: TextEncodePro_def Let_def w_def)
  qed (use assms Te_Encode in \<open>auto simp: TextEncodePro_def\<close>)
qed (use assms in \<open>auto simp: te_shape_def te_timeless_def RequestTextEncBuf_def ReturnTextEncBuf_def ReleaseTextEncBuf_def
    ClearDataMgr_def Let_def blank_text_def blank_enc_def split: if_splits\<close>)

section \<open>The threads\<close>

text \<open>
  The thread of the encoder is between two of its steps at \<open>te_pc\<close>, with its local \<open>wid\<close>. The
  system also records what was written (\<open>te_put\<close>), what was requested (\<open>te_got\<close>), which of that is
  not yet released (\<open>te_held\<close>), and the position of the oldest such packet (\<open>te_base\<close>).
\<close>

datatype enc_pc = E_Idle | E_Ready | E_Clear nat | E_Fill nat | E_Commit nat

record te_sys =
  te :: TextEncDataManager
  te_pc :: enc_pc
  te_put :: "byte list list"
  te_got :: "byte list list"
  te_held :: "byte list list"
  te_base :: nat

definition te_start :: te_sys where
  "te_start = \<lparr>te = TextEncInit TEXTENC_PACK_TYPE_GPS, te_pc = E_Idle, te_put = [], te_got = [], te_held = [], te_base = 0\<rparr>"

text \<open>
  The writer hands over a record; the reader requests a packet, or releases the oldest one it holds.
  The steps of the encoder are those of \<open>TextEncodePro\<close>.
\<close>

inductive te_step :: "te_sys \<Rightarrow> te_sys \<Rightarrow> bool" where
  te_written: "RequestWriteBuf (Some b) n (te y) = Some (0, s) \<Longrightarrow> 0 < n \<Longrightarrow>
    te_step y (y\<lparr>te := s, te_put := te_put y @ [take RMCINFO_SIZE b]\<rparr>)"
| te_refused: "RequestWriteBuf (Some b) n (te y) = Some (- 1, s) \<Longrightarrow> te_step y (y\<lparr>te := s\<rparr>)"
| te_in_ready: "te_pc y = E_Idle \<Longrightarrow> in_used (te y) \<noteq> 0 \<Longrightarrow> te_step y (y\<lparr>te_pc := E_Ready\<rparr>)"
| te_out_full: "te_pc y = E_Ready \<Longrightarrow> out_used (te y) \<ge> int TEXTENC_PACKET_CNT \<Longrightarrow> te_step y (y\<lparr>te_pc := E_Idle\<rparr>)"
| te_out_free: "te_pc y = E_Ready \<Longrightarrow> out_used (te y) < int TEXTENC_PACKET_CNT \<Longrightarrow>
    te_step y (y\<lparr>te_pc := E_Clear (out_wid (te y))\<rparr>)"
| te_cleared: "te_pc y = E_Clear w \<Longrightarrow> te_step y (y\<lparr>te := te_clear w (te y), te_pc := E_Fill w\<rparr>)"
| te_filled: "te_pc y = E_Fill w \<Longrightarrow> te_step y (y\<lparr>te := FillOneFrame w (te y), te_pc := E_Commit w\<rparr>)"
| te_committed: "te_pc y = E_Commit w \<Longrightarrow> te_step y (y\<lparr>te := te_commit w (te y), te_pc := E_Idle\<rparr>)"
| te_requested: "RequestTextEncBuf (te y) = (Some (i, n, t, b), s) \<Longrightarrow> x = take n (out_data (out_pkt (te y) ! i)) \<Longrightarrow>
    te_step y (y\<lparr>te := s, te_got := te_got y @ [x], te_held := te_held y @ [x]\<rparr>)"
| te_released: "te_held y \<noteq> [] \<Longrightarrow> ReleaseTextEncBuf (packet_address (te_base y)) (te y) = Some (0, s) \<Longrightarrow>
    te_step y (y\<lparr>te := s, te_held := tl (te_held y), te_base := (te_base y + 1) mod TEXTENC_PACKET_CNT\<rparr>)"

inductive te_reach :: "te_sys \<Rightarrow> bool" where
  te_at_start: "te_reach te_start"
| te_more: "te_reach y \<Longrightarrow> te_step y z \<Longrightarrow> te_reach z"

text \<open>The data of an output packet; the records in the input ring.\<close>

definition enc_gps :: "EncPacket \<Rightarrow> byte list" where
  "enc_gps p = take RMCINFO_SIZE (out_data p)"

definition te_inq :: "TextEncDataManager \<Rightarrow> byte list list" where
  "te_inq s = map gps_data (ring_read (in_pkt s) (in_rid s) (nat (in_used s)))"

definition te_outq :: "nat \<Rightarrow> TextEncDataManager \<Rightarrow> byte list list" where
  "te_outq b s = map enc_gps (ring_read (out_pkt s) b (nat (out_used s)))"

definition te_inflight :: "te_sys \<Rightarrow> byte list list" where
  "te_inflight y = (case te_pc y of E_Commit w \<Rightarrow> [enc_gps (out_pkt (te y) ! w)] | _ \<Rightarrow> [])"

definition te_pc_ok :: "enc_pc \<Rightarrow> TextEncDataManager \<Rightarrow> bool" where
  "te_pc_ok pc s = (case pc of
      E_Idle \<Rightarrow> True
    | E_Ready \<Rightarrow> 0 < in_used s
    | E_Clear w \<Rightarrow> 0 < in_used s \<and> out_used s < int TEXTENC_PACKET_CNT \<and> w = out_wid s
    | E_Fill w \<Rightarrow> 0 < in_used s \<and> out_used s < int TEXTENC_PACKET_CNT \<and> w = out_wid s
    | E_Commit w \<Rightarrow> out_used s < int TEXTENC_PACKET_CNT \<and> w = out_wid s)"

definition te_ids_ok :: "te_sys \<Rightarrow> bool" where
  "te_ids_ok y \<longleftrightarrow> te_base y < TEXTENC_PACKET_CNT \<and>
     enc_type_enable_flag (te y) = TEXTENC_PACK_TYPE_GPS \<and>
     out_used (te y) = int (length (te_held y)) + prefetch_cnt (te y) \<and>
     out_rid (te y) = (te_base y + length (te_held y)) mod TEXTENC_PACKET_CNT \<and>
     out_wid (te y) = (te_base y + nat (out_used (te y))) mod TEXTENC_PACKET_CNT"

definition te_data_ok :: "te_sys \<Rightarrow> bool" where
  "te_data_ok y \<longleftrightarrow> (\<exists>dn ready. te_got y = dn @ te_held y \<and> te_outq (te_base y) (te y) = te_held y @ ready \<and>
     te_put y = te_got y @ ready @ te_inflight y @ te_inq (te y))"

definition te_inv :: "te_sys \<Rightarrow> bool" where
  "te_inv y \<longleftrightarrow> te_shape (te y) \<and> te_timeless (te y) \<and> te_pc_ok (te_pc y) (te y) \<and> te_ids_ok y \<and> te_data_ok y"

lemma te_inv_start: "te_inv te_start"
  by (simp add: te_inv_def te_start_def te_inits te_pc_ok_def te_ids_ok_def te_data_ok_def te_inflight_def te_inq_def
      te_outq_def) (simp add: TextEncInit_def)

lemma te_step_written:
  assumes "te_inv y" "RequestWriteBuf (Some b) n (te y) = Some (0, s)" "0 < n"
  shows "te_inv (y\<lparr>te := s, te_put := te_put y @ [take RMCINFO_SIZE b]\<rparr>)"
proof -
  have sh: "te_shape (te y)" "te_timeless (te y)" using assms(1) by (simp_all add: te_inv_def)
  have u: "in_used (te y) < int TEXTENC_PACKET_CNT" using assms(2) by (auto simp: RequestWriteBuf_def split: if_splits)
  define t where "t = blank_text\<lparr>gps_data := take RMCINFO_SIZE b\<rparr>"
  have s: "s = (te y)\<lparr>in_pkt := (in_pkt (te y))[in_wid (te y) := t], in_used := in_used (te y) + 1,
      in_wid := (in_wid (te y) + 1) mod TEXTENC_PACKET_CNT\<rparr>"
    using assms(2,3) u by (cases "mem_read b 0 RMCINFO_SIZE") (auto simp: RequestWriteBuf_def t_def)
  have "te_inq s = te_inq (te y) @ [take RMCINFO_SIZE b]"
    using sh(1) u ring_read_push [of "in_rid (te y)" "in_pkt (te y)" "nat (in_used (te y))" t]
    by (simp add: s te_inq_def te_shape_def nat_add_distrib t_def nat_less_iff)
  moreover have "te_outq k s = te_outq k (te y)" "te_pc_ok (te_pc y) (te y) \<Longrightarrow> te_pc_ok (te_pc y) s"
    "out_pkt s = out_pkt (te y)" for k
    by (auto simp: s te_outq_def te_pc_ok_def split: enc_pc.splits)
  moreover have "te_shape s \<and> te_timeless s" by (rule RequestWriteBuf_shape [OF sh assms(2)])
  ultimately show ?thesis
    using assms(1) by (auto simp: te_inv_def te_ids_ok_def te_data_ok_def te_inflight_def s split: enc_pc.splits)
qed

text \<open>What the encoder does at the write position leaves the packets in use alone.\<close>

lemma te_outq_outside:
  assumes "te_inv y" "out_used (te y) < int TEXTENC_PACKET_CNT" "out_pkt s = (out_pkt (te y))[out_wid (te y) := p]"
    "out_used s = out_used (te y)"
  shows "te_outq (te_base y) s = te_outq (te_base y) (te y)"
  using ring_read_outside [of "te_base y" "out_pkt (te y)" "nat (out_used (te y))" p] assms
  by (simp add: te_inv_def te_ids_ok_def te_outq_def te_shape_def nat_less_iff)

lemma te_step_cleared:
  assumes "te_inv y" "te_pc y = E_Clear w"
  shows "te_inv (y\<lparr>te := te_clear w (te y), te_pc := E_Fill w\<rparr>)"
proof -
  have w: "w = out_wid (te y)" "w < TEXTENC_PACKET_CNT" "out_used (te y) < int TEXTENC_PACKET_CNT"
    using assms by (simp_all add: te_inv_def te_pc_ok_def te_shape_def)
  have "te_outq (te_base y) (te_clear w (te y)) = te_outq (te_base y) (te y)"
    by (rule te_outq_outside [OF assms(1) w(3)]) (simp_all add: te_clear_def w(1))
  moreover have "te_shape (te_clear w (te y)) \<and> te_timeless (te_clear w (te y))"
    using te_clear_shape w(2) assms(1) by (simp add: te_inv_def)
  moreover have "te_inq (te_clear w (te y)) = te_inq (te y)" by (simp add: te_inq_def te_clear_def)
  ultimately show ?thesis
    using assms by (auto simp: te_inv_def te_ids_ok_def te_data_ok_def te_inflight_def te_pc_ok_def te_clear_def)
qed

lemma te_step_filled:
  assumes "te_inv y" "te_pc y = E_Fill w"
  shows "te_inv (y\<lparr>te := FillOneFrame w (te y), te_pc := E_Commit w\<rparr>)"
proof -
  let ?s = "te y" and ?t = "FillOneFrame w (te y)"
  have w: "w = out_wid ?s" "w < TEXTENC_PACKET_CNT" "out_used ?s < int TEXTENC_PACKET_CNT" "0 < in_used ?s"
    and sh: "te_shape ?s" "te_timeless ?s"
    using assms by (simp_all add: te_inv_def te_pc_ok_def te_shape_def)
  define pk where "pk = in_pkt ?s ! in_rid ?s"
  have len: "length (in_pkt ?s) = TEXTENC_PACKET_CNT" "length (out_pkt ?s) = TEXTENC_PACKET_CNT" "in_rid ?s < TEXTENC_PACKET_CNT"
    using sh(1) by (simp_all add: te_shape_def)
  have g: "length (gps_data pk) = RMCINFO_SIZE" "length (out_data (out_pkt ?s ! w)) = TEXTENC_PACKET_SIZE"
    using sh(1) len w(2) by (simp_all add: te_shape_def pk_def)
  have "and TEXTENC_PACK_TYPE_GPS (push_bit TEXTENC_INPUT_TYPE_GPS 1) = TEXTENC_PACK_TYPE_GPS"
    by (simp add: TEXTENC_PACK_TYPE_GPS_def TEXTENC_INPUT_TYPE_GPS_def)
  then have o: "out_pkt ?t = (out_pkt ?s)[w := (out_pkt ?s ! w)\<lparr>out_data := mem_put (out_data (out_pkt ?s ! w)) 0 (gps_data pk)\<rparr>]"
    using assms(1) by (simp add: FillOneFrame_def Let_def te_inv_def te_ids_ok_def pk_def)
  have "enc_gps (out_pkt ?t ! w) = gps_data pk"
    using g len w(2) by (simp add: o enc_gps_def mem_put_def)
  moreover have "te_outq (te_base y) ?t = te_outq (te_base y) ?s"
    by (rule te_outq_outside [OF assms(1) w(3) o [unfolded w(1)], folded w(1)]) (simp add: FillOneFrame_def Let_def)
  moreover have "te_inq ?s = gps_data pk # te_inq ?t"
  proof -
    have "nat (in_used ?s) = Suc (nat (in_used ?s - 1))" using w(4) by simp
    then show ?thesis
      using ring_read_Suc [of "in_pkt ?s" "in_rid ?s" "nat (in_used ?s - 1)"] len
      by (simp add: te_inq_def FillOneFrame_def Let_def pk_def)
  qed
  moreover have "te_shape ?t \<and> te_timeless ?t" by (rule FillOneFrame_shape [OF sh w(2,4)])
  moreover have "out_used ?t = out_used ?s" "out_wid ?t = out_wid ?s" "out_rid ?t = out_rid ?s"
    "prefetch_cnt ?t = prefetch_cnt ?s" "enc_type_enable_flag ?t = enc_type_enable_flag ?s"
    by (simp_all add: FillOneFrame_def Let_def)
  ultimately show ?thesis
    using assms w by (auto simp: te_inv_def te_ids_ok_def te_data_ok_def te_inflight_def te_pc_ok_def)
qed

lemma te_step_committed:
  assumes "te_inv y" "te_pc y = E_Commit w"
  shows "te_inv (y\<lparr>te := te_commit w (te y), te_pc := E_Idle\<rparr>)"
proof -
  let ?s = "te y" and ?t = "te_commit w (te y)"
  have w: "w = out_wid ?s" "w < TEXTENC_PACKET_CNT" "out_used ?s < int TEXTENC_PACKET_CNT"
    and sh: "te_shape ?s" "te_timeless ?s"
    using assms by (simp_all add: te_inv_def te_pc_ok_def te_shape_def)
  have i: "te_base y < TEXTENC_PACKET_CNT" "w = (te_base y + nat (out_used ?s)) mod TEXTENC_PACKET_CNT"
    using assms(1) w(1) by (simp_all add: te_inv_def te_ids_ok_def)
  have "te_outq (te_base y) ?t = te_outq (te_base y) ?s @ [enc_gps (out_pkt ?s ! w)]"
    using ring_read_push [of "te_base y" "out_pkt ?s" "nat (out_used ?s)"
        "(out_pkt ?s ! w)\<lparr>buf_id := int w, out_pts := te_pts ?s\<rparr>"] sh(1) w(3) i(1)
    by (simp add: te_outq_def te_commit_def te_shape_def nat_add_distrib nat_less_iff i(2) [symmetric]) (simp add: enc_gps_def)
  moreover have "te_inq ?t = te_inq ?s" by (simp add: te_inq_def te_commit_def)
  moreover have "te_shape ?t \<and> te_timeless ?t" by (rule te_commit_shape [OF sh w(2,3)])
  moreover have "(out_wid ?s + 1) mod TEXTENC_PACKET_CNT = (te_base y + nat (out_used ?s + 1)) mod TEXTENC_PACKET_CNT"
    using sh(1) i(2) w(1) by (simp add: te_shape_def nat_add_distrib mod_simps)
  ultimately show ?thesis
    using assms by (auto simp: te_inv_def te_ids_ok_def te_data_ok_def te_inflight_def te_pc_ok_def te_commit_def)
qed

lemma te_step_requested:
  assumes "te_inv y" "RequestTextEncBuf (te y) = (Some (i, n, t, b), s)" "x = take n (out_data (out_pkt (te y) ! i))"
  shows "te_inv (y\<lparr>te := s, te_got := te_got y @ [x], te_held := te_held y @ [x]\<rparr>)"
proof -
  let ?h = "length (te_held y)"
  have p: "0 < prefetch_cnt (te y)" "i = out_rid (te y)" "n = RMCINFO_SIZE"
    "s = (te y)\<lparr>out_rid := (i + 1) mod TEXTENC_PACKET_CNT, prefetch_cnt := prefetch_cnt (te y) - 1\<rparr>"
    using assms(2) by (auto simp: RequestTextEncBuf_def Let_def split: if_splits)
  have len: "length (out_pkt (te y)) = TEXTENC_PACKET_CNT" using assms(1) by (simp add: te_inv_def te_shape_def)
  obtain dn ready where d: "te_got y = dn @ te_held y" "te_outq (te_base y) (te y) = te_held y @ ready"
    "te_put y = te_got y @ ready @ te_inflight y @ te_inq (te y)"
    using assms(1) by (auto simp: te_inv_def te_data_ok_def)
  have u: "?h < nat (out_used (te y))" using assms(1) p(1) by (simp add: te_inv_def te_ids_ok_def)
  have r: "length (te_outq (te_base y) (te y)) = nat (out_used (te y))" by (simp add: te_outq_def)
  have "te_outq (te_base y) (te y) ! ?h = x"
    using u assms(1,3) p(2,3) len by (simp add: te_outq_def te_inv_def te_ids_ok_def enc_gps_def)
  moreover have "ready \<noteq> []" using u r d(2) by auto
  ultimately have "ready = x # tl ready" using d(2) by (cases ready) (simp_all add: nth_append)
  then have "te_data_ok (y\<lparr>te := s, te_got := te_got y @ [x], te_held := te_held y @ [x]\<rparr>)"
    unfolding te_data_ok_def using d p(4)
    by (intro exI [of _ dn] exI [of _ "tl ready"])
      (auto simp: te_outq_def te_inq_def te_inflight_def split: enc_pc.split)
  moreover have "(out_rid (te y) + 1) mod TEXTENC_PACKET_CNT = (te_base y + (?h + 1)) mod TEXTENC_PACKET_CNT"
    using assms(1) by (simp add: te_inv_def te_ids_ok_def mod_simps add.assoc)
  ultimately show ?thesis
    using assms(1) p by (auto simp: te_inv_def te_ids_ok_def te_shape_def te_timeless_def te_pc_ok_def split: enc_pc.splits)
qed

lemma te_step_released:
  assumes "te_inv y" "te_held y \<noteq> []" "ReleaseTextEncBuf (packet_address (te_base y)) (te y) = Some (0, s)"
  shows "te_inv (y\<lparr>te := s, te_held := tl (te_held y), te_base := (te_base y + 1) mod TEXTENC_PACKET_CNT\<rparr>)"
proof -
  have s: "out_used (te y) \<noteq> 0" "s = (te y)\<lparr>out_used := out_used (te y) - 1\<rparr>"
    using assms(3) by (auto simp: ReleaseTextEncBuf_def Let_def split: if_splits)
  have u: "0 < out_used (te y)" using assms(1) s(1) by (simp add: te_inv_def te_shape_def)
  have len: "length (out_pkt (te y)) = TEXTENC_PACKET_CNT" using assms(1) by (simp add: te_inv_def te_shape_def)
  obtain dn ready where d: "te_got y = dn @ te_held y" "te_outq (te_base y) (te y) = te_held y @ ready"
    "te_put y = te_got y @ ready @ te_inflight y @ te_inq (te y)"
    using assms(1) by (auto simp: te_inv_def te_data_ok_def)
  obtain x h where h: "te_held y = x # h" using assms(2) by (cases "te_held y") auto
  have "nat (out_used (te y)) = Suc (nat (out_used (te y) - 1))" using u by simp
  then have "tl (te_outq (te_base y) (te y)) = te_outq ((te_base y + 1) mod TEXTENC_PACKET_CNT) s"
    using ring_read_Suc [of "out_pkt (te y)" "te_base y" "nat (out_used (te y) - 1)"] len by (simp add: te_outq_def s(2))
  then have o: "te_outq ((te_base y + 1) mod TEXTENC_PACKET_CNT) s = h @ ready" using d(2) h by simp
  have "te_data_ok (y\<lparr>te := s, te_held := tl (te_held y), te_base := (te_base y + 1) mod TEXTENC_PACKET_CNT\<rparr>)"
    unfolding te_data_ok_def using d o h s(2)
    by (intro exI [of _ "dn @ [x]"] exI [of _ ready])
      (auto simp: te_inq_def te_inflight_def split: enc_pc.split)
  moreover have "te_ids_ok (y\<lparr>te := s, te_held := tl (te_held y), te_base := (te_base y + 1) mod TEXTENC_PACKET_CNT\<rparr>)"
  proof -
    have m: "((te_base y + 1) mod TEXTENC_PACKET_CNT + k) mod TEXTENC_PACKET_CNT = (te_base y + Suc k) mod TEXTENC_PACKET_CNT" for k
      by (simp add: mod_simps)
    have n: "nat (out_used (te y)) = Suc (nat (out_used (te y) - 1))" using u by simp
    show ?thesis using assms(1) unfolding te_inv_def te_ids_ok_def by (simp add: s(2) h m n mod_simps)
  qed
  moreover have "te_shape s" "te_timeless s"
    using assms(1) s u by (simp_all add: te_inv_def te_shape_def te_timeless_def)
  moreover have "te_pc_ok (te_pc y) s"
    using assms(1) s(2) by (auto simp: te_inv_def te_pc_ok_def split: enc_pc.splits)
  ultimately show ?thesis by (simp add: te_inv_def)
qed

lemma te_reach_inv: "te_reach y \<Longrightarrow> te_inv y"
proof (induction rule: te_reach.induct)
  case (te_more y z)
  note inv = te_more(3)
  from te_more(2) show ?case
  proof cases
    case (te_written b n s)
    then show ?thesis using te_step_written [OF inv] by simp
  next
    case (te_refused b n s)
    from te_refused(2) have "s = te y" by (rule RequestWriteBuf_cases) simp_all
    then show ?thesis using te_refused(1) inv by simp
  next
    case te_in_ready
    then show ?thesis using inv
      by (simp add: te_inv_def te_ids_ok_def te_data_ok_def te_inflight_def te_pc_ok_def te_shape_def)
  next
    case te_out_full
    then show ?thesis using inv by (simp add: te_inv_def te_ids_ok_def te_data_ok_def te_inflight_def te_pc_ok_def)
  next
    case te_out_free
    then show ?thesis using inv by (simp add: te_inv_def te_ids_ok_def te_data_ok_def te_inflight_def te_pc_ok_def)
  next
    case (te_cleared w)
    then show ?thesis using te_step_cleared [OF inv] by simp
  next
    case (te_filled w)
    then show ?thesis using te_step_filled [OF inv] by simp
  next
    case (te_committed w)
    then show ?thesis using te_step_committed [OF inv] by simp
  next
    case (te_requested i n t b s x)
    then show ?thesis using te_step_requested [OF inv] by simp
  next
    case (te_released s)
    then show ?thesis using te_step_released [OF inv] by simp
  qed
qed (rule te_inv_start)

section \<open>Properties\<close>

text \<open>
  C39: under every interleaving of the writer, the encoder and a reader that releases its packets in
  order, the records come out as they went in: what was requested so far is a prefix of what was
  written, at most twenty records are in between, and every packet that was requested and not
  released still holds its record, in the order of the requests from \<open>te_base\<close> on.
\<close>

theorem text_encoder_keeps_order:
  assumes "te_reach y"
  shows "(\<exists>pending. te_put y = te_got y @ pending \<and> length pending \<le> 20) \<and>
    (\<forall>i < length (te_held y).
       enc_gps (out_pkt (te y) ! ((te_base y + i) mod TEXTENC_PACKET_CNT)) = te_held y ! i)"
proof -
  have inv: "te_inv y" by (rule te_reach_inv [OF assms])
  then obtain dn ready where d: "te_got y = dn @ te_held y" "te_outq (te_base y) (te y) = te_held y @ ready"
    "te_put y = te_got y @ ready @ te_inflight y @ te_inq (te y)"
    by (auto simp: te_inv_def te_data_ok_def)
  have o: "length (te_outq (te_base y) (te y)) = nat (out_used (te y))" by (simp add: te_outq_def)
  have b: "length ready + length (te_inflight y) \<le> 10"
    using inv o d(2) by (auto simp: te_inv_def te_inflight_def te_pc_ok_def te_shape_def TEXTENC_PACKET_CNT_def split: enc_pc.splits)
  have "length (te_inq (te y)) \<le> 10" using inv by (simp add: te_inv_def te_shape_def te_inq_def TEXTENC_PACKET_CNT_def nat_le_iff)
  then have "\<exists>pending. te_put y = te_got y @ pending \<and> length pending \<le> 20"
    using d(3) b by (intro exI [of _ "ready @ te_inflight y @ te_inq (te y)"]) simp
  moreover have "\<forall>i < length (te_held y).
      enc_gps (out_pkt (te y) ! ((te_base y + i) mod TEXTENC_PACKET_CNT)) = te_held y ! i"
  proof (intro allI impI)
    fix i assume i: "i < length (te_held y)"
    then have n: "i < nat (out_used (te y))" using o d(2) by (metis length_append trans_less_add1)
    have "te_outq (te_base y) (te y) ! i = te_held y ! i" using i d(2) by (simp add: nth_append)
    then show "enc_gps (out_pkt (te y) ! ((te_base y + i) mod TEXTENC_PACKET_CNT)) = te_held y ! i"
      using n inv by (simp add: te_outq_def te_inv_def te_shape_def)
  qed
  ultimately show ?thesis by blast
qed

definition te_demo_record :: "byte list" where "te_demo_record = 7 # replicate 143 1"

lemma te_demo_written: "RequestWriteBuf (Some te_demo_record) 144 (TextEncInit e) =
    Some (0, (TextEncInit e)\<lparr>in_pkt := (in_pkt (TextEncInit e))[0 := \<lparr>gps_data = te_demo_record, in_pts = 0\<rparr>],
      in_used := 1, in_wid := 1\<rparr>)"
proof -
  have "mem_read te_demo_record 0 RMCINFO_SIZE = Some te_demo_record"
    by (simp add: mem_read_def te_demo_record_def RMCINFO_SIZE_def)
  then show ?thesis unfolding RequestWriteBuf_def
    by (simp add: TextEncInit_def TEXTENC_PACKET_CNT_def blank_text_def del: mem_read_eq_Some)
qed

text \<open>One record through the encoder and to the reader.\<close>

lemma te_demo_run: "\<exists>y. te_reach y \<and> te_held y \<noteq> []"
proof -
  define y1 where "y1 = te_start\<lparr>te := snd (the (RequestWriteBuf (Some te_demo_record) 144 (te te_start))),
    te_put := te_put te_start @ [take RMCINFO_SIZE te_demo_record]\<rparr>"
  define y2 where "y2 = y1\<lparr>te_pc := E_Ready\<rparr>"
  define y3 where "y3 = y2\<lparr>te_pc := E_Clear (out_wid (te y2))\<rparr>"
  define y4 where "y4 = y3\<lparr>te := te_clear 0 (te y3), te_pc := E_Fill 0\<rparr>"
  define y5 where "y5 = y4\<lparr>te := FillOneFrame 0 (te y4), te_pc := E_Commit 0\<rparr>"
  define y6 where "y6 = y5\<lparr>te := te_commit 0 (te y5), te_pc := E_Idle\<rparr>"
  have "te_reach y1" unfolding y1_def
    by (rule te_more [OF te_at_start te_written [where n = 144]]) (simp_all add: te_start_def te_demo_written)
  then have "te_reach y2" unfolding y2_def
    by (rule te_more [OF _ te_in_ready]) (simp_all add: y1_def te_start_def te_demo_written)
  then have "te_reach y3" unfolding y3_def
    by (rule te_more [OF _ te_out_free])
      (simp_all add: y2_def y1_def te_start_def te_demo_written, simp add: TextEncInit_def)
  then have "te_reach y4" unfolding y4_def
    by (rule te_more [OF _ te_cleared]) (simp add: y3_def y2_def y1_def te_start_def te_demo_written, simp add: TextEncInit_def)
  then have "te_reach y5" unfolding y5_def by (rule te_more [OF _ te_filled]) (simp add: y4_def)
  then have r: "te_reach y6" unfolding y6_def by (rule te_more [OF _ te_committed]) (simp add: y5_def)
  have "0 < prefetch_cnt (te y6)"
    by (simp add: y6_def te_commit_def y5_def FillOneFrame_def Let_def y4_def te_clear_def y3_def y2_def y1_def te_start_def
        te_demo_written) (simp add: TextEncInit_def)
  then obtain i n t b s where "RequestTextEncBuf (te y6) = (Some (i, n, t, b), s)"
    by (simp add: RequestTextEncBuf_def Let_def)
  from te_more [OF r te_requested [OF this refl]] show ?thesis by (intro exI conjI) (assumption, simp)
qed

lemma text_encoder_keeps_order_witness:
  "\<exists>y. te_reach y \<and> te_held y \<noteq> [] \<and> (\<exists>pending. te_put y = te_got y @ pending) \<and>
    enc_gps (out_pkt (te y) ! (te_base y mod TEXTENC_PACKET_CNT)) = te_held y ! 0"
proof -
  obtain y where y: "te_reach y" "te_held y \<noteq> []" using te_demo_run by blast
  then show ?thesis using text_encoder_keeps_order [OF y(1)] by force
qed

text \<open>The count of packets to request only grows by an encoded packet.\<close>

lemma te_call_prefetch: "te_call c s = Some s' \<Longrightarrow> prefetch_cnt s' \<le> max 0 (prefetch_cnt s + 1)"
proof (cases c)
  case (Te_Write b n)
  assume "te_call c s = Some s'"
  then obtain r where "RequestWriteBuf b n s = Some (r, s')" using Te_Write by auto
  then show ?thesis by (rule RequestWriteBuf_cases) simp_all
qed (auto simp: TextEncodePro_def te_commit_def FillOneFrame_def te_clear_def RequestTextEncBuf_def ReturnTextEncBuf_def
    ReleaseTextEncBuf_def ClearDataMgr_def Let_def split: if_splits)

text \<open>The calls that read only inside their buffers.\<close>

definition te_args_ok :: "te_op \<Rightarrow> bool" where
  "te_args_ok c = (case c of
      Te_Write (Some b) n \<Rightarrow> 0 < n \<longrightarrow> RMCINFO_SIZE \<le> length b
    | Te_Release p \<Rightarrow> unat p < TEXTENC_PACKET_CNT * ENC_PACKET_SIZE
    | _ \<Rightarrow> True)"

lemma te_call_defined:
  assumes "te_shape s" "te_args_ok c"
  shows "te_call c s \<noteq> None"
proof (cases c)
  case (Te_Write b n)
  then show ?thesis using assms(2)
    by (cases b) (auto simp: te_args_ok_def RequestWriteBuf_def mem_read_def)
next
  case (Te_Release p)
  have "unat (of_nat ENC_PACKET_SIZE :: u32) = ENC_PACKET_SIZE"
    by (simp add: ENC_PACKET_SIZE_def TEXTENC_PACKET_SIZE_def RMCINFO_SIZE_def)
  then have "unat (p div of_nat ENC_PACKET_SIZE) < TEXTENC_PACKET_CNT"
    using assms(2) Te_Release by (simp add: te_args_ok_def unat_div less_mult_imp_div_less)
  then show ?thesis using assms(1) Te_Release by (simp add: ReleaseTextEncBuf_def te_shape_def Let_def)
qed simp_all

text \<open>
  C40: whatever clients call, in any order, with records of at least the size of \<open>RMCINFO\<close> and with
  pointers into the output packets for a release, every call returns, reads and writes inside its
  buffers, and the encoder keeps the shape of its state: positions below ten, both counts of used
  buffers between zero and ten, the write position of the input ring as many places behind its read
  position as are used, buffers of their size. The count of packets to request is not negative; it
  may exceed ten (a release without a request does not lower it) and is at most the number of calls.
\<close>

theorem text_encoder_keeps_its_shape:
  assumes "\<forall>c \<in> set cs. te_args_ok c"
  shows "\<exists>s. te_calls cs (TextEncInit e) = Some s \<and> te_shape s \<and> prefetch_cnt s \<le> int (length cs)"
proof -
  have "\<exists>s'. te_calls cs s = Some s' \<and> te_shape s' \<and> prefetch_cnt s' \<le> prefetch_cnt s + int (length cs)"
    if "te_shape s" "te_timeless s" for s
    using assms that
  proof (induction cs arbitrary: s)
    case (Cons c cs)
    obtain s1 where s1: "te_call c s = Some s1" using te_call_defined [OF Cons.prems(2), of c] Cons.prems(1) by auto
    have sh: "te_shape s1" "te_timeless s1" using te_call_shape [OF Cons.prems(2,3) s1] by simp_all
    obtain s2 where s2: "te_calls cs s1 = Some s2" "te_shape s2" "prefetch_cnt s2 \<le> prefetch_cnt s1 + int (length cs)"
      using Cons.IH [OF _ sh] Cons.prems(1) by auto
    have "0 \<le> prefetch_cnt s" using Cons.prems(2) by (simp add: te_shape_def)
    then show ?case using s1 s2 te_call_prefetch [OF s1] by simp
  qed simp
  from this [OF te_inits] show ?thesis by (simp add: TextEncInit_def)
qed

lemma text_encoder_keeps_its_shape_witness:
  "\<exists>s. te_calls [Te_Write (Some te_demo_record) 144, Te_Encode, Te_Release (packet_address 0), Te_Request, Te_Return 0 3]
      (TextEncInit 1) = Some s \<and> te_shape s \<and> prefetch_cnt s \<le> 5"
  using text_encoder_keeps_its_shape [of "[Te_Write (Some te_demo_record) 144, Te_Encode, Te_Release (packet_address 0),
      Te_Request, Te_Return 0 3]" 1]
  by (simp add: te_args_ok_def te_demo_record_def packet_address_def RMCINFO_SIZE_def ENC_PACKET_SIZE_def)

text \<open>
  A pointer outside the packets makes a release read outside the array, and a release without a
  request leaves the packet among those to request.
\<close>

lemma release_outside:
  "out_used s \<noteq> 0 \<Longrightarrow> length (out_pkt s) * ENC_PACKET_SIZE \<le> unat p \<Longrightarrow> ReleaseTextEncBuf p s = None"
proof -
  assume a: "out_used s \<noteq> 0" "length (out_pkt s) * ENC_PACKET_SIZE \<le> unat p"
  have e: "unat (of_nat ENC_PACKET_SIZE :: u32) = ENC_PACKET_SIZE" "0 < ENC_PACKET_SIZE"
    by (simp_all add: ENC_PACKET_SIZE_def TEXTENC_PACKET_SIZE_def RMCINFO_SIZE_def)
  have "length (out_pkt s) \<le> unat p div ENC_PACKET_SIZE"
    using div_le_mono [OF a(2), of ENC_PACKET_SIZE] e(2) by simp
  then show ?thesis using a(1) e by (simp add: ReleaseTextEncBuf_def unat_div Let_def)
qed

lemma release_keeps_prefetch: "ReleaseTextEncBuf p s = Some (r, s') \<Longrightarrow> prefetch_cnt s' = prefetch_cnt s"
  by (auto simp: ReleaseTextEncBuf_def Let_def split: if_splits)

text \<open>
  No encoded packet ever has a time stamp: a record is copied without one, so that the base and
  every time given to a reader are zero, whatever is called.
\<close>

theorem text_packets_have_no_time:
  assumes "te_calls cs (TextEncInit e) = Some s" "RequestTextEncBuf s = (Some (i, n, t, b), s')"
  shows "t = 0 \<and> base_pts s = 0"
proof -
  have "te_shape s \<and> te_timeless s"
    if "te_calls cs s0 = Some s" "te_shape s0" "te_timeless s0" for s0
    using that
  proof (induction cs arbitrary: s0)
    case (Cons c cs)
    then obtain s1 where "te_call c s0 = Some s1" "te_calls cs s1 = Some s" by (auto split: bind_splits)
    then show ?case using te_call_shape [OF Cons.prems(2,3)] Cons.IH by blast
  qed simp
  then have s: "te_shape s" "te_timeless s" using assms(1) te_inits by blast+
  then have "out_rid s < length (out_pkt s)" by (simp add: te_shape_def)
  then have "out_pts (out_pkt s ! out_rid s) = 0" using s(2) by (simp add: te_timeless_def)
  moreover have "t = out_pts (out_pkt s ! out_rid s)"
    using assms(2) by (auto simp: RequestTextEncBuf_def Let_def split: if_splits)
  ultimately show ?thesis using s(2) by (simp add: te_timeless_def)
qed

lemma text_packets_have_no_time_witness:
  "\<exists>s i n t b s'. te_calls [Te_Write (Some te_demo_record) 144, Te_Encode] (TextEncInit 1) = Some s \<and>
    RequestTextEncBuf s = (Some (i, n, t, b), s') \<and> t = 0 \<and> base_pts s = 0"
proof -
  have "\<exists>s. te_calls [Te_Write (Some te_demo_record) 144, Te_Encode] (TextEncInit 1) = Some s \<and> prefetch_cnt s = 1"
    by (simp add: te_demo_written TextEncodePro_def Let_def)
      (simp add: TextEncInit_def te_commit_def FillOneFrame_def te_clear_def Let_def)
  then obtain s where s: "te_calls [Te_Write (Some te_demo_record) 144, Te_Encode] (TextEncInit 1) = Some s" "prefetch_cnt s = 1"
    by blast
  then obtain i n t b s' where "RequestTextEncBuf s = (Some (i, n, t, b), s')"
    by (simp add: RequestTextEncBuf_def Let_def)
  with text_packets_have_no_time [OF s(1) this] s(1) show ?thesis by blast
qed

text \<open>One record is written, encoded, requested and returned.\<close>

definition te_return_cycle :: "byte list \<Rightarrow> te_op list" where
  "te_return_cycle b = [Te_Write (Some b) 144, Te_Encode, Te_Request, Te_Return 0 0]"

definition te_leak :: "nat \<Rightarrow> TextEncDataManager \<Rightarrow> bool" where
  "te_leak n s \<longleftrightarrow> te_shape s \<and> te_timeless s \<and> out_used s = int n \<and> prefetch_cnt s = 0 \<and> out_rid s = 0 \<and>
     in_used s = 0 \<and> out_wid s = n mod TEXTENC_PACKET_CNT \<and> buf_id (out_pkt s ! 0) = 0"

lemma te_cycle_leaks:
  assumes "te_leak n s" "n < 10" "length b = RMCINFO_SIZE"
  shows "\<exists>s'. te_calls (te_return_cycle b) s = Some s' \<and> te_leak (Suc n) s'"
proof -
  have sh: "te_shape s" "te_timeless s" and n: "out_wid s = n" "n < TEXTENC_PACKET_CNT"
    using assms(1,2) by (simp_all add: te_leak_def TEXTENC_PACKET_CNT_def)
  define s1 where "s1 = s\<lparr>in_pkt := (in_pkt s)[in_wid s := \<lparr>gps_data = b, in_pts = 0\<rparr>], in_used := 1,
    in_wid := (in_wid s + 1) mod TEXTENC_PACKET_CNT\<rparr>"
  have 1: "te_call (Te_Write (Some b) 144) s = Some s1"
    using assms by (simp add: RequestWriteBuf_def te_leak_def s1_def blank_text_def mem_read_def)
  define s2 where "s2 = te_commit n (FillOneFrame n (te_clear n s1))"
  have "out_used s < int TEXTENC_PACKET_CNT" using assms(1) n by (simp add: te_leak_def)
  then have 2: "te_call Te_Encode s1 = Some s2" using n by (simp add: TextEncodePro_def s1_def s2_def Let_def)
  have f: "out_used s2 = int (Suc n)" "prefetch_cnt s2 = 1" "out_rid s2 = 0" "in_used s2 = 0"
    "out_wid s2 = Suc n mod TEXTENC_PACKET_CNT"
    using assms(1) n by (simp_all add: s2_def te_commit_def FillOneFrame_def te_clear_def Let_def s1_def te_leak_def)
  have sh2: "te_shape s2" "te_timeless s2" using te_call_shape [OF _ _ 2] te_call_shape [OF sh 1] by blast+
  have "length (out_pkt s) = TEXTENC_PACKET_CNT" using sh by (simp add: te_shape_def)
  then have i: "buf_id (out_pkt s2 ! 0) = 0"
    using assms(1) n(2) by (cases "n = 0")
      (simp_all add: s2_def te_commit_def FillOneFrame_def te_clear_def Let_def s1_def te_leak_def)
  define s3 where "s3 = s2\<lparr>out_rid := 1 mod TEXTENC_PACKET_CNT, prefetch_cnt := 0\<rparr>"
  have 3: "te_call Te_Request s2 = Some s3" using f by (simp add: RequestTextEncBuf_def Let_def s3_def)
  have sh3: "te_shape s3" "te_timeless s3" using te_call_shape [OF sh2 3] by blast+
  have "0 < length (out_pkt s2)" using sh2 by (simp add: te_shape_def)
  then have "out_pts (out_pkt s2 ! 0) = 0" using sh2(2) by (simp add: te_timeless_def)
  moreover have "(1 mod TEXTENC_PACKET_CNT + TEXTENC_PACKET_CNT - 1) mod TEXTENC_PACKET_CNT = 0"
    by (simp add: TEXTENC_PACKET_CNT_def)
  ultimately have 4: "te_call (Te_Return 0 0) s3 = Some (s3\<lparr>out_rid := 0\<rparr>)"
    using i by (simp add: ReturnTextEncBuf_def Let_def s3_def)
  have "te_leak (Suc n) (s3\<lparr>out_rid := 0\<rparr>)"
    using te_call_shape [OF sh3 4] f i by (simp add: te_leak_def s3_def)
  moreover have "te_calls (te_return_cycle b) s = Some (s3\<lparr>out_rid := 0\<rparr>)"
    by (simp only: te_return_cycle_def te_calls.simps 1 2 3 4 bind.bind_lunit)
  ultimately show ?thesis by blast
qed

lemma te_calls_append: "te_calls (xs @ ys) s = do { s1 \<leftarrow> te_calls xs s; te_calls ys s1 }"
  by (induction xs arbitrary: s) (simp_all split: bind_splits)

lemma te_cycles_leak:
  "te_leak n s \<Longrightarrow> n + length bs \<le> 10 \<Longrightarrow> \<forall>b \<in> set bs. length b = RMCINFO_SIZE \<Longrightarrow>
    \<exists>s'. te_calls (concat (map te_return_cycle bs)) s = Some s' \<and> te_leak (n + length bs) s'"
proof (induction bs arbitrary: n s)
  case (Cons b bs)
  obtain s1 where "te_calls (te_return_cycle b) s = Some s1" "te_leak (Suc n) s1"
    using te_cycle_leaks [OF Cons.prems(1)] Cons.prems(2,3) by auto
  then show ?case using Cons.IH [of "Suc n" s1] Cons.prems(2,3) by (simp add: te_calls_append)
qed simp

text \<open>
  A packet that is returned is not counted as one to request again. After ten records that a
  reader requested and returned, the output ring is full of packets that no one can request: as
  long as nothing is released (and the reader holds nothing to release), every request fails and
  the encoder encodes nothing, whatever else is called.
\<close>

theorem ten_returns_block_the_encoder:
  assumes "length bs = 10" "\<forall>b \<in> set bs. length b = RMCINFO_SIZE"
    and "\<forall>p. Te_Release p \<notin> set cs" "Te_Clear \<notin> set cs"
    and "te_calls (concat (map te_return_cycle bs) @ cs) (TextEncInit e) = Some s"
  shows "fst (RequestTextEncBuf s) = None \<and> fst (TextEncodePro s) \<noteq> ERR_TEXT_ENC_NONE"
proof -
  have "te_leak 0 (TextEncInit e)"
    using te_inits [of e] by (simp add: te_leak_def) (simp add: TextEncInit_def TEXTENC_PACKET_CNT_def blank_enc_def)
  from te_cycles_leak [OF this, of bs] assms(1,2)
  obtain s1 where s1: "te_calls (concat (map te_return_cycle bs)) (TextEncInit e) = Some s1" "te_leak 10 s1" by auto
  have "out_used s = 10 \<and> prefetch_cnt s = 0"
    if "te_calls cs s1 = Some s" "out_used s1 = 10" "prefetch_cnt s1 = 0" for s1
    using that assms(3,4)
  proof (induction cs arbitrary: s1)
    case (Cons c cs)
    obtain s2 where s2: "te_call c s1 = Some s2" "te_calls cs s2 = Some s"
      using Cons.prems(1) by (auto split: bind_splits)
    have "out_used s2 = 10 \<and> prefetch_cnt s2 = 0"
    proof (cases c)
      case (Te_Write b n)
      then obtain r where "RequestWriteBuf b n s1 = Some (r, s2)" using s2(1) by auto
      then show ?thesis by (rule RequestWriteBuf_cases) (use Cons.prems in simp_all)
    qed (use Cons.prems s2(1) in \<open>auto simp: TextEncodePro_def TEXTENC_PACKET_CNT_def RequestTextEncBuf_def
        ReturnTextEncBuf_def Let_def split: if_splits\<close>)
    then show ?case using Cons s2(2) by simp
  qed simp
  moreover have "te_calls cs s1 = Some s" using assms(5) s1(1) by (simp add: te_calls_append)
  ultimately have "out_used s = 10 \<and> prefetch_cnt s = 0" using s1(2) by (simp add: te_leak_def)
  then show ?thesis by (simp add: RequestTextEncBuf_def TextEncodePro_def TEXTENC_PACKET_CNT_def)
qed

lemma ten_returns_block_the_encoder_witness:
  "\<exists>s. te_calls (concat (map te_return_cycle (replicate 10 te_demo_record)) @ [Te_Write (Some te_demo_record) 144, Te_Encode])
      (TextEncInit 1) = Some s \<and> fst (RequestTextEncBuf s) = None \<and> fst (TextEncodePro s) \<noteq> ERR_TEXT_ENC_NONE"
proof -
  let ?cs = "concat (map te_return_cycle (replicate 10 te_demo_record)) @ [Te_Write (Some te_demo_record) 144, Te_Encode]"
  have l: "length te_demo_record = RMCINFO_SIZE" by (simp add: te_demo_record_def RMCINFO_SIZE_def)
  have "te_leak 0 (TextEncInit 1)"
    using te_inits [of 1] by (simp add: te_leak_def) (simp add: TextEncInit_def TEXTENC_PACKET_CNT_def blank_enc_def)
  from te_cycles_leak [OF this, of "replicate 10 te_demo_record"] l
  obtain s1 where s1: "te_calls (concat (map te_return_cycle (replicate 10 te_demo_record))) (TextEncInit 1) = Some s1" by auto
  have "\<exists>s2. te_call (Te_Write (Some te_demo_record) 144) s1 = Some s2"
    using l by (simp add: RequestWriteBuf_def mem_read_def)
  then obtain s where s: "te_calls ?cs (TextEncInit 1) = Some s" using s1 by (auto simp: te_calls_append)
  have "fst (RequestTextEncBuf s) = None \<and> fst (TextEncodePro s) \<noteq> ERR_TEXT_ENC_NONE"
    by (rule ten_returns_block_the_encoder [OF _ _ _ _ s]) (use l in simp_all)
  with s show ?thesis by blast
qed

end
