(* ===== verification/Spec2Isabelle.thy ===== *)
theory Spec2Isabelle
  imports RingBuffer FsCache TsReceiver Mp4Record Hevc AacMuxer Mp3Muxer RawMuxer MuxTable ThreadPool TextEnc
begin

text \<open>
  A verification library for the recording path of MAIXII: the containers that recordings are
  written to (transport streams, MP4, AAC and MP3 files, raw messages), the writers below them and the queues between,
  and for the thread pool of the tuning server. All paths below are relative to \<open>src/include/LIBRARY\<close>.

  \<^bold>\<open>The program.\<close> A recorder hands encoded frames to a muxer through the table of functions in
  \<open>include_muxer/record_writer.h\<close>. The muxer cuts a frame into packets or enters it into its
  tables and hands buffers to a writer (\<open>FsWriter\<close>): a direct one, one with a cache in memory, or
  one with a cache and a thread. A writer calls the file stream (\<open>cedarx_stream_file.c\<close>), which
  calls the system. The ring buffer of \<open>libVideoStabilization\<close> carries samples between threads.

  \<^bold>\<open>Theories and code.\<close>

  \<^item> \<open>Prelude\<close>: memory accesses with bounds (\<open>mem_read\<close>, \<open>mem_write\<close>, \<open>None\<close> outside), words
    as natural numbers, the collections of simplification rules.
  \<^item> \<open>Ring\<close>, \<open>RingBuffer\<close>: \<open>libVideoStabilization/utils/ring_buffer.c\<close>. The locale of a bounded
    queue, every operation of the code, with and without lock, and the refinement.
  \<^item> \<open>StreamFile\<close>: the descriptor variant of \<open>libstream/cedarx_stream_file.c\<close>. The
    outcomes of the system calls are an infinite sequence in the state; \<open>posix_write\<close> and its
    companions say what POSIX promises. A write that is told to try again for ever does not return.
  \<^item> \<open>FsWriter\<close>: \<open>libFsWriter/FsWriter.c\<close>, \<open>FsWriteDirect.c\<close>, \<open>FsSimpleCache.c\<close>. The locale
    \<open>fs_writer\<close> is the contract of a writer; it is interpreted by the direct writer and by the
    cache. \<open>fs_view\<close> is what a sequence of calls makes of a file.
  \<^item> \<open>FsCache\<close>: \<open>libFsWriter/FsCache.c\<close>. The client and the thread as a step relation; the
    invariant holds in every reachable state. A thread whose write to the file never returns has
    no further step.
  \<^item> \<open>TsCrc\<close>, \<open>TsMux\<close>, \<open>TsDrv\<close>, \<open>TsReceiver\<close>: \<open>libmuxer/mpeg2ts_muxer\<close>. Tables and PES
    packets, the driver, and a receiver written after ISO 13818-1 that reads them back.
  \<^item> \<open>ByteIO\<close>: \<open>libmuxer/mp4_muxer/ByteIOContext.c\<close>. The value of an emitter is the list of the
    buffers it hands to \<open>fsWrite\<close>.
  \<^item> \<open>Avc\<close>: \<open>libmuxer/mp4_muxer/avc.c\<close>. The start code search, the framing of units and the
    decoder configuration record with its size.
  \<^item> \<open>GetBits\<close>: \<open>libmuxer/common/libavcodec/get_bits.h\<close> and \<open>golomb.h\<close>, as far as \<open>hevc.c\<close> uses them. A
    reader is a state transformer of \<open>State_Monad\<close>; the locale \<open>kept_reader\<close> says that whatever the
    four primitive operations keep, every operation keeps, and is interpreted for the bounds of the
    buffer, for positions behind the data and for the data itself.
  \<^item> \<open>HevcParse\<close>, \<open>Hevc\<close>: \<open>libmuxer/mp4_muxer/hevc.c\<close>. The parser of the H.265 parameter sets; the
    collection of the units by type, the configuration record, its size and a reader of it.
  \<^item> \<open>Mp4Index\<close>: the index tables of \<open>libmuxer/mp4_muxer/Mp4Muxer.c\<close>, rings whose oldest page goes
    to a temporary file. The locale \<open>index_table\<close> is the contract of several tables that are filled
    in any order.
  \<^item> \<open>Mp4Mov\<close>: the state of the MP4 muxer and \<open>mov_write_packet\<close>. The code of the four tables is
    written out each time there; the model has it once (\<open>mov_store\<close>, \<open>mov_settle\<close>), with the
    track in which a page is counted as a parameter, because the code uses the wrong one for one
    of the tables.
  \<^item> \<open>Mp4Samples\<close>: the interpretation of \<open>index_table\<close> by the muxer's own steps on the tables of
    chunk offsets, sizes and durations (the pages of the chunk lengths are counted in the wrong
    track); what the tables say of the chunks recorded so far, and that every packet keeps
    this (\<open>mov_packet_ok\<close>).
  \<^item> \<open>Mp4Box\<close>, \<open>Mp4Size\<close>, \<open>Mp4Bound\<close>: every box of the header with the function that computes
    its size and the one that writes it; the two agree, and a bound on the length of a track.
  \<^item> \<open>Mp4Reader\<close>: a reader of MP4 files after ISO 14496-12.
  \<^item> \<open>Mp4File\<close>, \<open>Mp4Record\<close>: open, settings and parameter sets (\<open>Mp4MuxerDrv.c\<close>), header and
    trailer; a whole recording and the properties of the MP4 muxer. The declared size of a track is
    below, where the model of \<open>hevc.c\<close> is at hand.
  \<^item> \<open>AacMuxer\<close>, \<open>Mp3Muxer\<close>: \<open>libmuxer/aac_muxer\<close> and \<open>libmuxer/mp3_muxer\<close>, with readers of ADTS
    frames and of ID3v2 tags.
  \<^item> \<open>RawMuxer\<close>: \<open>libmuxer/raw_muxer/RawMuxer.c\<close>. The messages to the application as bytes and parts, and
    a receiver of them.
  \<^item> \<open>MuxDrv\<close>, \<open>MuxLife\<close>, \<open>MuxTable\<close>: what the five muxers open and close: the commands, the writer
    that a header makes, the temporary files and \<open>Close\<close>, with \<open>libstream/cedarx_outstream.c\<close> below them and the
    table of \<open>libmuxer/muxers/record_writer.c\<close> above. Streams and writers are numbers that live from
    creation to destruction, and every use of a dead one is \<open>None\<close>. The locale \<open>muxer_life\<close> says what the functions
    of a muxer keep; each muxer of the table interprets it.
  \<^item> \<open>ThreadPool\<close>: \<open>../libisp/tuning_app/thread_pool.c\<close>. One caller and the threads as a step relation.
  \<^item> \<open>TextEnc\<close>: \<open>textEncLib/TextEncApi.c\<close>, the encoder of GPS records with its two rings. The writer,
    the encoder and the reader are threads of a step relation. The pointer of a release is its
    distance from the first packet.

  \<^bold>\<open>What the theorems show.\<close> A recorded transport stream demultiplexes to the frames, and its
  tables parse to what was put into them. A recorded MP4 file, written through the cache, is read
  back sample by sample, whether its header box fits the space reserved at the start of the file
  or goes to its end. Both writers with a cache are transparent, the one with a thread under every
  interleaving. The ring buffer is a bounded queue. The search for start codes, the table-driven
  checksum and the sizes of boxes agree with their reference definitions. The H.265 parser stays in
  its buffer for all input, returns, and the record holds the parameter sets by type. A session of
  any muxer gives back what it opened but for what the code forgets, which the theorem names. The thread pool runs each
  work once, and its exit ends. The theorems of kind
  "error" show where the code does not do what it means to.

  \<^bold>\<open>Conventions.\<close> A 32-bit \<open>int\<close> or \<open>unsigned int\<close> is a word of type \<open>u32\<close> or, where the model says so, a natural
  number reduced when it is stored or written. An access outside an object, an unbounded wait and
  a division by zero are the value \<open>None\<close>. Memory allocation succeeds unless an operation takes the outcome as an
  argument. The loops are structural or have a measure, but for
  \<open>write_loop\<close>, which may run for ever and is a partial function, \<open>None\<close> when it does; only \<open>descr_len\<close> has fuel, five steps,
  which use up the 32 bits that the loop shifts out by seven. The loop of \<open>parse_rps\<close> that may run
  forever sets a flag in the reader, as does a read outside the buffer; \<open>hvcc_add_nal_unit\<close> is then
  \<open>None\<close>. What lies behind the copy of a unit is an argument, because the code does not write it.

  \<^bold>\<open>Bounds.\<close> \<open>mp4_recording_reads_back\<close> asks for fewer runs of packets of one stream than
  \<open>cache_size STSC_ID\<close> (16384), because beyond it the code counts pages in the wrong track; for no more key frames than the
  table of key frames holds, because the code does not check it; and for a file below 2 GiB,
  because sizes are signed 32-bit numbers there.

  \<^bold>\<open>Not modelled.\<close> A recording of H.265: the recording theorem of the MP4 muxer is about H.264 and
  motion JPEG, and a track holds what \<open>hevc.c\<close> gives for its parameter sets in two fields (\<open>h265_track\<close>
  below links them to the model of \<open>hevc.c\<close>). The FILE and direct-I/O variants of the file
  stream. The sockets of the tuning server. The rest of the repository is vendored or generated (headers of libav and of the image
  sensors, iniparser, binary libraries) or glue around it.
\<close>

section \<open>An H.265 track\<close>

text \<open>
  The two fields of a track that stand for the results of \<open>hevc.c\<close> hold what its model gives for the
  parameter sets of the track. Such a track has the property of parameter sets on which the sizes of
  its boxes rest.
\<close>

definition h265_track :: "(nat \<Rightarrow> byte list) \<Rightarrow> nat \<Rightarrow> MOVTrack \<Rightarrow> bool" where
  "h265_track pad al t \<longleftrightarrow>
     tag t = TAG_hvc1 \<and>
     ff_isom_write_hvcc (\<lambda>_. True) pad al (vosData t) 0 = Some (0, hvcc t) \<and>
     FFIsomGetHvccSize (\<lambda>_. True) pad al (vosData t) 0 = Some (hvcc_size t)"

lemma h265_vos_ok:
  assumes "h265_track pad al t" "vosData t = annexb items" "hvcc_stream items" "\<forall>k. length (pad k) = 32"
  shows "vos_ok t"
proof -
  have w: "ff_isom_write_hvcc (\<lambda>_. True) pad al (annexb items) 0 = Some (0, hvcc t)"
    using assms(1,2) by (simp add: h265_track_def)
  from record_written [OF assms(3,4) w] obtain h
    where h: "holds_units 0 (ps_units (map snd items)) h" "hvcc_write h = (0, hvcc t)"
      "FFIsomGetHvccSize (\<lambda>_. True) pad al (annexb items) 0 = Some (get_hvcc_write_size h)" .
  have "hvcc_size t = of_nat (blen (hvcc t))"
    using assms(1,2) h(3) write_size [OF holds_entries [OF h(1)] h(2)] by (simp add: h265_track_def)
  moreover have "TAG_hvc1 \<noteq> TAG_avc1" by code_simp
  ultimately show ?thesis using assms(1) by (simp add: vos_ok_def sized_calls_def h265_track_def)
qed

section \<open>The declared size of a track\<close>

text \<open>
  C24: the size that the box of a track declares is the number of bytes written for the track, for
  tracks of every format, sound, text and video, when the tables that its boxes read can be read,
  the time scale is not zero, an H.264 track has both parameter sets and a first start code of four
  bytes, and the fields of an H.265 track are what \<open>hevc.c\<close> gives for its parameter sets with any 32
  bytes behind the copies.
\<close>

theorem track_has_declared_size:
  assumes "tables_present m i" and "track_timescale (tracks m i) \<noteq> 0"
    and "tag (tracks m i) = TAG_avc1 \<longrightarrow>
      (\<exists>items sps pps. vos_stream items sps pps \<and> fst (hd items) = 3 \<and> vosData (tracks m i) = annexb items)"
    and "tag (tracks m i) = TAG_hvc1 \<longrightarrow>
      (\<exists>pad al items. h265_track pad al (tracks m i) \<and> (\<forall>k. length (pad k) = 32) \<and>
         hvcc_stream items \<and> vosData (tracks m i) = annexb items)"
  shows "\<exists>n c. movGetTrakTagSize (tracks m i) = Some n \<and> mov_write_trak_tag m i = Some c \<and>
    of_nat (length (bytes_of c)) = n \<and> take 4 (bytes_of c) = be32 n"
proof -
  have "vos_ok (tracks m i)"
  proof (cases "tag (tracks m i) = TAG_avc1")
    case True
    then show ?thesis using assms(3) avc1_vos_ok by blast
  next
    case avc: False
    show ?thesis
    proof (cases "tag (tracks m i) = TAG_hvc1")
      case True
      then show ?thesis using assms(4) h265_vos_ok by blast
    qed (use avc in \<open>simp add: vos_ok_def\<close>)
  qed
  from trak_declared [OF this assms(2,1)] show ?thesis .
qed

text \<open>A track of H.264 with both parameter sets and one frame, and one of PCM with five samples.\<close>

definition demo_tracks :: MOVContext where
  "demo_tracks = demo_context\<lparr>tracks := \<lambda>i. if i = 0
     then (blank_track CODEC_TYPE_VIDEO)\<lparr>
       enc := (blank_codec CODEC_TYPE_VIDEO)\<lparr>codec_id := CODEC_ID_H264\<rparr>, tag := TAG_avc1,
       vosData := annexb two_params, track_timescale := 1000, table_size := \<lambda>_. 1\<rparr>
     else (blank_track CODEC_TYPE_AUDIO)\<lparr>
       enc := (blank_codec CODEC_TYPE_AUDIO)\<lparr>codec_id := CODEC_ID_PCM\<rparr>, track_timescale := 8000,
       table_size := \<lambda>k. if k = STSZ_ID then 5 else 1\<rparr>,
     tabs := \<lambda>_ _. \<lparr>ring = \<lambda>_. 5, wr = 1, rd = 0, cached = 1, page_file = []\<rparr>\<rparr>"

lemma track_has_declared_size_witness:
  "\<forall>i. \<exists>n c. movGetTrakTagSize (tracks demo_tracks i) = Some n \<and> mov_write_trak_tag demo_tracks i = Some c \<and>
    of_nat (length (bytes_of c)) = n \<and> take 4 (bytes_of c) = be32 n"
proof
  fix i
  have r: "readable demo_tracks i k" if "i = 0 \<or> k \<noteq> STSZ_ID" for k
    using that by (cases k) (simp_all add: readable_def read_table_def idx_read_def demo_tracks_def blank_track_def
        cache_size_def MOV_CACHE_TINY_PAGE_SIZE_def)
  have "(0 :: u32) \<noteq> TAG_avc1" "(0 :: u32) \<noteq> TAG_hvc1" "TAG_avc1 \<noteq> TAG_hvc1"
    by (simp_all add: TAG_avc1_def TAG_hvc1_def MKTAG_def of_char_def)
  then have t: "tag (tracks demo_tracks i) = TAG_avc1 \<longrightarrow> i = 0" "tag (tracks demo_tracks i) \<noteq> TAG_hvc1"
    by (auto simp: demo_tracks_def blank_track_def)
  have v: "vosData (tracks demo_tracks 0) = annexb two_params" by (simp add: demo_tracks_def)
  show "\<exists>n c. movGetTrakTagSize (tracks demo_tracks i) = Some n \<and> mov_write_trak_tag demo_tracks i = Some c \<and>
    of_nat (length (bytes_of c)) = n \<and> take 4 (bytes_of c) = be32 n"
  proof (rule track_has_declared_size)
    have "codec_id (enc (tracks demo_tracks i)) = (if i = 0 then CODEC_ID_H264 else CODEC_ID_PCM)"
      "table_size (tracks demo_tracks i) STTS_ID = 1"
      by (simp_all add: demo_tracks_def blank_track_def)
    then show "tables_present demo_tracks i" using r by (cases "i = 0") (simp_all add: tables_present_def)
    show "track_timescale (tracks demo_tracks i) \<noteq> 0" by (simp add: demo_tracks_def)
    have "fst (hd two_params) = 3" by (simp add: two_params_def)
    then show "tag (tracks demo_tracks i) = TAG_avc1 \<longrightarrow> (\<exists>items sps pps. vos_stream items sps pps \<and>
        fst (hd items) = 3 \<and> vosData (tracks demo_tracks i) = annexb items)"
      using t(1) v two_params_stream by blast
  qed (use t(2) in simp)
qed

end
